(* ===== verification/Ferrum_Prelude.thy ===== *)
theory Ferrum_Prelude
  imports
    Main
    "HOL-Library.Word"
    "HOL-Library.List_Lexorder"
    "HOL-Library.AList"
begin

text \<open>
  Shared vocabulary of the development: the machine types the Rust sources use, the error
  type of \<open>ferrumdb-core/src/errors.rs\<close>, the result of a Rust function as an
  \<open>outcome\<close> (a value, an \<open>AppError\<close>, or a panic), state-passing actions, the sorted
  association list that stands for \<open>BTreeMap\<close>, the association list that stands for
  \<open>HashMap\<close>, and decimal printing and parsing as \<open>format!\<close> and \<open>str::parse\<close> do it.
\<close>

unbundle bit_operations_syntax

named_theorems outcome_simps \<open>evaluation of outcomes and actions\<close>
named_theorems fs_simps \<open>evaluation of file-system actions\<close>

section \<open>Machine types\<close>

type_synonym u8 = "8 word"
type_synonym u32 = "32 word"
type_synonym u64 = "64 word"
type_synonym i32 = "32 word"
type_synonym bytes = "8 word list"

section \<open>Errors and outcomes\<close>

datatype app_error =
    IoError string
  | DecodeError string
  | KeyNotFound string
  | InternalError string

datatype 'a outcome = Ok 'a | Err app_error | Panic

definition bindO :: "'a outcome \<Rightarrow> ('a \<Rightarrow> 'b outcome) \<Rightarrow> 'b outcome" where
  "bindO m f = (case m of Ok x \<Rightarrow> f x | Err e \<Rightarrow> Err e | Panic \<Rightarrow> Panic)"

lemma bindO_simps [simp, outcome_simps]:
  "bindO (Ok x) f = f x" "bindO (Err e) f = Err e" "bindO Panic f = Panic"
  by (simp_all add: bindO_def)

lemma bindO_cong [fundef_cong]:
  assumes "m = m'" and "\<And>x. m' = Ok x \<Longrightarrow> f x = f' x"
  shows "bindO m f = bindO m' f'"
  using assms by (cases m') auto

lemma bindO_eq_Ok: "bindO m f = Ok y \<longleftrightarrow> (\<exists>x. m = Ok x \<and> f x = Ok y)"
  by (cases m) auto

section \<open>State-passing actions\<close>

text \<open>
  A Rust function that mutates something is an action: it takes the state and returns its
  outcome with the state as the function left it, on the error paths too. \<open>bindA\<close> is
  the \<open>?\<close> operator: it stops at the first error or panic, keeping the state reached.
\<close>

type_synonym ('s, 'a) act = "'s \<Rightarrow> 'a outcome \<times> 's"

definition returnA :: "'a \<Rightarrow> ('s, 'a) act" where
  "returnA x s = (Ok x, s)"

definition failA :: "app_error \<Rightarrow> ('s, 'a) act" where
  "failA e s = (Err e, s)"

definition panicA :: "('s, 'a) act" where
  "panicA s = (Panic, s)"

definition liftO :: "'a outcome \<Rightarrow> ('s, 'a) act" where
  "liftO r s = (r, s)"

definition bindA :: "('s, 'a) act \<Rightarrow> ('a \<Rightarrow> ('s, 'b) act) \<Rightarrow> ('s, 'b) act" where
  "bindA m f s = (case m s of
     (Ok x, s') \<Rightarrow> f x s' | (Err e, s') \<Rightarrow> (Err e, s') | (Panic, s') \<Rightarrow> (Panic, s'))"

definition onW :: "('w, 'a) act \<Rightarrow> ('x \<times> 'w, 'a) act" where
  "onW m = (\<lambda>(x, w). case m w of (r, w') \<Rightarrow> (r, (x, w')))"

lemma bindA_Ok [outcome_simps]: "m s = (Ok x, s') \<Longrightarrow> bindA m f s = f x s'"
  by (simp add: bindA_def)

lemma bindA_Err [outcome_simps]: "m s = (Err e, s') \<Longrightarrow> bindA m f s = (Err e, s')"
  by (simp add: bindA_def)

lemma bindA_Panic [outcome_simps]: "m s = (Panic, s') \<Longrightarrow> bindA m f s = (Panic, s')"
  by (simp add: bindA_def)

lemma act_simps [simp, outcome_simps]:
  "returnA x s = (Ok x, s)" "failA e s = (Err e, s)" "panicA s = (Panic, s)"
  "liftO r s = (r, s)"
  by (simp_all add: returnA_def failA_def panicA_def liftO_def)

lemma bindA_cases:
  assumes "bindA m f s = (r, t)"
  obtains (Ok) x s' where "m s = (Ok x, s')" "f x s' = (r, t)"
  | (Err) e where "m s = (Err e, t)" "r = Err e"
  | (Panic) "m s = (Panic, t)" "r = Panic"
  using assms by (auto simp: bindA_def split: prod.splits outcome.splits)

lemma onW_eq [outcome_simps]: "m w = (r, w') \<Longrightarrow> onW m (x, w) = (r, (x, w'))"
  by (simp add: onW_def)

section \<open>Ordered maps: BTreeMap\<close>

text \<open>
  A \<open>BTreeMap\<close> is the list of its entries in iteration order, strictly ascending in the
  key. \<open>Vec<u8>\<close> keys compare lexicographically, which is the library's order on lists.
\<close>

definition bt_sorted :: "('k::linorder \<times> 'v) list \<Rightarrow> bool" where
  "bt_sorted m \<longleftrightarrow> sorted_wrt (<) (map fst m)"

fun bt_insert :: "'k::linorder \<Rightarrow> 'v \<Rightarrow> ('k \<times> 'v) list \<Rightarrow> ('k \<times> 'v) list" where
  "bt_insert k v [] = [(k, v)]"
| "bt_insert k v ((a, b) # m) =
     (if k < a then (k, v) # (a, b) # m
      else if k = a then (k, v) # m
      else (a, b) # bt_insert k v m)"

abbreviation (input) bt_get :: "('k \<times> 'v) list \<Rightarrow> 'k \<Rightarrow> 'v option" where
  "bt_get m k \<equiv> map_of m k"

lemma bt_sorted_Nil [simp]: "bt_sorted []"
  by (simp add: bt_sorted_def)

lemma bt_sorted_Cons [simp]:
  "bt_sorted ((k, v) # m) \<longleftrightarrow> (\<forall>x \<in> fst ` set m. k < x) \<and> bt_sorted m"
  by (auto simp: bt_sorted_def)

lemma bt_sorted_append:
  "bt_sorted (xs @ ys) \<longleftrightarrow>
     bt_sorted xs \<and> bt_sorted ys \<and> (\<forall>a \<in> fst ` set xs. \<forall>b \<in> fst ` set ys. a < b)"
  by (auto simp: bt_sorted_def sorted_wrt_append)

lemma bt_sorted_distinct: "bt_sorted m \<Longrightarrow> distinct (map fst m)"
  by (simp add: bt_sorted_def strict_sorted_iff)

lemma bt_sorted_filter: "bt_sorted m \<Longrightarrow> bt_sorted (filter p m)"
  by (induction m) (auto simp: image_iff)

lemma keys_bt_insert [simp]: "fst ` set (bt_insert k v m) = insert k (fst ` set m)"
  by (induction k v m rule: bt_insert.induct) (simp_all add: insert_commute split: if_split)

lemma bt_sorted_insert: "bt_sorted m \<Longrightarrow> bt_sorted (bt_insert k v m)"
proof (induction k v m rule: bt_insert.induct)
  case (2 k v a b m)
  then show ?case
    by (cases k a rule: linorder_cases) (auto intro: less_trans)
qed simp

lemma map_of_bt_insert: "map_of (bt_insert k v m) = (map_of m)(k \<mapsto> v)"
  by (induction m) (auto simp: fun_eq_iff)

lemma bt_insert_neq_Nil [simp]: "bt_insert k v m \<noteq> []"
  by (cases m) (auto split: if_splits)

lemma bt_ext:
  assumes "bt_sorted m" and "bt_sorted n" and "map_of m = map_of n"
  shows "m = n"
  using assms
proof (induction m arbitrary: n)
  case Nil
  then show ?case by (metis empty_eq_map_of_iff map_of.simps(1))
next
  case (Cons p m)
  obtain k v where p: "p = (k, v)" by force
  have "map_of n k = Some v"
    using fun_cong [OF Cons.prems(3), of k] by (simp add: p)
  then obtain l u n' where n: "n = (l, u) # n'"
    by (cases n) auto
  have dom: "insert k (fst ` set m) = insert l (fst ` set n')"
    using arg_cong [OF Cons.prems(3), of dom] unfolding p n dom_map_of_conv_image_fst by simp
  have kl: "k = l"
  proof (rule ccontr)
    assume "k \<noteq> l"
    moreover have "k \<in> insert l (fst ` set n')" "l \<in> insert k (fst ` set m)"
      unfolding dom [symmetric] by (rule insertI1) (simp add: dom)
    ultimately have "k \<in> fst ` set n'" "l \<in> fst ` set m" by simp_all
    with Cons.prems(1,2) have "l < k" "k < l" unfolding p n bt_sorted_Cons by blast+
    then show False by (rule order.asym)
  qed
  have uv: "u = v"
    using fun_cong [OF Cons.prems(3), of k] by (simp add: p n kl)
  have notin: "k \<notin> fst ` set m" "k \<notin> fst ` set n'"
    using Cons.prems(1,2) unfolding p n kl bt_sorted_Cons by blast+
  have "map_of m x = map_of n' x" for x
  proof (cases "x = k")
    case True
    with notin show ?thesis by (metis map_of_eq_None_iff)
  next
    case False
    with fun_cong [OF Cons.prems(3), of x] show ?thesis by (simp add: p n kl)
  qed
  then have "m = n'"
    using Cons.IH [of n'] Cons.prems(1,2) by (simp add: p n fun_eq_iff)
  then show ?case by (simp add: p n kl uv)
qed

text \<open>The laws a map promises to its clients, and what follows for runs of insertions.\<close>

locale kv_map =
  fixes empty :: "'m"
    and insert :: "'k \<Rightarrow> 'v \<Rightarrow> 'm \<Rightarrow> 'm"
    and lookup :: "'m \<Rightarrow> 'k \<Rightarrow> 'v option"
    and invar :: "'m \<Rightarrow> bool"
  assumes lookup_empty: "lookup empty k = None"
    and lookup_insert: "invar m \<Longrightarrow> lookup (insert k v m) = (lookup m)(k \<mapsto> v)"
    and invar_empty: "invar empty"
    and invar_insert: "invar m \<Longrightarrow> invar (insert k v m)"
begin

lemma invar_inserts: "invar m \<Longrightarrow> invar (fold (\<lambda>(k, v). insert k v) kvs m)"
  by (induction kvs arbitrary: m) (auto intro: invar_insert)

lemma lookup_inserts:
  "invar m \<Longrightarrow> lookup (fold (\<lambda>(k, v). insert k v) kvs m) = lookup m ++ map_of (rev kvs)"
proof (induction kvs arbitrary: m)
  case Nil
  then show ?case by simp
next
  case (Cons p kvs)
  obtain k v where p: "p = (k, v)" by force
  have "lookup (fold (\<lambda>(k, v). insert k v) (p # kvs) m)
      = lookup (insert k v m) ++ map_of (rev kvs)"
    using Cons by (simp add: p invar_insert)
  also have "\<dots> = lookup m ++ map_of (rev (p # kvs))"
    using Cons.prems by (auto simp: p lookup_insert map_add_def fun_eq_iff split: option.splits)
  finally show ?case .
qed

end

interpretation btree: kv_map "[]" bt_insert map_of bt_sorted
  by unfold_locales (auto simp: map_of_bt_insert bt_sorted_insert)

lemma map_of_rev_distinct: "distinct (map fst m) \<Longrightarrow> map_of (rev m) = map_of m"
  by (rule map_of_eqI) (auto simp: map_of_eq_Some_iff distinct_rev rev_map [symmetric])

section \<open>Hash maps\<close>

text \<open>A \<open>HashMap\<close>: an association list with distinct keys; its order carries no meaning.\<close>

definition hm_wf :: "('k \<times> 'v) list \<Rightarrow> bool" where
  "hm_wf m \<longleftrightarrow> distinct (map fst m)"

lemma keys_update [simp]: "fst ` set (AList.update k v m) = insert k (fst ` set m)"
  by (simp add: dom_map_of_conv_image_fst [symmetric] update_conv')

lemma keys_delete [simp]: "fst ` set (AList.delete k m) = fst ` set m - {k}"
  by (simp add: dom_map_of_conv_image_fst [symmetric] delete_conv')

interpretation hashmap: kv_map "[]" AList.update map_of hm_wf
  by unfold_locales (auto simp: hm_wf_def update_conv' distinct_update)

section \<open>Decimal numbers\<close>

definition digit_char :: "nat \<Rightarrow> char" where
  "digit_char d = char_of (48 + d)"

fun show_nat :: "nat \<Rightarrow> string" where
  "show_nat n = (if n < 10 then [digit_char n] else show_nat (n div 10) @ [digit_char (n mod 10)])"

declare show_nat.simps [simp del]

definition digit_val :: "char \<Rightarrow> nat option" where
  "digit_val c = (let n = of_char c in if 48 \<le> n \<and> n < 58 then Some (n - 48) else None)"

fun parse_digits :: "nat \<Rightarrow> string \<Rightarrow> nat option" where
  "parse_digits acc [] = Some acc"
| "parse_digits acc (c # cs) =
     (case digit_val c of None \<Rightarrow> None | Some d \<Rightarrow> parse_digits (10 * acc + d) cs)"

text \<open>
  \<open>str::parse::<u64>\<close>: an optional leading plus, at least one digit, leading zeros
  accepted, \<open>None\<close> when the value does not fit 64 bits.
\<close>

definition parse_u64 :: "string \<Rightarrow> u64 option" where
  "parse_u64 s =
     (let ds = (case s of c # cs \<Rightarrow> if c = CHR ''+'' then cs else s | [] \<Rightarrow> [])
      in if ds = [] then None
         else (case parse_digits 0 ds of
                 None \<Rightarrow> None
               | Some n \<Rightarrow> if n < 2 ^ 64 then Some (of_nat n) else None))"

lemma digit_val_digit_char [simp]: "d < 10 \<Longrightarrow> digit_val (digit_char d) = Some d"
  by (simp add: digit_val_def digit_char_def Let_def of_char_of)

lemma parse_digits_append:
  "parse_digits a (xs @ ys)
     = (case parse_digits a xs of None \<Rightarrow> None | Some b \<Rightarrow> parse_digits b ys)"
  by (induction a xs rule: parse_digits.induct) (auto split: option.splits)

lemma parse_digits_show_nat: "parse_digits 0 (show_nat n) = Some n"
proof (induction n rule: show_nat.induct)
  case (1 n)
  show ?case
  proof (cases "n < 10")
    case True
    then show ?thesis by (subst show_nat.simps) simp
  next
    case False
    with "1.IH" show ?thesis
      by (subst show_nat.simps) (simp add: parse_digits_append)
  qed
qed

lemma show_nat_digits: "c \<in> set (show_nat n) \<Longrightarrow> \<exists>d<10. c = digit_char d"
proof (induction n rule: show_nat.induct)
  case (1 n)
  show ?case
  proof (cases "n < 10")
    case True
    with "1.prems" show ?thesis by (subst (asm) show_nat.simps) auto
  next
    case False
    with "1.prems" "1.IH" show ?thesis
      by (subst (asm) show_nat.simps) (auto intro: exI [of _ "n mod 10"])
  qed
qed

lemma show_nat_neq_Nil [simp]: "show_nat n \<noteq> []"
  by (subst show_nat.simps) simp

lemma digit_char_neq_plus: "d < 10 \<Longrightarrow> digit_char d \<noteq> CHR ''+''"
  by (auto simp: digit_char_def dest!: arg_cong [of _ _ "of_char :: char \<Rightarrow> nat"])

lemma show_nat_no_plus: "show_nat n = c # cs \<Longrightarrow> c \<noteq> CHR ''+''"
  using show_nat_digits [of c n] digit_char_neq_plus by auto

lemma parse_u64_show: "n < 2 ^ 64 \<Longrightarrow> parse_u64 (show_nat n) = Some (of_nat n)"
  using show_nat_no_plus [of n] show_nat_neq_Nil [of n] parse_digits_show_nat [of n]
  by (cases "show_nat n") (auto simp: parse_u64_def Let_def)

lemma parse_u64_show_unat: "parse_u64 (show_nat (unat (i :: u64))) = Some i"
  using parse_u64_show [of "unat i"] unsigned_less [of i] by simp

end
