(* ===== verification/Ferrum_Bytes.thy ===== *)
theory Ferrum_Bytes
  imports Ferrum_Prelude
begin

text \<open>
  The byte level of \<open>ferrumdb-core/src/sstable.rs\<close>: big-endian integers, the primitive
  readers and writers with their cursor, the CRC32 of the data blocks and the FNV-1a hash of
  the bloom filter. Both checksums are folds whose step is injective, so that any change
  confined to one byte changes the checksum: the locale \<open>fold_checksum\<close> states it once.
\<close>

section \<open>Big-endian integers\<close>

definition to_be_bytes32 :: "u32 \<Rightarrow> bytes" where
  "to_be_bytes32 v = [ucast (drop_bit 24 v), ucast (drop_bit 16 v), ucast (drop_bit 8 v), ucast v]"

definition to_be_bytes64 :: "u64 \<Rightarrow> bytes" where
  "to_be_bytes64 v =
     [ucast (drop_bit 56 v), ucast (drop_bit 48 v), ucast (drop_bit 40 v), ucast (drop_bit 32 v),
      ucast (drop_bit 24 v), ucast (drop_bit 16 v), ucast (drop_bit 8 v), ucast v]"

definition from_be_bytes :: "bytes \<Rightarrow> 'a::len word" where
  "from_be_bytes bs = foldl (\<lambda>a b. push_bit 8 a OR ucast b) 0 bs"

lemma length_to_be_bytes [simp]:
  "length (to_be_bytes32 v) = 4" "length (to_be_bytes64 w) = 8"
  by (simp_all add: to_be_bytes32_def to_be_bytes64_def)

lemma be_step:
  "push_bit 8 (drop_bit (n + 8) v) OR ucast (ucast (drop_bit n v) :: u8) = drop_bit n v"
  for v :: "'a::len word"
proof (rule bit_word_eqI)
  fix m assume "m < LENGTH('a)"
  then show "bit (push_bit 8 (drop_bit (n + 8) v) OR ucast (ucast (drop_bit n v) :: u8)) m
      = bit (drop_bit n v) m"
    by (cases "m < 8") (simp_all add: bit_simps)
qed

lemma from_to_be_bytes32 [simp]: "from_be_bytes (to_be_bytes32 v) = v"
proof -
  have top: "push_bit 8 0 OR ucast (ucast (drop_bit 24 v) :: u8) = drop_bit 24 v"
    using be_step [of 24 v] by (simp add: drop_bit_word_beyond)
  have s16: "push_bit 8 (drop_bit 24 v) OR ucast (ucast (drop_bit 16 v) :: u8) = drop_bit 16 v"
    using be_step [of 16 v] by simp
  have s8: "push_bit 8 (drop_bit 16 v) OR ucast (ucast (drop_bit 8 v) :: u8) = drop_bit 8 v"
    using be_step [of 8 v] by simp
  have s0: "push_bit 8 (drop_bit 8 v) OR ucast (ucast (v) :: u8) = v"
    using be_step [of 0 v] by simp
  show ?thesis
    by (simp only: from_be_bytes_def to_be_bytes32_def foldl.simps top s16 s8 s0)
qed

lemma from_to_be_bytes64 [simp]: "from_be_bytes (to_be_bytes64 v) = v"
proof -
  have top: "push_bit 8 0 OR ucast (ucast (drop_bit 56 v) :: u8) = drop_bit 56 v"
    using be_step [of 56 v] by (simp add: drop_bit_word_beyond)
  have s48: "push_bit 8 (drop_bit 56 v) OR ucast (ucast (drop_bit 48 v) :: u8) = drop_bit 48 v"
    using be_step [of 48 v] by simp
  have s40: "push_bit 8 (drop_bit 48 v) OR ucast (ucast (drop_bit 40 v) :: u8) = drop_bit 40 v"
    using be_step [of 40 v] by simp
  have s32: "push_bit 8 (drop_bit 40 v) OR ucast (ucast (drop_bit 32 v) :: u8) = drop_bit 32 v"
    using be_step [of 32 v] by simp
  have s24: "push_bit 8 (drop_bit 32 v) OR ucast (ucast (drop_bit 24 v) :: u8) = drop_bit 24 v"
    using be_step [of 24 v] by simp
  have s16: "push_bit 8 (drop_bit 24 v) OR ucast (ucast (drop_bit 16 v) :: u8) = drop_bit 16 v"
    using be_step [of 16 v] by simp
  have s8: "push_bit 8 (drop_bit 16 v) OR ucast (ucast (drop_bit 8 v) :: u8) = drop_bit 8 v"
    using be_step [of 8 v] by simp
  have s0: "push_bit 8 (drop_bit 8 v) OR ucast (ucast (v) :: u8) = v"
    using be_step [of 0 v] by simp
  show ?thesis
    by (simp only: from_be_bytes_def to_be_bytes64_def foldl.simps top s48 s40 s32 s24 s16 s8 s0)
qed

lemma to_from_be_bytes32: "length bs = 4 \<Longrightarrow> to_be_bytes32 (from_be_bytes bs) = bs"
proof -
  assume "length bs = 4"
  then obtain a b c d where bs: "bs = [a, b, c, d]"
    by (auto simp: length_Suc_conv numeral_eq_Suc)
  have "ucast (drop_bit 24 (from_be_bytes bs :: u32)) = a" "ucast (drop_bit 16 (from_be_bytes bs :: u32)) = b"
    "ucast (drop_bit 8 (from_be_bytes bs :: u32)) = c" "ucast (from_be_bytes bs :: u32) = d"
    unfolding bs from_be_bytes_def
    by (rule bit_word_eqI, auto simp: bit_simps dest: bit_imp_le_length)+
  then show ?thesis by (simp add: to_be_bytes32_def bs)
qed

lemma to_be_bytes32_inject [simp]: "to_be_bytes32 a = to_be_bytes32 b \<longleftrightarrow> a = b"
  by (metis from_to_be_bytes32)

lemma to_be_bytes64_inject [simp]: "to_be_bytes64 a = to_be_bytes64 b \<longleftrightarrow> a = b"
  by (metis from_to_be_bytes64)

section \<open>Primitive readers and writers\<close>

definition short_read :: app_error where
  "short_read = DecodeError ''unexpected end of SSTable record''"

definition write_u32 :: "bytes \<Rightarrow> u32 \<Rightarrow> bytes" where
  "write_u32 out v = out @ to_be_bytes32 v"

definition read_u8 :: "bytes \<Rightarrow> nat \<Rightarrow> (u8 \<times> nat) outcome" where
  "read_u8 buf c = (if c + 1 > length buf then Err short_read else Ok (buf ! c, c + 1))"

definition read_u32 :: "bytes \<Rightarrow> nat \<Rightarrow> (u32 \<times> nat) outcome" where
  "read_u32 buf c =
     (if c + 4 > length buf then Err short_read
      else Ok (from_be_bytes (take 4 (drop c buf)), c + 4))"

definition read_u64 :: "bytes \<Rightarrow> nat \<Rightarrow> (u64 \<times> nat) outcome" where
  "read_u64 buf c =
     (if c + 8 > length buf then Err short_read
      else Ok (from_be_bytes (take 8 (drop c buf)), c + 8))"

definition read_bytes :: "bytes \<Rightarrow> nat \<Rightarrow> nat \<Rightarrow> (bytes \<times> nat) outcome" where
  "read_bytes buf c len =
     (if c + len > length buf then Err short_read
      else Ok (take len (drop c buf), c + len))"

lemma read_u8_OkD: "read_u8 buf c = Ok (v, c') \<Longrightarrow> c' = c + 1 \<and> c' \<le> length buf"
  by (simp add: read_u8_def split: if_splits)

lemma read_u32_OkD: "read_u32 buf c = Ok (v, c') \<Longrightarrow> c' = c + 4 \<and> c' \<le> length buf"
  by (simp add: read_u32_def split: if_splits)

lemma read_u64_OkD: "read_u64 buf c = Ok (v, c') \<Longrightarrow> c' = c + 8 \<and> c' \<le> length buf"
  by (simp add: read_u64_def split: if_splits)

lemma read_bytes_OkD:
  "read_bytes buf c n = Ok (v, c') \<Longrightarrow> c' = c + n \<and> c' \<le> length buf \<and> length v = n"
  by (auto simp: read_bytes_def split: if_splits)

lemmas read_OkD = read_u8_OkD read_u32_OkD read_u64_OkD read_bytes_OkD

text \<open>
  Reading back what was written: the cursor stands at the end of a prefix, and the bytes
  of the value follow it. These four rules drive every decoding proof.
\<close>

lemma read_u8_at:
  assumes "c = length xs"
  shows "read_u8 (xs @ v # ys) c = Ok (v, c + 1)"
  using assms by (simp add: read_u8_def)

lemma read_u32_at:
  assumes "c = length xs"
  shows "read_u32 (xs @ to_be_bytes32 v @ ys) c = Ok (v, c + 4)"
  using assms by (simp add: read_u32_def)

lemma read_u64_at:
  assumes "c = length xs"
  shows "read_u64 (xs @ to_be_bytes64 v @ ys) c = Ok (v, c + 8)"
  using assms by (simp add: read_u64_def)

lemma read_bytes_at:
  assumes "c = length xs" and "n = length bs"
  shows "read_bytes (xs @ bs @ ys) c n = Ok (bs, c + n)"
  using assms by (simp add: read_bytes_def)

lemma unat_of_nat_fits32: "n < 2 ^ 32 \<Longrightarrow> unat (of_nat n :: u32) = n"
  by (simp add: unat_of_nat take_bit_nat_eq_self)

lemma unat_of_nat_fits64: "n < 2 ^ 64 \<Longrightarrow> unat (of_nat n :: u64) = n"
  by (simp add: unat_of_nat take_bit_nat_eq_self)

section \<open>Checksums as folds\<close>

locale fold_checksum =
  fixes step :: "'s \<Rightarrow> 'b \<Rightarrow> 's"
    and init :: "'s"
    and finish :: "'s \<Rightarrow> 'c"
  assumes step_state_inj: "step s b = step t b \<Longrightarrow> s = t"
    and step_byte_inj: "step s b = step s d \<Longrightarrow> b = d"
    and finish_inj: "finish s = finish t \<Longrightarrow> s = t"
begin

lemma fold_state_inj: "foldl step s bs = foldl step t bs \<Longrightarrow> s = t"
  by (induction bs arbitrary: s t) (auto dest: step_state_inj)

lemma detects_one_change:
  assumes "finish (foldl step init (xs @ b # ys)) = finish (foldl step init (xs @ d # ys))"
  shows "b = d"
proof -
  from assms have "step (foldl step init xs) b = step (foldl step init xs) d"
    using finish_inj fold_state_inj by (metis foldl_append foldl_Cons)
  then show ?thesis by (rule step_byte_inj)
qed

lemma detects_list_update:
  assumes "i < length bs" and "d \<noteq> bs ! i"
  shows "finish (foldl step init (bs[i := d])) \<noteq> finish (foldl step init bs)"
  using assms detects_one_change [of "take i bs" d "drop (Suc i) bs" "bs ! i"]
  by (metis id_take_nth_drop upd_conv_take_nth_drop)

end

section \<open>CRC32\<close>

definition crc32_round :: "u32 \<Rightarrow> u32" where
  "crc32_round crc =
     (let lsb = crc AND 1; crc' = drop_bit 1 crc
      in if lsb = 1 then crc' XOR 0xEDB88320 else crc')"

definition crc32_byte :: "u32 \<Rightarrow> u8 \<Rightarrow> u32" where
  "crc32_byte crc byte = (crc32_round ^^ 8) (crc XOR ucast byte)"

definition crc32 :: "bytes \<Rightarrow> u32" where
  "crc32 data = NOT (foldl crc32_byte 0xFFFFFFFF data)"

lemma xor_right_inj: "a XOR c = b XOR c \<Longrightarrow> a = b"
  for a b c :: "'a::len word"
  by (drule arg_cong [of _ _ "\<lambda>x. x XOR c"]) (simp add: xor.assoc)

lemma crc32_round_alt:
  "crc32_round c = drop_bit 1 c XOR (if bit c 0 then 0xEDB88320 else 0)"
  by (simp add: crc32_round_def Let_def bit_0 and_one_eq odd_iff_mod_2_eq_one)

lemma crc32_round_inj: "crc32_round a = crc32_round b \<Longrightarrow> a = b"
proof -
  assume eq: "crc32_round a = crc32_round b"
  have top: "bit (crc32_round c) 31 = bit c 0" for c
    using bit_imp_le_length [of c 32] by (auto simp: crc32_round_alt bit_simps)
  from eq have b0: "bit a 0 = bit b 0" by (metis top)
  with eq have "drop_bit 1 a = drop_bit 1 b"
    unfolding crc32_round_alt by (intro xor_right_inj [of "drop_bit 1 a" _ "drop_bit 1 b"]) simp
  then have "bit a (Suc n) = bit b (Suc n)" for n
    by (metis bit_drop_bit_eq comp_apply plus_1_eq_Suc)
  with b0 have "bit a n = bit b n" for n
    by (cases n) simp_all
  then show "a = b" by (simp add: bit_eq_iff)
qed

lemma crc32_rounds_inj: "(crc32_round ^^ n) a = (crc32_round ^^ n) b \<Longrightarrow> a = b"
  by (induction n) (auto dest: crc32_round_inj)

lemma ucast_u8_inj:
  assumes "(ucast (b :: u8) :: 'a::len word) = ucast d" and "8 \<le> LENGTH('a)"
  shows "b = d"
proof (rule bit_word_eqI)
  fix n assume "n < LENGTH(8)"
  with arg_cong [OF assms(1), of "\<lambda>x. bit x n"] assms(2) show "bit b n = bit d n"
    by (simp add: bit_simps)
qed

lemma xor_byte_inj:
  fixes s :: "'a::len word"
  assumes "s XOR ucast (b :: u8) = s XOR ucast d" and "8 \<le> LENGTH('a)"
  shows "b = d"
proof (rule ucast_u8_inj)
  show "(ucast b :: 'a word) = ucast d"
    using assms(1) by (metis xor.commute xor_right_inj)
qed (rule assms(2))

interpretation crc: fold_checksum crc32_byte "0xFFFFFFFF" "NOT :: u32 \<Rightarrow> u32"
proof unfold_locales
  fix s t :: u32 and b d :: u8
  show "crc32_byte s b = crc32_byte t b \<Longrightarrow> s = t"
    unfolding crc32_byte_def by (rule xor_right_inj, erule crc32_rounds_inj)
  show "crc32_byte s b = crc32_byte s d \<Longrightarrow> b = d"
    unfolding crc32_byte_def by (rule xor_byte_inj, erule crc32_rounds_inj) simp
  show "NOT s = NOT t \<Longrightarrow> s = t" by simp
qed

section \<open>FNV-1a\<close>

definition hash64_step :: "u64 \<Rightarrow> u8 \<Rightarrow> u64" where
  "hash64_step h b = (h XOR ucast b) * 0x00000100000001b3"

definition hash64 :: "bytes \<Rightarrow> u64" where
  "hash64 bs = foldl hash64_step 0xcbf29ce484222325 bs"

lemma fnv_prime_inverse: "(0x00000100000001b3 :: u64) * 0xce965057aff6957b = 1"
  by simp

lemma hash64_mult_inj: "(a :: u64) * 0x00000100000001b3 = b * 0x00000100000001b3 \<Longrightarrow> a = b"
  by (drule arg_cong [of _ _ "\<lambda>x. x * 0xce965057aff6957b"])
    (simp only: mult.assoc fnv_prime_inverse mult_1_right)

interpretation fnv: fold_checksum hash64_step "0xcbf29ce484222325" id
proof unfold_locales
  fix s t :: u64 and b d :: u8
  show "hash64_step s b = hash64_step t b \<Longrightarrow> s = t"
    unfolding hash64_step_def by (rule xor_right_inj, erule hash64_mult_inj)
  show "hash64_step s b = hash64_step s d \<Longrightarrow> b = d"
    unfolding hash64_step_def by (rule xor_byte_inj, erule hash64_mult_inj) simp
  show "id s = id t \<Longrightarrow> s = t" by simp
qed

text \<open>The check value of CRC-32/ISO-HDLC, and the FNV-1a value of the one-letter input.\<close>

lemma crc32_byte_unfold:
  "crc32_byte c b =
     crc32_round (crc32_round (crc32_round (crc32_round (crc32_round (crc32_round
       (crc32_round (crc32_round (c XOR ucast b))))))))"
  by (simp add: crc32_byte_def numeral_eq_Suc)

lemmas crc32_eval = crc32_def crc32_byte_unfold crc32_round_alt

lemma crc32_check_value: "crc32 [49, 50, 51, 52, 53, 54, 55, 56, 57] = 0xCBF43926"
  by (simp add: crc32_eval)

lemma hash64_check_value: "hash64 [97] = 0xaf63dc4c8601ec8c"
  by (simp add: hash64_def hash64_step_def)

end
