(* ===== verification/Ferrum_Value.thy ===== *)
theory Ferrum_Value
  imports Ferrum_Bytes
begin

text \<open>
  Values and their protobuf form: \<open>Value\<close>, \<open>Value::to_proto\<close> and \<open>Value::from_proto\<close> of
  \<open>ferrumdb-core/src/store.rs\<close>, \<open>Entry\<close> of \<open>sstable.rs\<close>, and the messages that
  \<open>store.proto\<close> and \<open>wal.proto\<close> declare. The encoders and decoders themselves come from the
  \<open>prost\<close> crate and from code its build step generates: they are the fields of the record
  \<open>prost\<close>, a parameter of every definition that uses them, and the locale \<open>prost_codec\<close>
  names what the engine relies on.
\<close>

section \<open>Strings and values\<close>

text \<open>
  A Rust \<open>String\<close> is a sequence of Unicode scalar values; \<open>len\<close> is its length in UTF-8.
  Floats are their bit patterns: the engine only stores and returns them.
\<close>

typedef uchar = "{c :: nat. c < 0xD800 \<or> 0xE000 \<le> c \<and> c < 0x110000}"
  morphisms uchar_code Uchar
  by (rule exI [of _ 0]) simp

setup_lifting type_definition_uchar

lift_definition len_utf8 :: "uchar \<Rightarrow> nat" is
  "\<lambda>c. if c < 0x80 then 1 else if c < 0x800 then 2 else if c < 0x10000 then 3 else 4" .

definition str_len :: "uchar list \<Rightarrow> nat" where
  "str_len s = sum_list (map len_utf8 s)"

datatype db_value =
    Integer i32
  | Float u64
  | Text "uchar list"
  | Boolean bool
  | Bytes bytes

datatype entry = Value db_value | Tombstone

section \<open>Messages\<close>

datatype kind =
    Kind_Integer i32
  | Kind_Float u64
  | Kind_Text "uchar list"
  | Kind_Boolean bool
  | Kind_Data bytes

record value_message =
  kind :: "kind option"

datatype operation = Put | Delete | Commit

record wal_entry =
  we_operation :: i32
  we_key :: bytes
  we_value :: "value_message option"
  we_sequence :: u64
  we_timestamp :: u64

text \<open>The numbers that \<open>wal.proto\<close> gives the operations (\<open>Operation::into\<close>).\<close>

fun operation_code :: "operation \<Rightarrow> i32" where
  "operation_code Put = 0"
| "operation_code Delete = 1"
| "operation_code Commit = 2"

fun to_proto :: "db_value \<Rightarrow> value_message" where
  "to_proto (Integer n) = \<lparr>kind = Some (Kind_Integer n)\<rparr>"
| "to_proto (Float n) = \<lparr>kind = Some (Kind_Float n)\<rparr>"
| "to_proto (Text s) = \<lparr>kind = Some (Kind_Text s)\<rparr>"
| "to_proto (Boolean b) = \<lparr>kind = Some (Kind_Boolean b)\<rparr>"
| "to_proto (Bytes b) = \<lparr>kind = Some (Kind_Data b)\<rparr>"

definition from_proto :: "value_message \<Rightarrow> db_value outcome" where
  "from_proto msg =
     (case kind msg of
        Some (Kind_Integer n) \<Rightarrow> Ok (Integer n)
      | Some (Kind_Float n) \<Rightarrow> Ok (Float n)
      | Some (Kind_Text s) \<Rightarrow> Ok (Text s)
      | Some (Kind_Boolean b) \<Rightarrow> Ok (Boolean b)
      | Some (Kind_Data b) \<Rightarrow> Ok (Bytes b)
      | None \<Rightarrow> Err (DecodeError ''value message has no kind set''))"

lemma from_to_proto [simp]: "from_proto (to_proto v) = Ok v"
  by (cases v) (simp_all add: from_proto_def)

lemma from_proto_OkD: "from_proto m = Ok v \<Longrightarrow> to_proto v = m"
  by (cases m) (auto simp: from_proto_def split: option.splits kind.splits)

section \<open>The codec of the prost crate\<close>

record prost =
  encode_value :: "value_message \<Rightarrow> bytes"
  decode_value :: "bytes \<Rightarrow> string + value_message"
  encode_entry :: "wal_entry \<Rightarrow> bytes"
  decode_entry :: "bytes \<Rightarrow> string + wal_entry"
  operation_of :: "i32 \<Rightarrow> operation"

text \<open>
  What the engine relies on: decoding inverts encoding, for both messages, and the generated
  accessor \<open>WalEntry::operation()\<close> returns the operation whose number the field holds.
\<close>

locale prost_codec =
  fixes P :: prost
  assumes value_roundtrip [simp]: "decode_value P (encode_value P m) = Inr m"
    and entry_roundtrip [simp]: "decode_entry P (encode_entry P e) = Inr e"
    and operation_roundtrip [simp]: "operation_of P (operation_code op) = op"

definition entry_operation :: "prost \<Rightarrow> wal_entry \<Rightarrow> operation" where
  "entry_operation P e = operation_of P (we_operation e)"

definition decode_value_bytes :: "prost \<Rightarrow> bytes \<Rightarrow> db_value outcome" where
  "decode_value_bytes P bs =
     (case decode_value P bs of
        Inl e \<Rightarrow> Err (DecodeError e)
      | Inr msg \<Rightarrow> from_proto msg)"

context prost_codec
begin

lemma decode_value_bytes_encode [simp]:
  "decode_value_bytes P (encode_value P (to_proto v)) = Ok v"
  by (simp add: decode_value_bytes_def)

lemma encode_value_inj: "encode_value P m = encode_value P m' \<Longrightarrow> m = m'"
  by (metis sum.inject(2) value_roundtrip)

end

section \<open>A codec that satisfies the laws\<close>

text \<open>
  A concrete codec, used to exhibit inputs at which the theorems apply. It tags the kinds
  with their field numbers and delimits the key by escaping, so that it needs no length
  bound.
\<close>

fun escape :: "bytes \<Rightarrow> bytes" where
  "escape [] = [0]"
| "escape (b # bs) = 1 # b # escape bs"

fun unescape :: "bytes \<Rightarrow> (bytes \<times> bytes) option" where
  "unescape (c # bs) =
     (if c = 0 then Some ([], bs)
      else (case bs of
              [] \<Rightarrow> None
            | b # cs \<Rightarrow>
                (case unescape cs of None \<Rightarrow> None | Some (k, rest) \<Rightarrow> Some (b # k, rest))))"
| "unescape [] = None"

fun enc_text :: "uchar list \<Rightarrow> bytes" where
  "enc_text [] = []"
| "enc_text (c # cs) = to_be_bytes32 (of_nat (uchar_code c)) @ enc_text cs"

fun dec_text :: "bytes \<Rightarrow> uchar list" where
  "dec_text (a # b # c # d # bs) = Uchar (unat (from_be_bytes [a, b, c, d] :: u32)) # dec_text bs"
| "dec_text bs = []"

definition wire_enc_value :: "value_message \<Rightarrow> bytes" where
  "wire_enc_value m =
     (case kind m of
        None \<Rightarrow> []
      | Some (Kind_Integer n) \<Rightarrow> 1 # to_be_bytes32 n
      | Some (Kind_Float n) \<Rightarrow> 2 # to_be_bytes64 n
      | Some (Kind_Text s) \<Rightarrow> 3 # enc_text s
      | Some (Kind_Boolean b) \<Rightarrow> [4, if b then 1 else 0]
      | Some (Kind_Data d) \<Rightarrow> 5 # d)"

definition wire_dec_value :: "bytes \<Rightarrow> string + value_message" where
  "wire_dec_value bs =
     (case bs of
        [] \<Rightarrow> Inr \<lparr>kind = None\<rparr>
      | t # p \<Rightarrow>
          (if t = 1 then Inr \<lparr>kind = Some (Kind_Integer (from_be_bytes p))\<rparr>
           else if t = 2 then Inr \<lparr>kind = Some (Kind_Float (from_be_bytes p))\<rparr>
           else if t = 3 then Inr \<lparr>kind = Some (Kind_Text (dec_text p))\<rparr>
           else if t = 4 then Inr \<lparr>kind = Some (Kind_Boolean (p = [1]))\<rparr>
           else if t = 5 then Inr \<lparr>kind = Some (Kind_Data p)\<rparr>
           else Inl ''invalid tag''))"

definition wire_enc_entry :: "wal_entry \<Rightarrow> bytes" where
  "wire_enc_entry e =
     to_be_bytes32 (we_operation e) @ to_be_bytes64 (we_sequence e)
       @ to_be_bytes64 (we_timestamp e) @ escape (we_key e)
       @ (case we_value e of None \<Rightarrow> [] | Some m \<Rightarrow> 1 # wire_enc_value m)"

definition wire_dec_entry :: "bytes \<Rightarrow> string + wal_entry" where
  "wire_dec_entry bs =
     (case unescape (drop 20 bs) of
        None \<Rightarrow> Inl ''buffer underflow''
      | Some (k, rest) \<Rightarrow>
          (case (case rest of [] \<Rightarrow> Inr None | t # p \<Rightarrow> map_sum id Some (wire_dec_value p)) of
             Inl e \<Rightarrow> Inl e
           | Inr v \<Rightarrow>
               Inr \<lparr>we_operation = from_be_bytes (take 4 bs), we_key = k, we_value = v,
                    we_sequence = from_be_bytes (take 8 (drop 4 bs)),
                    we_timestamp = from_be_bytes (take 8 (drop 12 bs))\<rparr>))"

definition wire_codec :: prost where
  "wire_codec =
     \<lparr>encode_value = wire_enc_value, decode_value = wire_dec_value,
      encode_entry = wire_enc_entry, decode_entry = wire_dec_entry,
      operation_of = (\<lambda>n. if n = 2 then Commit else if n = 1 then Delete else Put)\<rparr>"

lemma unescape_escape: "unescape (escape k @ rest) = Some (k, rest)"
  by (induction k) simp_all

lemma uchar_code_bound: "uchar_code c < 0x110000"
  using uchar_code [of c] by auto

lemma dec_enc_text: "dec_text (enc_text s) = s"
proof (induction s)
  case Nil
  then show ?case by simp
next
  case (Cons c cs)
  define v :: u32 where "v = of_nat (uchar_code c)"
  obtain x y z u where split: "to_be_bytes32 v = [x, y, z, u]"
    by (simp add: to_be_bytes32_def)
  then have "(from_be_bytes [x, y, z, u] :: u32) = v"
    using from_to_be_bytes32 [of v] by simp
  moreover have "unat v = uchar_code c"
    using uchar_code_bound [of c] by (simp add: v_def unat_of_nat take_bit_nat_eq_self)
  ultimately show ?case
    using Cons by (simp add: v_def [symmetric] split uchar_code_inverse)
qed

lemma wire_value_roundtrip: "wire_dec_value (wire_enc_value m) = Inr m"
  by (cases m) (auto simp: wire_enc_value_def wire_dec_value_def dec_enc_text
      split: option.splits kind.splits)

interpretation wire: prost_codec wire_codec
proof unfold_locales
  fix m
  show "decode_value wire_codec (encode_value wire_codec m) = Inr m"
    by (simp add: wire_codec_def wire_value_roundtrip)
next
  fix e :: wal_entry
  show "decode_entry wire_codec (encode_entry wire_codec e) = Inr e"
    by (cases e) (auto simp: wire_codec_def wire_enc_entry_def wire_dec_entry_def
        unescape_escape wire_value_roundtrip split: option.splits)
next
  fix op
  show "operation_of wire_codec (operation_code op) = op"
    by (cases op) (simp_all add: wire_codec_def)
qed

end
