(* ===== verification/Ferrum_Fs.thy ===== *)
theory Ferrum_Fs
  imports Ferrum_Prelude
begin

text \<open>
  The part of \<open>std::fs\<close>, \<open>std::path\<close> and \<open>flock\<close> that FerrumDB calls. The world holds the
  files with their contents, the directories, the advisory locks that are held, and a
  schedule of I/O faults: every system call consumes one tick of the clock, and the schedule
  says whether the call at that tick fails, with which message, and (for a write) how many
  bytes reached the file before it failed. The schedule is arbitrary, so a lemma that does not
  mention it holds for every pattern of I/O errors; a process that stops at some point is the
  schedule in which every later call fails without effect.
\<close>

section \<open>Paths\<close>

text \<open>
  A path is the sequence of its components, as \<open>Path\<close> compares them. A leading slash is the
  component \<open>/\<close>. A component is a string of characters, as \<open>str\<close> is, and not the bytes of an \<open>OsStr\<close>:
  a file whose name is not UTF-8 does not occur in the model. \<open>to_str\<close>, which gives none for such a
  name, always gives some here, and \<open>to_string_lossy\<close>, which replaces what is not UTF-8, is \<open>path_display\<close>.
\<close>

type_synonym path = "string list"

fun split_slash :: "string \<Rightarrow> string list" where
  "split_slash [] = [[]]"
| "split_slash (c # cs) =
     (if c = CHR ''/'' then [] # split_slash cs
      else (case split_slash cs of [] \<Rightarrow> [[c]] | s # ss \<Rightarrow> (c # s) # ss))"

definition normal_components :: "string \<Rightarrow> string list" where
  "normal_components s = filter (\<lambda>c. c \<noteq> [] \<and> c \<noteq> ''.'') (split_slash s)"

definition path_of_str :: "string \<Rightarrow> path" where
  "path_of_str s =
     (case split_slash s of
        [] \<Rightarrow> []
      | c # cs \<Rightarrow>
          (if c = [] \<and> cs \<noteq> [] then ''/'' # normal_components s
           else if c = ''.'' then ''.'' # normal_components s
           else normal_components s))"

definition path_join :: "path \<Rightarrow> string \<Rightarrow> path" where
  "path_join p s = (if take 1 s = ''/'' then path_of_str s else p @ normal_components s)"

definition path_file_name :: "path \<Rightarrow> string option" where
  "path_file_name p =
     (if p = [] \<or> last p \<in> {''/'', ''.'', ''..''} then None else Some (last p))"

definition path_parent :: "path \<Rightarrow> path option" where
  "path_parent p = (if p = [] \<or> p = [''/''] then None else Some (butlast p))"

definition os_to_str :: "string \<Rightarrow> string option" where
  [simp]: "os_to_str c = Some c"

fun join_slash :: "string list \<Rightarrow> string" where
  "join_slash [] = []"
| "join_slash [c] = c"
| "join_slash (c # cs) = c @ CHR ''/'' # join_slash cs"

definition path_display :: "path \<Rightarrow> string" where
  "path_display p =
     (case p of
        [] \<Rightarrow> []
      | c # cs \<Rightarrow> if c = ''/'' then CHR ''/'' # join_slash cs else join_slash p)"

lemma split_slash_plain: "CHR ''/'' \<notin> set s \<Longrightarrow> split_slash s = [s]"
  by (induction s) auto

lemma path_join_plain:
  assumes "CHR ''/'' \<notin> set s" and "s \<noteq> []" and "s \<noteq> ''.''"
  shows "path_join p s = p @ [s]"
  using assms by (cases s) (auto simp: path_join_def normal_components_def split_slash_plain)

text \<open>Printing a path and reading it back gives the path.\<close>

definition normal_component :: "string \<Rightarrow> bool" where
  "normal_component c \<longleftrightarrow> c \<noteq> [] \<and> c \<noteq> ''.'' \<and> CHR ''/'' \<notin> set c"

definition path_ok :: "path \<Rightarrow> bool" where
  "path_ok p \<longleftrightarrow>
     (case p of
        [] \<Rightarrow> True
      | c # cs \<Rightarrow> (c = ''/'' \<or> c = ''.'' \<or> normal_component c) \<and> list_all normal_component cs)"

lemma split_slash_append:
  "CHR ''/'' \<notin> set c \<Longrightarrow> split_slash (c @ CHR ''/'' # s) = c # split_slash s"
  by (induction c) auto

lemma split_join_slash:
  "cs \<noteq> [] \<Longrightarrow> list_all (\<lambda>c. CHR ''/'' \<notin> set c) cs \<Longrightarrow> split_slash (join_slash cs) = cs"
  by (induction cs rule: join_slash.induct) (auto simp: split_slash_plain split_slash_append)

lemma normal_no_slash: "list_all normal_component cs \<Longrightarrow> list_all (\<lambda>c. CHR ''/'' \<notin> set c) cs"
  by (auto simp: list_all_iff normal_component_def)

lemma filter_normal: "list_all normal_component cs \<Longrightarrow> filter (\<lambda>c. c \<noteq> [] \<and> c \<noteq> ''.'') cs = cs"
  by (auto simp: list_all_iff normal_component_def filter_id_conv)

lemma path_of_display:
  assumes "path_ok p"
  shows "path_of_str (path_display p) = p"
proof (cases p)
  case (Cons c cs)
  have cs: "list_all normal_component cs" using assms by (simp add: path_ok_def Cons)
  have rest: "cs \<noteq> [] \<Longrightarrow> split_slash (join_slash cs) = cs" using split_join_slash [OF _ normal_no_slash [OF cs]] .
  show ?thesis
  proof (cases "c = ''/''")
    case True
    then show ?thesis
      using rest filter_normal [OF cs]
      by (cases "cs = []") (auto simp: Cons path_display_def path_of_str_def normal_components_def)
  next
    case False
    then have c: "c \<noteq> []" "CHR ''/'' \<notin> set c" using assms by (auto simp: path_ok_def Cons normal_component_def)
    have "split_slash (join_slash p) = p"
      using split_join_slash [of p] normal_no_slash [OF cs] c(2) by (simp add: Cons)
    then show ?thesis
      using False c(1) filter_normal [OF cs]
      by (auto simp: Cons path_display_def path_of_str_def normal_components_def)
  qed
qed (simp add: path_display_def path_of_str_def normal_components_def)

section \<open>The world\<close>

datatype fault = NoFault | Fault string nat

record world =
  w_files :: "(path \<times> bytes) list"
  w_dirs :: "path list"
  w_locks :: "path list"
  w_faults :: "nat \<Rightarrow> fault"
  w_clock :: nat

definition file_of :: "world \<Rightarrow> path \<Rightarrow> bytes option" where
  "file_of w p = map_of (w_files w) p"

definition put_file :: "path \<Rightarrow> bytes \<Rightarrow> world \<Rightarrow> world" where
  "put_file p bs w = w\<lparr>w_files := AList.update p bs (w_files w)\<rparr>"

definition del_file :: "path \<Rightarrow> world \<Rightarrow> world" where
  "del_file p w = w\<lparr>w_files := AList.delete p (w_files w)\<rparr>"

definition later :: "nat \<Rightarrow> world \<Rightarrow> world" where
  "later n w = w\<lparr>w_clock := w_clock w + n\<rparr>"

definition fault_now :: "world \<Rightarrow> fault" where
  "fault_now w = w_faults w (w_clock w)"

definition syscall :: "(world, 'a) act \<Rightarrow> (world, 'a) act" where
  "syscall m w =
     (case fault_now w of
        NoFault \<Rightarrow> m (later 1 w)
      | Fault e n \<Rightarrow> (Err (IoError e), later 1 w))"

definition enoent :: app_error where
  "enoent = IoError ''No such file or directory (os error 2)''"

section \<open>System calls\<close>

definition dir_exists :: "world \<Rightarrow> path \<Rightarrow> bool" where
  "dir_exists w p \<longleftrightarrow> p = [] \<or> p \<in> set (w_dirs w)"

definition ancestors :: "path \<Rightarrow> path list" where
  "ancestors p = map (\<lambda>n. take (Suc n) p) [0..<length p]"

text \<open>
  \<open>create_dir_all\<close> makes one directory after the other: a fault leaves the first \<open>n\<close> of them
  behind.
\<close>

definition make_dirs :: "path list \<Rightarrow> world \<Rightarrow> world" where
  "make_dirs qs w = w\<lparr>w_dirs := w_dirs w @ filter (\<lambda>q. q \<notin> set (w_dirs w)) qs\<rparr>"

definition fs_create_dir_all :: "path \<Rightarrow> (world, unit) act" where
  "fs_create_dir_all p w =
     (case fault_now w of
        NoFault \<Rightarrow>
          (if \<exists>q \<in> set (ancestors p). file_of w q \<noteq> None
           then (Err (IoError ''Not a directory (os error 20)''), later 1 w)
           else (Ok (), make_dirs (ancestors p) (later 1 w)))
      | Fault e n \<Rightarrow>
          (Err (IoError e),
           make_dirs (takeWhile (\<lambda>q. file_of w q = None) (take n (ancestors p))) (later 1 w)))"

definition fs_open :: "bool \<Rightarrow> bool \<Rightarrow> path \<Rightarrow> (world, unit) act" where
  "fs_open creat trunc p = syscall (\<lambda>w.
     case file_of w p of
       Some c \<Rightarrow> (Ok (), if trunc then put_file p [] w else w)
     | None \<Rightarrow>
         (if creat \<and> p \<noteq> [] \<and> dir_exists w (butlast p) \<and> \<not> dir_exists w p
          then (Ok (), put_file p [] w)
          else (Err enoent, w)))"

text \<open>
  A write through a handle goes to the end of the file: the log's handle is in append mode,
  and a table file is written once, right after it was truncated. A handle to a file that was
  removed writes into nothing.
\<close>

definition append_file :: "path \<Rightarrow> bytes \<Rightarrow> world \<Rightarrow> world" where
  "append_file p bs w =
     (case file_of w p of None \<Rightarrow> w | Some c \<Rightarrow> put_file p (c @ bs) w)"

definition fs_write_all :: "path \<Rightarrow> bytes \<Rightarrow> (world, unit) act" where
  "fs_write_all p bs w =
     (case fault_now w of
        NoFault \<Rightarrow> (Ok (), append_file p bs (later 1 w))
      | Fault e n \<Rightarrow> (Err (IoError e), append_file p (take n bs) (later 1 w)))"

definition fs_sync_all :: "path \<Rightarrow> (world, unit) act" where
  "fs_sync_all p = syscall (\<lambda>w. (Ok (), w))"

definition resize :: "nat \<Rightarrow> bytes \<Rightarrow> bytes" where
  "resize n bs = take n bs @ replicate (n - length bs) 0"

definition fs_set_len :: "path \<Rightarrow> nat \<Rightarrow> (world, unit) act" where
  "fs_set_len p n = syscall (\<lambda>w.
     case file_of w p of
       None \<Rightarrow> (Ok (), w)
     | Some c \<Rightarrow> (Ok (), put_file p (resize n c) w))"

definition fs_exists :: "path \<Rightarrow> (world, bool) act" where
  "fs_exists p w =
     (case fault_now w of
        NoFault \<Rightarrow> (Ok (file_of w p \<noteq> None \<or> dir_exists w p), later 1 w)
      | Fault e n \<Rightarrow> (Ok False, later 1 w))"

definition fs_metadata_len :: "path \<Rightarrow> (world, nat) act" where
  "fs_metadata_len p = syscall (\<lambda>w.
     case file_of w p of None \<Rightarrow> (Err enoent, w) | Some c \<Rightarrow> (Ok (length c), w))"

text \<open>A seek rejects offsets beyond \<open>i64::MAX\<close>; seeking past the end is allowed.\<close>

definition fs_seek :: "path \<Rightarrow> nat \<Rightarrow> (world, unit) act" where
  "fs_seek p off = syscall (\<lambda>w.
     if off < 2 ^ 63 then (Ok (), w)
     else (Err (IoError ''Invalid argument (os error 22)''), w))"

definition fs_read_exact :: "path \<Rightarrow> nat \<Rightarrow> nat \<Rightarrow> (world, bytes) act" where
  "fs_read_exact p off len = syscall (\<lambda>w.
     case file_of w p of
       None \<Rightarrow> (Err enoent, w)
     | Some c \<Rightarrow>
         (if len = 0 then (Ok [], w)
          else if off + len \<le> length c then (Ok (take len (drop off c)), w)
          else (Err (IoError ''failed to fill whole buffer''), w)))"

definition fs_read_to_end :: "path \<Rightarrow> (world, bytes) act" where
  "fs_read_to_end p = syscall (\<lambda>w.
     case file_of w p of None \<Rightarrow> (Err enoent, w) | Some c \<Rightarrow> (Ok c, w))"

text \<open>
  The entries of a directory, as full paths, in no particular order: the order is that of
  the association list, about which nothing is assumed.
\<close>

definition dir_entries :: "world \<Rightarrow> path \<Rightarrow> path list" where
  "dir_entries w d =
     filter (\<lambda>p. p \<noteq> [] \<and> butlast p = d) (map fst (w_files w) @ w_dirs w)"

definition fs_read_dir :: "path \<Rightarrow> (world, path list) act" where
  "fs_read_dir d = syscall (\<lambda>w.
     if dir_exists w d then (Ok (dir_entries w d), w) else (Err enoent, w))"

definition fs_dir_entry :: "path \<Rightarrow> (world, path) act" where
  "fs_dir_entry p = syscall (\<lambda>w. (Ok p, w))"

definition fs_is_dir :: "path \<Rightarrow> (world, bool) act" where
  "fs_is_dir p w =
     (case fault_now w of
        NoFault \<Rightarrow> (Ok (dir_exists w p), later 1 w)
      | Fault e n \<Rightarrow> (Ok False, later 1 w))"

definition fs_remove_file :: "path \<Rightarrow> (world, unit) act" where
  "fs_remove_file p = syscall (\<lambda>w.
     case file_of w p of None \<Rightarrow> (Err enoent, w) | Some c \<Rightarrow> (Ok (), del_file p w))"

definition in_tree :: "path \<Rightarrow> path \<Rightarrow> bool" where
  "in_tree d p \<longleftrightarrow> take (length d) p = d"

text \<open>\<open>remove_dir_all\<close> removes one file after the other: a fault leaves all but \<open>n\<close> of them.\<close>

definition fs_remove_dir_all :: "path \<Rightarrow> (world, unit) act" where
  "fs_remove_dir_all d w =
     (case fault_now w of
        NoFault \<Rightarrow>
          (if d \<in> set (w_dirs w)
           then (Ok (), (later 1 w)\<lparr>w_files := filter (\<lambda>(p, c). \<not> in_tree d p) (w_files w),
                                   w_dirs := filter (\<lambda>p. \<not> in_tree d p) (w_dirs w)\<rparr>)
           else (Err enoent, later 1 w))
      | Fault e n \<Rightarrow>
          (Err (IoError e),
           fold del_file (take n (filter (in_tree d) (map fst (w_files w)))) (later 1 w)))"

text \<open>
  \<open>flock(fd, LOCK_EX | LOCK_NB)\<close>: fails when another open file description holds the lock.
  Dropping the file releases it; that cannot fail.
\<close>

definition fs_flock :: "path \<Rightarrow> (world, bool) act" where
  "fs_flock p w =
     (case fault_now w of
        NoFault \<Rightarrow>
          (if p \<in> set (w_locks w) then (Ok False, later 1 w)
           else (Ok True, later 1 (w\<lparr>w_locks := p # w_locks w\<rparr>)))
      | Fault e n \<Rightarrow> (Ok False, later 1 w))"

definition fs_unlock :: "path \<Rightarrow> world \<Rightarrow> world" where
  "fs_unlock p w = w\<lparr>w_locks := removeAll p (w_locks w)\<rparr>"

section \<open>Evaluation when no fault strikes\<close>

definition quiet :: "world \<Rightarrow> bool" where
  "quiet w \<longleftrightarrow> (\<forall>i. w_clock w \<le> i \<longrightarrow> w_faults w i = NoFault)"

lemma quiet_fault_now [simp, fs_simps]: "quiet w \<Longrightarrow> fault_now w = NoFault"
  by (simp add: quiet_def fault_now_def)

lemma quiet_preserved [simp, fs_simps]:
  "quiet w \<Longrightarrow> quiet (later n w)"
  "quiet (put_file p bs w) = quiet w"
  "quiet (del_file p w) = quiet w"
  "quiet (append_file p bs w) = quiet w"
  "quiet (fs_unlock p w) = quiet w"
  by (auto simp: quiet_def later_def put_file_def del_file_def append_file_def fs_unlock_def
      split: option.splits)

lemma later_simps [simp, fs_simps]:
  "later 0 w = w"
  "later m (later n w) = later (m + n) w"
  "put_file p bs (later n w) = later n (put_file p bs w)"
  "del_file p (later n w) = later n (del_file p w)"
  "append_file p bs (later n w) = later n (append_file p bs w)"
  "fs_unlock p (later n w) = later n (fs_unlock p w)"
  by (simp_all add: later_def put_file_def del_file_def append_file_def fs_unlock_def file_of_def
      add.commute split: option.splits)

lemma later_inject [simp]: "later m w = later n w \<longleftrightarrow> m = n"
  by (cases w) (simp add: later_def)

lemma world_later [simp, fs_simps]:
  "w_files (later n w) = w_files w" "w_dirs (later n w) = w_dirs w"
  "w_locks (later n w) = w_locks w" "w_faults (later n w) = w_faults w"
  "file_of (later n w) = file_of w" "dir_exists (later n w) = dir_exists w"
  "dir_entries (later n w) = dir_entries w"
  by (auto simp: later_def file_of_def dir_exists_def dir_entries_def fun_eq_iff)

lemma world_put_file [simp, fs_simps]:
  "w_dirs (put_file p bs w) = w_dirs w" "w_locks (put_file p bs w) = w_locks w"
  "w_faults (put_file p bs w) = w_faults w" "w_clock (put_file p bs w) = w_clock w"
  "dir_exists (put_file p bs w) = dir_exists w"
  by (auto simp: put_file_def dir_exists_def fun_eq_iff)

lemma world_del_file [simp, fs_simps]:
  "w_dirs (del_file p w) = w_dirs w" "w_locks (del_file p w) = w_locks w"
  "w_faults (del_file p w) = w_faults w" "w_clock (del_file p w) = w_clock w"
  "dir_exists (del_file p w) = dir_exists w"
  by (auto simp: del_file_def dir_exists_def fun_eq_iff)

lemma world_append_file [simp, fs_simps]:
  "w_dirs (append_file p bs w) = w_dirs w" "w_locks (append_file p bs w) = w_locks w"
  "w_faults (append_file p bs w) = w_faults w" "w_clock (append_file p bs w) = w_clock w"
  "dir_exists (append_file p bs w) = dir_exists w"
  by (auto simp: append_file_def split: option.splits)

lemma world_unlock [simp, fs_simps]:
  "w_dirs (fs_unlock p w) = w_dirs w" "w_files (fs_unlock p w) = w_files w"
  "w_faults (fs_unlock p w) = w_faults w" "w_clock (fs_unlock p w) = w_clock w"
  "file_of (fs_unlock p w) = file_of w" "dir_exists (fs_unlock p w) = dir_exists w"
  by (auto simp: fs_unlock_def file_of_def dir_exists_def fun_eq_iff)

lemma file_of_put_file [simp, fs_simps]:
  "file_of (put_file p bs w) q = (if q = p then Some bs else file_of w q)"
  by (simp add: file_of_def put_file_def update_conv)

lemma file_of_del_file [simp, fs_simps]:
  "file_of (del_file p w) q = (if q = p then None else file_of w q)"
  by (simp add: file_of_def del_file_def delete_conv)

lemma file_of_append_file [simp, fs_simps]:
  "file_of (append_file p bs w) q =
     (if q = p then map_option (\<lambda>c. c @ bs) (file_of w p) else file_of w q)"
  by (auto simp: append_file_def split: option.splits)

lemma put_file_idem [simp, fs_simps]: "put_file p a (put_file p b w) = put_file p a w"
  by (simp add: put_file_def update_last)

lemma append_put_file [simp, fs_simps]:
  "append_file p bs (put_file p cs w) = put_file p (cs @ bs) w"
  by (simp add: append_file_def)

lemma syscall_quiet [fs_simps]: "quiet w \<Longrightarrow> syscall m w = m (later 1 w)"
  by (simp add: syscall_def)

lemma fs_open_existing [fs_simps]:
  "quiet w \<Longrightarrow> file_of w p = Some c \<Longrightarrow> fs_open cr False p w = (Ok (), later 1 w)"
  by (simp add: fs_open_def syscall_quiet)

lemma fs_open_truncate [fs_simps]:
  "quiet w \<Longrightarrow> file_of w p = Some c \<Longrightarrow> fs_open cr True p w = (Ok (), later 1 (put_file p [] w))"
  by (simp add: fs_open_def syscall_quiet)

lemma fs_open_create [fs_simps]:
  "quiet w \<Longrightarrow> file_of w p = None \<Longrightarrow> p \<noteq> [] \<Longrightarrow> dir_exists w (butlast p) \<Longrightarrow> \<not> dir_exists w p \<Longrightarrow>
     fs_open True tr p w = (Ok (), later 1 (put_file p [] w))"
  by (simp add: fs_open_def syscall_quiet)

lemma fs_write_all_quiet [fs_simps]:
  "quiet w \<Longrightarrow> fs_write_all p bs w = (Ok (), later 1 (append_file p bs w))"
  by (simp add: fs_write_all_def)

lemma fs_sync_all_quiet [fs_simps]: "quiet w \<Longrightarrow> fs_sync_all p w = (Ok (), later 1 w)"
  by (simp add: fs_sync_all_def syscall_quiet)

lemma fs_exists_quiet [fs_simps]:
  "quiet w \<Longrightarrow> fs_exists p w = (Ok (file_of w p \<noteq> None \<or> dir_exists w p), later 1 w)"
  by (simp add: fs_exists_def)

lemma fs_read_exact_quiet [fs_simps]:
  "quiet w \<Longrightarrow> file_of w p = Some c \<Longrightarrow> off + len \<le> length c \<Longrightarrow>
     fs_read_exact p off len w = (Ok (take len (drop off c)), later 1 w)"
  by (simp add: fs_read_exact_def syscall_quiet)

lemma fs_seek_quiet [fs_simps]:
  "quiet w \<Longrightarrow> off < 2 ^ 63 \<Longrightarrow> fs_seek p off w = (Ok (), later 1 w)"
  by (simp add: fs_seek_def syscall_quiet)

lemma fs_metadata_quiet [fs_simps]:
  "quiet w \<Longrightarrow> file_of w p = Some c \<Longrightarrow> fs_metadata_len p w = (Ok (length c), later 1 w)"
  by (simp add: fs_metadata_len_def syscall_quiet)

lemma fs_read_to_end_quiet [fs_simps]:
  "quiet w \<Longrightarrow> file_of w p = Some c \<Longrightarrow> fs_read_to_end p w = (Ok c, later 1 w)"
  by (simp add: fs_read_to_end_def syscall_quiet)

lemma fs_set_len_quiet [fs_simps]:
  "quiet w \<Longrightarrow> file_of w p = Some c \<Longrightarrow> n \<le> length c \<Longrightarrow>
     fs_set_len p n w = (Ok (), later 1 (put_file p (take n c) w))"
  by (simp add: fs_set_len_def syscall_quiet resize_def)

lemma fs_remove_file_quiet [fs_simps]:
  "quiet w \<Longrightarrow> file_of w p = Some c \<Longrightarrow> fs_remove_file p w = (Ok (), later 1 (del_file p w))"
  by (simp add: fs_remove_file_def syscall_quiet)

section \<open>Directories that are in place\<close>

definition dir_ready :: "world \<Rightarrow> path \<Rightarrow> bool" where
  "dir_ready w d \<longleftrightarrow> (\<forall>q \<in> set (ancestors d). q \<in> set (w_dirs w) \<and> file_of w q = None)"

lemma ancestors_self: "d \<noteq> [] \<Longrightarrow> d \<in> set (ancestors d)"
  by (cases d rule: rev_cases) (auto simp: ancestors_def intro: image_eqI [of _ _ "length d - 1"])

lemma dir_ready_exists: "dir_ready w d \<Longrightarrow> dir_exists w d"
  using ancestors_self [of d] by (auto simp: dir_ready_def dir_exists_def)

lemma create_dir_ready:
  assumes "quiet w" and "dir_ready w d"
  shows "fs_create_dir_all d w = (Ok (), later 1 w)"
proof -
  have "filter (\<lambda>q. q \<notin> set (w_dirs w)) (ancestors d) = []"
    using assms(2) by (auto simp: dir_ready_def filter_empty_conv)
  moreover have "\<not> (\<exists>q \<in> set (ancestors d). file_of w q \<noteq> None)"
    using assms(2) by (auto simp: dir_ready_def)
  ultimately show ?thesis
    using assms(1) by (simp add: fs_create_dir_all_def make_dirs_def)
qed

text \<open>A path at which a file can be written: its parent is a directory, it is none itself.\<close>

definition writable_at :: "world \<Rightarrow> path \<Rightarrow> bool" where
  "writable_at w p \<longleftrightarrow>
     p \<noteq> [] \<and> path_parent p = Some (butlast p) \<and> dir_ready w (butlast p) \<and> p \<notin> set (w_dirs w)"

lemma writable_fs_open:
  assumes "quiet w" and "writable_at w p"
  shows "fs_open True True p w = (Ok (), later 1 (put_file p [] w))"
proof (cases "file_of w p")
  case None
  then show ?thesis
    using assms dir_ready_exists [of w "butlast p"]
    by (intro fs_open_create) (auto simp: writable_at_def dir_exists_def)
next
  case (Some c)
  then show ?thesis using assms by (intro fs_open_truncate)
qed

lemma writable_later [simp]: "writable_at (later n w) p = writable_at w p"
  by (simp add: writable_at_def dir_ready_def)

section \<open>Writes that touch one file\<close>

definition contents :: "world \<Rightarrow> path \<Rightarrow> bytes" where
  "contents w p = (case file_of w p of None \<Rightarrow> [] | Some c \<Rightarrow> c)"

definition fs_wf :: "world \<Rightarrow> bool" where
  "fs_wf w \<longleftrightarrow> distinct (map fst (w_files w)) \<and> distinct (w_dirs w)
     \<and> (\<forall>p. file_of w p \<noteq> None \<longrightarrow> p \<notin> set (w_dirs w))"

text \<open>Two worlds that agree on everything but the clock and the contents of one file.\<close>

definition touches :: "path \<Rightarrow> world \<Rightarrow> world \<Rightarrow> bool" where
  "touches p w w' \<longleftrightarrow>
     w_dirs w' = w_dirs w \<and> w_locks w' = w_locks w \<and> w_faults w' = w_faults w
     \<and> w_clock w \<le> w_clock w' \<and> (\<forall>q. q \<noteq> p \<longrightarrow> file_of w' q = file_of w q)
     \<and> (distinct (map fst (w_files w)) \<longrightarrow> distinct (map fst (w_files w')))"

lemma touches_refl [simp]: "touches p w w"
  by (simp add: touches_def)

lemma touches_trans [trans]: "touches p w w' \<Longrightarrow> touches p w' w'' \<Longrightarrow> touches p w w''"
  by (simp add: touches_def)

lemma touches_later: "touches p w (later n w)"
  by (simp add: touches_def later_def file_of_def)

lemma touches_put_file: "touches p w (put_file p bs w)"
  by (simp add: touches_def put_file_def file_of_def update_conv distinct_update)

lemma touches_del_file: "touches p w (del_file p w)"
  by (simp add: touches_def del_file_def file_of_def delete_conv distinct_delete)

lemma touches_append_file: "touches p w (append_file p bs w)"
  by (simp add: append_file_def touches_put_file split: option.splits)

lemma touches_quiet: "touches p w w' \<Longrightarrow> quiet w \<Longrightarrow> quiet w'"
  by (auto simp: touches_def quiet_def)

lemma touches_dir_ready: "touches p w w' \<Longrightarrow> p \<notin> set (ancestors d) \<Longrightarrow> dir_ready w' d = dir_ready w d"
  by (auto simp: touches_def dir_ready_def)

lemma not_own_ancestor: "p \<noteq> [] \<Longrightarrow> p \<notin> set (ancestors (butlast p))"
proof
  assume "p \<noteq> []" and "p \<in> set (ancestors (butlast p))"
  then obtain n where "n < length p - 1" and "p = take (Suc n) (butlast p)"
    by (auto simp: ancestors_def)
  from arg_cong [OF this(2), of length] this(1) show False by simp
qed

lemma touches_writable: "touches p w w' \<Longrightarrow> writable_at w' p = writable_at w p"
  using not_own_ancestor [of p] touches_dir_ready [of p w w' "butlast p"]
  by (auto simp: writable_at_def touches_def)

lemma touches_wf: "touches p w w' \<Longrightarrow> fs_wf w \<Longrightarrow> p \<notin> set (w_dirs w) \<Longrightarrow> fs_wf w'"
  by (auto simp: touches_def fs_wf_def)

text \<open>Opening, writing and syncing one file under an arbitrary schedule of faults.\<close>

lemma fs_open_append_any:
  assumes "fs_open True False p w = (r, w')"
  shows "touches p w w'" and "contents w' p = contents w p"
    and "file_of w p \<noteq> None \<Longrightarrow> file_of w' p \<noteq> None"
    and "r = Ok () \<Longrightarrow> file_of w' p \<noteq> None" and "r \<noteq> Panic"
  using assms
  by (auto simp: fs_open_def syscall_def contents_def touches_later
      intro: touches_trans [OF touches_later] touches_put_file
      split: fault.splits option.splits if_splits simp del: later_simps)

lemma fs_write_all_any:
  assumes "fs_write_all p bs w = (r, w')" and "file_of w p = Some c"
  shows "touches p w w'" and "\<exists>n. file_of w' p = Some (c @ take n bs) \<and> (r = Ok () \<longrightarrow> length bs \<le> n)"
    and "r \<noteq> Panic"
proof -
  show "touches p w w'" and "r \<noteq> Panic"
    using assms
    by (auto simp: fs_write_all_def intro: touches_trans [OF touches_append_file touches_later]
        split: fault.splits)
  show "\<exists>n. file_of w' p = Some (c @ take n bs) \<and> (r = Ok () \<longrightarrow> length bs \<le> n)"
  proof (cases "fault_now w")
    case NoFault
    with assms show ?thesis by (intro exI [of _ "length bs"]) (auto simp: fs_write_all_def)
  next
    case (Fault e n)
    with assms show ?thesis by (intro exI [of _ n]) (auto simp: fs_write_all_def)
  qed
qed

lemma fs_sync_all_any:
  assumes "fs_sync_all p w = (r, w')"
  shows "w' = later 1 w" and "r \<noteq> Panic"
  using assms by (auto simp: fs_sync_all_def syscall_def split: fault.splits)

lemma open_append_quiet:
  assumes "quiet w" and "writable_at w p"
  shows "fs_open True False p w = (Ok (), later 1 (if file_of w p = None then put_file p [] w else w))"
  using assms dir_ready_exists [of w "butlast p"]
  by (cases "file_of w p") (auto simp: fs_open_def syscall_quiet writable_at_def dir_exists_def)

end
