(* ===== verification/Ferrum_Block.thy ===== *)
theory Ferrum_Block
  imports Ferrum_Value Ferrum_Fs
begin

text \<open>
  Records and data blocks of an SSTable, from \<open>ferrumdb-core/src/sstable.rs\<close> (lines 463 to
  567): the encoding of one record, its decoding at a cursor, the scan of a block for a key,
  the completion of a block with its checksum, and the checked read of a block from disk.
\<close>

section \<open>Encoding and decoding of records\<close>

definition TYPE_VALUE :: u8 where "TYPE_VALUE = 0"
definition TYPE_TOMBSTONE :: u8 where "TYPE_TOMBSTONE = 1"

definition encode_record :: "prost \<Rightarrow> bytes \<Rightarrow> bytes \<Rightarrow> entry \<Rightarrow> bytes" where
  "encode_record P out key e =
     (let out = write_u32 out (of_nat (length key)) @ key
      in case e of
           Value v \<Rightarrow>
             (let bs = encode_value P (to_proto v)
              in write_u32 (out @ [TYPE_VALUE]) (of_nat (length bs)) @ bs)
         | Tombstone \<Rightarrow> write_u32 (out @ [TYPE_TOMBSTONE]) 0)"

definition decode_record :: "prost \<Rightarrow> bytes \<Rightarrow> nat \<Rightarrow> ((bytes \<times> entry) \<times> nat) outcome" where
  "decode_record P buf c =
     bindO (read_u32 buf c) (\<lambda>(key_len, c).
     bindO (read_bytes buf c (unat key_len)) (\<lambda>(key, c).
     bindO (read_u8 buf c) (\<lambda>(rec_type, c).
     bindO (read_u32 buf c) (\<lambda>(val_len, c).
       if rec_type = TYPE_VALUE
       then bindO (read_bytes buf c (unat val_len)) (\<lambda>(val_bytes, c).
            bindO (decode_value_bytes P val_bytes) (\<lambda>v. Ok ((key, Value v), c)))
       else Ok ((key, Tombstone), c)))))"

lemma decode_record_advances:
  "decode_record P buf c = Ok (r, c') \<Longrightarrow> c < c' \<and> c' \<le> length buf"
  by (auto simp: decode_record_def bindO_eq_Ok dest!: read_OkD split: if_splits)

text \<open>The loop of \<open>read_all_entries\<close> over the records of one block.\<close>

function decode_all :: "prost \<Rightarrow> bytes \<Rightarrow> nat \<Rightarrow> (bytes \<times> entry) list outcome" where
  "decode_all P records c =
     (if c < length records
      then bindO (decode_record P records c) (\<lambda>(r, c').
           bindO (decode_all P records c') (\<lambda>rs. Ok (r # rs)))
      else Ok [])"
  by pat_completeness auto
termination
  by (relation "measure (\<lambda>(P, records, c). length records - c)")
    (auto dest: decode_record_advances)

declare decode_all.simps [simp del]

text \<open>
  \<open>find_in_block\<close>: the scan compares the key bytes in place and decodes the value only on a
  hit; it stops at the first record whose key is past the target.
\<close>

function find_in_block_from :: "prost \<Rightarrow> bytes \<Rightarrow> bytes \<Rightarrow> nat \<Rightarrow> entry option outcome" where
  "find_in_block_from P records target c =
     (if c < length records
      then bindO (read_u32 records c) (\<lambda>(key_len, c1).
           bindO (read_bytes records c1 (unat key_len)) (\<lambda>(rec_key, c2).
           bindO (read_u8 records c2) (\<lambda>(rec_type, c3).
           bindO (read_u32 records c3) (\<lambda>(val_len, c4).
           bindO (read_bytes records c4 (unat val_len)) (\<lambda>(val_bytes, c5).
             if rec_key = target
             then (if rec_type = TYPE_VALUE
                   then bindO (decode_value_bytes P val_bytes) (\<lambda>v. Ok (Some (Value v)))
                   else Ok (Some Tombstone))
             else if target < rec_key then Ok None
             else find_in_block_from P records target c5)))))
      else Ok None)"
  by pat_completeness auto
termination
  by (relation "measure (\<lambda>(P, records, target, c). length records - c)")
    (auto dest!: read_OkD)

declare find_in_block_from.simps [simp del]

definition find_in_block :: "prost \<Rightarrow> bytes \<Rightarrow> bytes \<Rightarrow> entry option outcome" where
  "find_in_block P records key = find_in_block_from P records key 0"

section \<open>Blocks\<close>

record index_entry =
  ie_first_key :: bytes
  ie_block_offset :: u64
  ie_block_len :: u32

definition finalize_block ::
    "bytes \<Rightarrow> bytes \<Rightarrow> index_entry list \<Rightarrow> bytes option \<Rightarrow> u64 \<Rightarrow> bytes \<times> bytes \<times> index_entry list" where
  "finalize_block file block index first_key offset =
     (let crc = crc32 block;
          start = length file;
          file = file @ block @ to_be_bytes32 crc;
          block_len = of_nat (length file - start)
      in (file, [],
          index @ [\<lparr>ie_first_key = case first_key of None \<Rightarrow> [] | Some k \<Rightarrow> k,
                    ie_block_offset = offset, ie_block_len = block_len\<rparr>]))"

text \<open>
  \<open>read_block_from_disk\<close>. A block shorter than its checksum makes \<open>block.len() - 4\<close>
  underflow: the process panics (in a release build at the slice that follows).
\<close>

definition read_block_from_disk :: "path \<Rightarrow> index_entry \<Rightarrow> (world, bytes) act" where
  "read_block_from_disk p ie =
     bindA (fs_seek p (unat (ie_block_offset ie))) (\<lambda>_.
     bindA (fs_read_exact p (unat (ie_block_offset ie)) (unat (ie_block_len ie))) (\<lambda>block.
       if length block < 4 then panicA
       else let split = length block - 4;
                stored_crc = from_be_bytes (drop split block)
            in if crc32 (take split block) \<noteq> stored_crc
               then failA (DecodeError (''SSTable block CRC mismatch at offset ''
                             @ show_nat (unat (ie_block_offset ie))))
               else returnA (take split block)))"

section \<open>Reading back what was encoded\<close>

definition record_bytes :: "prost \<Rightarrow> bytes \<times> entry \<Rightarrow> bytes" where
  "record_bytes P r = encode_record P [] (fst r) (snd r)"

definition block_bytes :: "prost \<Rightarrow> (bytes \<times> entry) list \<Rightarrow> bytes" where
  "block_bytes P es = concat (map (record_bytes P) es)"

definition value_bytes :: "prost \<Rightarrow> entry \<Rightarrow> bytes" where
  "value_bytes P e = (case e of Value v \<Rightarrow> encode_value P (to_proto v) | Tombstone \<Rightarrow> [])"

definition type_byte :: "entry \<Rightarrow> u8" where
  "type_byte e = (case e of Value v \<Rightarrow> TYPE_VALUE | Tombstone \<Rightarrow> TYPE_TOMBSTONE)"

lemma type_byte_simps [simp]:
  "type_byte (Value v) = TYPE_VALUE" "type_byte Tombstone = TYPE_TOMBSTONE"
  "TYPE_TOMBSTONE \<noteq> TYPE_VALUE" "TYPE_VALUE \<noteq> TYPE_TOMBSTONE"
  by (simp_all add: type_byte_def TYPE_VALUE_def TYPE_TOMBSTONE_def)

lemma record_bytes_layout:
  "record_bytes P (k, e) =
     to_be_bytes32 (of_nat (length k)) @ k @ type_byte e
       # to_be_bytes32 (of_nat (length (value_bytes P e))) @ value_bytes P e"
  by (cases e) (simp_all add: record_bytes_def encode_record_def write_u32_def value_bytes_def Let_def)

lemma encode_record_append: "encode_record P out k e = out @ record_bytes P (k, e)"
  by (cases e) (simp_all add: record_bytes_def encode_record_def write_u32_def Let_def)

lemma length_record_bytes:
  "length (record_bytes P (k, e)) = 9 + length k + length (value_bytes P e)"
  by (simp add: record_bytes_layout)

lemma block_bytes_simps [simp]:
  "block_bytes P [] = []" "block_bytes P (r # rs) = record_bytes P r @ block_bytes P rs"
  "block_bytes P (rs @ ss) = block_bytes P rs @ block_bytes P ss"
  by (simp_all add: block_bytes_def)

lemma record_bytes_neq_Nil [simp]: "record_bytes P r \<noteq> []"
  by (cases r) (simp add: record_bytes_layout)

lemma block_bytes_eq_Nil [simp]: "block_bytes P es = [] \<longleftrightarrow> es = []"
  by (cases es) simp_all

text \<open>A record fits when its two length fields do not wrap.\<close>

definition record_fits :: "prost \<Rightarrow> bytes \<times> entry \<Rightarrow> bool" where
  "record_fits P r \<longleftrightarrow> length (fst r) < 2 ^ 32 \<and> length (value_bytes P (snd r)) < 2 ^ 32"

lemma record_fits_bound: "length (record_bytes P r) < 2 ^ 32 \<Longrightarrow> record_fits P r"
  by (cases r) (simp add: record_fits_def length_record_bytes)

text \<open>The four fields in front of a value, read at the start of a record.\<close>

lemma read_header:
  fixes P k e xs ys c
  assumes "c = length xs" and "record_fits P (k, e)"
  defines "buf \<equiv> xs @ record_bytes P (k, e) @ ys"
  shows "read_u32 buf c = Ok (of_nat (length k), c + 4)"
    and "read_bytes buf (c + 4) (unat (of_nat (length k) :: u32)) = Ok (k, c + 4 + length k)"
    and "read_u8 buf (c + 4 + length k) = Ok (type_byte e, c + 5 + length k)"
    and "read_u32 buf (c + 5 + length k) = Ok (of_nat (length (value_bytes P e)), c + 9 + length k)"
    and "read_bytes buf (c + 9 + length k) (unat (of_nat (length (value_bytes P e)) :: u32))
           = Ok (value_bytes P e, c + length (record_bytes P (k, e)))"
proof -
  let ?kl = "to_be_bytes32 (of_nat (length k))"
  let ?vl = "to_be_bytes32 (of_nat (length (value_bytes P e)))"
  let ?v = "value_bytes P e"
  have fit: "unat (of_nat (length k) :: u32) = length k" "unat (of_nat (length ?v) :: u32) = length ?v"
    using assms(2) by (simp_all add: record_fits_def unat_of_nat_fits32)
  have buf: "buf = xs @ ?kl @ (k @ type_byte e # ?vl @ ?v @ ys)"
    "buf = (xs @ ?kl) @ k @ (type_byte e # ?vl @ ?v @ ys)"
    "buf = (xs @ ?kl @ k) @ type_byte e # (?vl @ ?v @ ys)"
    "buf = (xs @ ?kl @ k @ [type_byte e]) @ ?vl @ (?v @ ys)"
    "buf = (xs @ ?kl @ k @ [type_byte e] @ ?vl) @ ?v @ ys"
    by (simp_all add: buf_def record_bytes_layout)
  show "read_u32 buf c = Ok (of_nat (length k), c + 4)"
    unfolding buf(1) by (rule read_u32_at) (simp add: assms(1))
  show "read_bytes buf (c + 4) (unat (of_nat (length k) :: u32)) = Ok (k, c + 4 + length k)"
    unfolding buf(2) fit(1) by (rule read_bytes_at) (simp_all add: assms(1))
  show "read_u8 buf (c + 4 + length k) = Ok (type_byte e, c + 5 + length k)"
    unfolding buf(3) by (subst read_u8_at) (simp_all add: assms(1))
  show "read_u32 buf (c + 5 + length k) = Ok (of_nat (length ?v), c + 9 + length k)"
    unfolding buf(4) by (subst read_u32_at) (simp_all add: assms(1))
  show "read_bytes buf (c + 9 + length k) (unat (of_nat (length ?v) :: u32))
      = Ok (?v, c + length (record_bytes P (k, e)))"
    unfolding buf(5) fit(2)
    by (subst read_bytes_at) (simp_all add: assms(1) length_record_bytes)
qed

context prost_codec
begin

lemma decode_record_at:
  assumes "c = length xs" and "record_fits P r"
  shows "decode_record P (xs @ record_bytes P r @ ys) c = Ok (r, c + length (record_bytes P r))"
proof -
  obtain k e where r: "r = (k, e)" by force
  note h = read_header [of c xs P k e ys]
  show ?thesis
    using h assms unfolding r decode_record_def
    by (cases e) (simp_all add: value_bytes_def length_record_bytes)
qed

lemma decode_all_at:
  assumes "c = length xs" and "list_all (record_fits P) es"
  shows "decode_all P (xs @ block_bytes P es) c = Ok es"
  using assms
proof (induction es arbitrary: xs c)
  case Nil
  then show ?case by (subst decode_all.simps) simp
next
  case (Cons r es)
  have step: "decode_record P (xs @ record_bytes P r @ block_bytes P es) c
      = Ok (r, c + length (record_bytes P r))"
    using Cons.prems by (intro decode_record_at) simp_all
  have "decode_all P ((xs @ record_bytes P r) @ block_bytes P es) (c + length (record_bytes P r)) = Ok es"
    using Cons.prems by (intro Cons.IH) simp_all
  moreover have "c < length (xs @ record_bytes P r @ block_bytes P es)"
    using Cons.prems(1) by simp
  ultimately show ?case
    using step by (subst decode_all.simps) simp
qed

lemma decode_all_block: "list_all (record_fits P) es \<Longrightarrow> decode_all P (block_bytes P es) 0 = Ok es"
  using decode_all_at [of 0 "[]" es] by simp

lemma find_in_block_at:
  assumes "c = length xs" and "list_all (record_fits P) es" and "bt_sorted es"
  shows "find_in_block_from P (xs @ block_bytes P es) key c = Ok (map_of es key)"
  using assms
proof (induction es arbitrary: xs c)
  case Nil
  then show ?case by (subst find_in_block_from.simps) simp
next
  case (Cons r es)
  obtain k e where r: "r = (k, e)" by force
  note h = read_header [of c xs P k e "block_bytes P es"]
  have rest: "find_in_block_from P ((xs @ record_bytes P r) @ block_bytes P es) key
      (c + length (record_bytes P r)) = Ok (map_of es key)"
    using Cons.prems by (intro Cons.IH) (simp_all add: r)
  have inside: "c < length (xs @ record_bytes P (k, e) @ block_bytes P es)"
    using Cons.prems(1) by (simp add: length_record_bytes)
  have past: "map_of es key = None" if "key < k"
    using Cons.prems(3) that by (auto simp: r map_of_eq_None_iff)
  show ?case
    using h rest inside past Cons.prems(1,2) unfolding r
    by (subst find_in_block_from.simps) (cases e; simp add: value_bytes_def)
qed

lemma find_in_block_block:
  "list_all (record_fits P) es \<Longrightarrow> bt_sorted es \<Longrightarrow>
     find_in_block P (block_bytes P es) key = Ok (map_of es key)"
  using find_in_block_at [of 0 "[]" es key] by (simp add: find_in_block_def)

end

section \<open>Checked reads\<close>

text \<open>
  The bytes of a block as \<open>finalize_block\<close> lays them out, found at the offset the index
  entry names, come back without their checksum.
\<close>

lemma read_block_at:
  assumes "quiet w" and "file_of w p = Some (xs @ (bs @ to_be_bytes32 (crc32 bs)) @ ys)"
    and "unat (ie_block_offset ie) = length xs" and "length xs < 2 ^ 63"
    and "unat (ie_block_len ie) = length bs + 4"
  shows "read_block_from_disk p ie w = (Ok bs, later 2 w)"
  using assms
  by (simp add: read_block_from_disk_def bindA_def fs_seek_quiet
      fs_read_exact_quiet [where c = "xs @ (bs @ to_be_bytes32 (crc32 bs)) @ ys"] Let_def)

text \<open>
  A block with one byte changed, in its records or in its checksum, is reported as an error;
  its bytes are never returned.
\<close>

lemma stored_crc_change:
  assumes "i < 4" and "d \<noteq> to_be_bytes32 v ! i"
  shows "from_be_bytes ((to_be_bytes32 v)[i := d]) \<noteq> v"
  using assms to_from_be_bytes32 [of "(to_be_bytes32 v)[i := d]"]
  by (metis length_list_update length_to_be_bytes(1) nth_list_update_eq)

lemma damaged_block_crc:
  assumes "i < length bs + 4" and "d \<noteq> (bs @ to_be_bytes32 (crc32 bs)) ! i"
  defines "blk \<equiv> (bs @ to_be_bytes32 (crc32 bs))[i := d]"
  shows "crc32 (take (length bs) blk) \<noteq> from_be_bytes (drop (length bs) blk)"
proof (cases "i < length bs")
  case True
  then have "blk = bs[i := d] @ to_be_bytes32 (crc32 bs)"
    by (simp add: blk_def list_update_append)
  moreover have "crc32 (bs[i := d]) \<noteq> crc32 bs"
    using crc.detects_list_update [of i bs d] True assms(2) by (simp add: crc32_def nth_append)
  ultimately show ?thesis by simp
next
  case False
  then have "blk = bs @ (to_be_bytes32 (crc32 bs))[i - length bs := d]"
    by (simp add: blk_def list_update_append)
  moreover have "from_be_bytes ((to_be_bytes32 (crc32 bs))[i - length bs := d]) \<noteq> crc32 bs"
    using False assms(1,2) by (intro stored_crc_change) (auto simp: nth_append)
  ultimately show ?thesis by simp
qed

lemma read_block_damaged:
  assumes "quiet w" and "i < length bs + 4" and "d \<noteq> (bs @ to_be_bytes32 (crc32 bs)) ! i"
    and "file_of w p = Some (xs @ (bs @ to_be_bytes32 (crc32 bs))[i := d] @ ys)"
    and "unat (ie_block_offset ie) = length xs" and "length xs < 2 ^ 63"
    and "unat (ie_block_len ie) = length bs + 4"
  shows "read_block_from_disk p ie w =
    (Err (DecodeError (''SSTable block CRC mismatch at offset '' @ show_nat (length xs))), later 2 w)"
proof -
  define blk where "blk = (bs @ to_be_bytes32 (crc32 bs))[i := d]"
  have len: "length blk = length bs + 4" by (simp add: blk_def)
  show ?thesis
    using assms(1,4-7) damaged_block_crc [OF assms(2,3)] len
    unfolding blk_def [symmetric]
    by (simp add: read_block_from_disk_def bindA_def fs_seek_quiet
        fs_read_exact_quiet [where c = "xs @ blk @ ys"] Let_def)
qed

end
