(* ===== verification/Ferrum_Bloom.thy ===== *)
theory Ferrum_Bloom
  imports Ferrum_Bytes
begin

text \<open>
  The bloom filter of \<open>ferrumdb-core/src/sstable.rs\<close> (lines 131 to 168): a bit array probed
  at positions obtained by double hashing. A negative answer is definitive: every key that
  was added is reported as possibly present, whatever else was added. The panics of the
  remainder by zero, for a filter without bits that is read from a damaged file, are kept.
\<close>

record bloom_filter =
  bf_bits :: bytes
  bf_k :: u32

definition bloom_new :: "nat \<Rightarrow> bloom_filter" where
  "bloom_new num_keys =
     (let m_bits = max (num_keys * 10) 64
      in \<lparr>bf_bits = replicate ((m_bits + 7) div 8) 0, bf_k = 7\<rparr>)"

definition bloom_position :: "u64 \<Rightarrow> u64 \<Rightarrow> nat \<Rightarrow> nat" where
  "bloom_position m h i =
     (let h1 = h AND 0xFFFFFFFF; h2 = drop_bit 32 h OR 1
      in unat ((h1 + of_nat i * h2) mod m))"

definition bloom_positions :: "bloom_filter \<Rightarrow> bytes \<Rightarrow> nat list outcome" where
  "bloom_positions b key =
     (let m = of_nat (length (bf_bits b) * 8) :: u64
      in if m = 0 \<and> bf_k b \<noteq> 0 then Panic
         else Ok (map (bloom_position m (hash64 key)) [0..<unat (bf_k b)]))"

definition set_bit_at :: "nat \<Rightarrow> bytes \<Rightarrow> bytes" where
  "set_bit_at p bs = bs[p div 8 := (bs ! (p div 8)) OR push_bit (p mod 8) 1]"

definition test_bit_at :: "bytes \<Rightarrow> nat \<Rightarrow> bool" where
  "test_bit_at bs p \<longleftrightarrow> (bs ! (p div 8)) AND push_bit (p mod 8) 1 \<noteq> 0"

definition bloom_add :: "bytes \<Rightarrow> bloom_filter \<Rightarrow> bloom_filter outcome" where
  "bloom_add key b =
     bindO (bloom_positions b key) (\<lambda>ps.
       if \<exists>p \<in> set ps. length (bf_bits b) \<le> p div 8 then Panic
       else Ok (b\<lparr>bf_bits := fold set_bit_at ps (bf_bits b)\<rparr>))"

definition maybe_contains :: "bloom_filter \<Rightarrow> bytes \<Rightarrow> bool outcome" where
  "maybe_contains b key =
     bindO (bloom_positions b key) (\<lambda>ps.
       if \<exists>p \<in> set ps. length (bf_bits b) \<le> p div 8 then Panic
       else Ok (\<forall>p \<in> set ps. test_bit_at (bf_bits b) p))"

fun bloom_add_all :: "bytes list \<Rightarrow> bloom_filter \<Rightarrow> bloom_filter outcome" where
  "bloom_add_all [] b = Ok b"
| "bloom_add_all (k # ks) b = bindO (bloom_add k b) (bloom_add_all ks)"

section \<open>Single bits\<close>

lemma test_bit_at_iff: "test_bit_at bs p \<longleftrightarrow> bit (bs ! (p div 8)) (p mod 8)"
proof -
  have "(b AND push_bit n 1 \<noteq> 0) = bit b n" if "n < 8" for b :: u8 and n
  proof -
    have "b AND push_bit n 1 = (if bit b n then push_bit n 1 else 0)"
      by (rule bit_word_eqI) (auto simp: bit_simps)
    moreover have "(push_bit n 1 :: u8) \<noteq> 0"
      using that by (auto simp: bit_eq_iff bit_simps)
    ultimately show ?thesis by simp
  qed
  then show ?thesis by (simp add: test_bit_at_def)
qed

lemma length_set_bit_at [simp]: "length (set_bit_at p bs) = length bs"
  by (simp add: set_bit_at_def)

lemma length_fold_set_bit_at [simp]: "length (fold set_bit_at ps bs) = length bs"
  by (induction ps arbitrary: bs) simp_all

lemma test_set_bit_same: "p div 8 < length bs \<Longrightarrow> test_bit_at (set_bit_at p bs) p"
  by (simp add: test_bit_at_iff set_bit_at_def bit_simps)

lemma test_set_bit_mono: "test_bit_at bs q \<Longrightarrow> test_bit_at (set_bit_at p bs) q"
  by (cases "p div 8 < length bs")
    (auto simp: test_bit_at_iff set_bit_at_def bit_simps nth_list_update list_update_beyond not_less)

lemma test_fold_mono: "test_bit_at bs q \<Longrightarrow> test_bit_at (fold set_bit_at ps bs) q"
  by (induction ps arbitrary: bs) (simp_all add: test_set_bit_mono)

lemma test_fold_set:
  "\<forall>p \<in> set ps. p div 8 < length bs \<Longrightarrow> q \<in> set ps \<Longrightarrow> test_bit_at (fold set_bit_at ps bs) q"
proof (induction ps arbitrary: bs)
  case (Cons p ps)
  then show ?case
    by (cases "q = p") (auto intro: test_fold_mono test_set_bit_same)
qed simp

section \<open>Well-formed filters\<close>

text \<open>A filter with at least one byte whose bit count fits the 64-bit modulus.\<close>

definition bloom_ok :: "bloom_filter \<Rightarrow> bool" where
  "bloom_ok b \<longleftrightarrow> bf_bits b \<noteq> [] \<and> length (bf_bits b) * 8 < 2 ^ 64"

lemma bloom_position_bound:
  assumes "0 < n" and "n < 2 ^ 64"
  shows "bloom_position (of_nat n) h i < n"
proof -
  have "unat (of_nat n :: u64) = n"
    using assms(2) by (rule unat_of_nat_fits64)
  then show ?thesis
    using assms(1) by (simp add: bloom_position_def Let_def unat_mod_distrib)
qed

definition probe_list :: "bloom_filter \<Rightarrow> bytes \<Rightarrow> nat list" where
  "probe_list b key =
     map (bloom_position (of_nat (length (bf_bits b) * 8)) (hash64 key)) [0..<unat (bf_k b)]"

lemma bloom_positions_ok:
  assumes "bloom_ok b"
  shows "bloom_positions b key = Ok (probe_list b key)"
    and "\<forall>p \<in> set (probe_list b key). p div 8 < length (bf_bits b)"
proof -
  have n: "0 < length (bf_bits b) * 8" "length (bf_bits b) * 8 < 2 ^ 64"
    using assms by (auto simp: bloom_ok_def)
  then have "unat (of_nat (length (bf_bits b) * 8) :: u64) \<noteq> 0"
    by (simp only: unat_of_nat_fits64)
  then have "(of_nat (length (bf_bits b) * 8) :: u64) \<noteq> 0"
    by (metis unat_0)
  then show "bloom_positions b key = Ok (probe_list b key)"
    by (simp add: bloom_positions_def probe_list_def Let_def)
  show "\<forall>p \<in> set (probe_list b key). p div 8 < length (bf_bits b)"
    using bloom_position_bound [OF n] by (auto simp: probe_list_def less_mult_imp_div_less)
qed

lemma bloom_add_ok:
  assumes "bloom_ok b"
  shows "bloom_add key b = Ok (b\<lparr>bf_bits := fold set_bit_at (probe_list b key) (bf_bits b)\<rparr>)"
  using bloom_positions_ok [OF assms, of key] by (auto simp: bloom_add_def not_le)

lemma maybe_contains_ok:
  assumes "bloom_ok b"
  shows "maybe_contains b key = Ok (\<forall>p \<in> set (probe_list b key). test_bit_at (bf_bits b) p)"
  using bloom_positions_ok [OF assms, of key] by (auto simp: maybe_contains_def not_le)

lemma fold_set_bit_at_Nil [simp]: "fold set_bit_at ps bs = [] \<longleftrightarrow> bs = []"
  by (metis length_0_conv length_fold_set_bit_at)

lemma bloom_add_step:
  assumes "bloom_ok b"
  obtains b' where "bloom_add key b = Ok b'" and "bloom_ok b'"
    and "length (bf_bits b') = length (bf_bits b)" and "bf_k b' = bf_k b"
    and "\<And>q. test_bit_at (bf_bits b) q \<Longrightarrow> test_bit_at (bf_bits b') q"
    and "\<And>q. q \<in> set (probe_list b key) \<Longrightarrow> test_bit_at (bf_bits b') q"
  using assms bloom_positions_ok(2) [OF assms, of key]
  by (intro that [OF bloom_add_ok [OF assms]])
    (auto simp: bloom_ok_def intro: test_fold_mono test_fold_set)

lemma probe_list_cong:
  "length (bf_bits b') = length (bf_bits b) \<Longrightarrow> bf_k b' = bf_k b \<Longrightarrow>
     probe_list b' key = probe_list b key"
  by (simp add: probe_list_def)

lemma bloom_add_all_ok:
  assumes "bloom_ok b"
  shows "\<exists>b'. bloom_add_all keys b = Ok b' \<and> bloom_ok b'
    \<and> length (bf_bits b') = length (bf_bits b) \<and> bf_k b' = bf_k b
    \<and> (\<forall>q. test_bit_at (bf_bits b) q \<longrightarrow> test_bit_at (bf_bits b') q)
    \<and> (\<forall>key \<in> set keys. \<forall>q \<in> set (probe_list b key). test_bit_at (bf_bits b') q)"
  using assms
proof (induction keys arbitrary: b)
  case Nil
  then show ?case by simp
next
  case (Cons k ks)
  obtain b1 where b1: "bloom_add k b = Ok b1" "bloom_ok b1"
      "length (bf_bits b1) = length (bf_bits b)" "bf_k b1 = bf_k b"
      "\<And>q. test_bit_at (bf_bits b) q \<Longrightarrow> test_bit_at (bf_bits b1) q"
      "\<And>q. q \<in> set (probe_list b k) \<Longrightarrow> test_bit_at (bf_bits b1) q"
    using bloom_add_step [OF Cons.prems, of k] by metis
  from Cons.IH [OF b1(2)] obtain b2 where b2: "bloom_add_all ks b1 = Ok b2" "bloom_ok b2"
      "length (bf_bits b2) = length (bf_bits b1)" "bf_k b2 = bf_k b1"
      "\<forall>q. test_bit_at (bf_bits b1) q \<longrightarrow> test_bit_at (bf_bits b2) q"
      "\<forall>key \<in> set ks. \<forall>q \<in> set (probe_list b1 key). test_bit_at (bf_bits b2) q"
    by blast
  show ?case
    using b1 b2 probe_list_cong [OF b1(3,4)] by (intro exI [of _ b2]) auto
qed

lemma bloom_new_ok: "n * 10 < 2 ^ 63 \<Longrightarrow> bloom_ok (bloom_new n)"
  by (auto simp: bloom_ok_def bloom_new_def Let_def)

lemma bloom_new_bits: "length (bf_bits (bloom_new n)) = (max (n * 10) 64 + 7) div 8"
  and bloom_new_k: "bf_k (bloom_new n) = 7"
  by (simp_all add: bloom_new_def Let_def)

text \<open>Every key that was added is reported.\<close>

lemma bloom_no_false_negative:
  assumes "length keys * 10 < 2 ^ 63"
  shows "\<exists>b. bloom_add_all keys (bloom_new (length keys)) = Ok b \<and> bloom_ok b
    \<and> bf_k b = 7 \<and> length (bf_bits b) = (max (length keys * 10) 64 + 7) div 8
    \<and> (\<forall>key \<in> set keys. maybe_contains b key = Ok True)"
proof -
  obtain b where b: "bloom_add_all keys (bloom_new (length keys)) = Ok b" "bloom_ok b"
      "length (bf_bits b) = length (bf_bits (bloom_new (length keys)))"
      "bf_k b = bf_k (bloom_new (length keys))"
      "\<forall>key \<in> set keys. \<forall>q \<in> set (probe_list (bloom_new (length keys)) key). test_bit_at (bf_bits b) q"
    using bloom_add_all_ok [OF bloom_new_ok [OF assms], of keys] by blast
  show ?thesis
    using b probe_list_cong [OF b(3,4)]
    by (intro exI [of _ b]) (auto simp: maybe_contains_ok bloom_new_bits bloom_new_k)
qed

end
