(* ===== verification/Ferrum_Cache.thy ===== *)
theory Ferrum_Cache
  imports Ferrum_Prelude
begin

text \<open>
  The block cache of \<open>ferrumdb-core/src/sstable.rs\<close> (lines 89 to 129): a hash map of blocks
  and a queue of offsets in order of use. The specification is a single list of offset and
  block pairs, least recently used first; every operation of the cache refines the
  operation of the same name on that list.
\<close>

record block_cache =
  bc_blocks :: "(u64 \<times> bytes) list"
  bc_lru :: "u64 list"
  bc_cap :: nat

definition cache_new :: "nat \<Rightarrow> block_cache" where
  "cache_new cap = \<lparr>bc_blocks = [], bc_lru = [], bc_cap = cap\<rparr>"

definition cache_touch :: "u64 \<Rightarrow> block_cache \<Rightarrow> block_cache" where
  "cache_touch off c = c\<lparr>bc_lru := remove1 off (bc_lru c) @ [off]\<rparr>"

definition cache_get :: "u64 \<Rightarrow> block_cache \<Rightarrow> bytes option \<times> block_cache" where
  "cache_get off c =
     (case map_of (bc_blocks c) off of
        None \<Rightarrow> (None, c)
      | Some bs \<Rightarrow> (Some bs, cache_touch off c))"

definition cache_evict :: "u64 \<Rightarrow> block_cache \<Rightarrow> block_cache" where
  "cache_evict off c =
     (if map_of (bc_blocks c) off = None \<and> bc_cap c \<le> length (bc_blocks c)
      then (case bc_lru c of
              [] \<Rightarrow> c
            | ev # rest \<Rightarrow> c\<lparr>bc_blocks := AList.delete ev (bc_blocks c), bc_lru := rest\<rparr>)
      else c)"

definition cache_put :: "u64 \<Rightarrow> bytes \<Rightarrow> block_cache \<Rightarrow> block_cache" where
  "cache_put off bs c =
     (if bc_cap c = 0 then c
      else let c' = cache_evict off c
           in cache_touch off (c'\<lparr>bc_blocks := AList.update off bs (bc_blocks c')\<rparr>))"

section \<open>Invariant\<close>

definition cache_inv :: "block_cache \<Rightarrow> bool" where
  "cache_inv c \<longleftrightarrow>
     hm_wf (bc_blocks c) \<and> distinct (bc_lru c)
     \<and> set (bc_lru c) = fst ` set (bc_blocks c) \<and> length (bc_lru c) \<le> bc_cap c"

lemma cache_inv_new [simp]: "cache_inv (cache_new cap)"
  by (simp add: cache_inv_def cache_new_def hm_wf_def)

lemma cache_inv_lengths: "cache_inv c \<Longrightarrow> length (bc_lru c) = length (bc_blocks c)"
  unfolding cache_inv_def hm_wf_def
  by (metis distinct_card length_map list.set_map)

lemma cache_inv_get: "cache_inv c \<Longrightarrow> cache_inv (snd (cache_get off c))"
proof (cases "map_of (bc_blocks c) off")
  case (Some bs)
  assume inv: "cache_inv c"
  with Some have "off \<in> set (bc_lru c)"
    by (auto simp: cache_inv_def dest: map_of_SomeD intro: rev_image_eqI)
  then have "insert off (set (bc_lru c) - {off}) = set (bc_lru c)"
    and "Suc (length (remove1 off (bc_lru c))) = length (bc_lru c)"
    using length_pos_if_in_set by (fastforce simp: length_remove1)+
  with inv Some show ?thesis
    by (simp add: cache_inv_def cache_get_def cache_touch_def)
qed (simp add: cache_get_def)

section \<open>Specification\<close>

definition lru_get :: "u64 \<Rightarrow> (u64 \<times> bytes) list \<Rightarrow> bytes option \<times> (u64 \<times> bytes) list" where
  "lru_get off xs =
     (case map_of xs off of
        None \<Rightarrow> (None, xs)
      | Some bs \<Rightarrow> (Some bs, filter (\<lambda>x. fst x \<noteq> off) xs @ [(off, bs)]))"

definition lru_put :: "nat \<Rightarrow> u64 \<Rightarrow> bytes \<Rightarrow> (u64 \<times> bytes) list \<Rightarrow> (u64 \<times> bytes) list" where
  "lru_put cap off bs xs =
     (if cap = 0 then xs
      else let ys = filter (\<lambda>x. fst x \<noteq> off) xs
           in (if cap \<le> length ys then tl ys else ys) @ [(off, bs)])"

definition cache_abs :: "block_cache \<Rightarrow> (u64 \<times> bytes) list" where
  "cache_abs c = map (\<lambda>off. (off, the (map_of (bc_blocks c) off))) (bc_lru c)"

lemma cache_abs_keys: "map fst (cache_abs c) = bc_lru c"
  by (simp add: cache_abs_def comp_def)

lemma map_of_cache_abs:
  assumes "cache_inv c"
  shows "map_of (cache_abs c) = map_of (bc_blocks c)"
proof
  fix off
  show "map_of (cache_abs c) off = map_of (bc_blocks c) off"
  proof (cases "off \<in> set (bc_lru c)")
    case True
    then have "map_of (bc_blocks c) off \<noteq> None"
      using assms by (auto simp: cache_inv_def map_of_eq_None_iff)
    with True show ?thesis
      by (auto simp: cache_abs_def map_of_map_restrict restrict_map_def)
  next
    case False
    then have "map_of (bc_blocks c) off = None"
      using assms by (auto simp: cache_inv_def map_of_eq_None_iff)
    with False show ?thesis
      by (auto simp: cache_abs_def map_of_map_restrict restrict_map_def)
  qed
qed

lemma remove1_filter: "distinct xs \<Longrightarrow> remove1 x xs = filter (\<lambda>y. y \<noteq> x) xs"
  by (induction xs) (auto intro: filter_True [symmetric])

lemma abs_store:
  assumes "distinct (bc_lru c)"
  shows "cache_abs (cache_touch off (c\<lparr>bc_blocks := AList.update off bs (bc_blocks c)\<rparr>))
    = filter (\<lambda>x. fst x \<noteq> off) (cache_abs c) @ [(off, bs)]"
  using assms
  by (simp add: cache_abs_def cache_touch_def remove1_filter filter_map comp_def update_conv)

lemma abs_touch:
  assumes "distinct (bc_lru c)" and "map_of (bc_blocks c) off = Some bs"
  shows "cache_abs (cache_touch off c) = filter (\<lambda>x. fst x \<noteq> off) (cache_abs c) @ [(off, bs)]"
  using assms by (simp add: cache_abs_def cache_touch_def remove1_filter filter_map comp_def)

lemma cache_get_refines:
  assumes "cache_inv c"
  shows "map_prod id cache_abs (cache_get off c) = lru_get off (cache_abs c)"
  using assms abs_touch [of c off] map_of_cache_abs [OF assms]
  by (simp add: cache_get_def lru_get_def cache_inv_def split: option.splits)

lemma evict_cases:
  assumes "cache_inv c" and "bc_cap c \<noteq> 0"
  obtains (keep) "cache_evict off c = c"
      "off \<in> set (bc_lru c) \<or> length (bc_lru c) < bc_cap c"
  | (evict) ev rest where "bc_lru c = ev # rest" "off \<notin> set (bc_lru c)"
      "bc_cap c \<le> length (bc_lru c)"
      "cache_evict off c = c\<lparr>bc_blocks := AList.delete ev (bc_blocks c), bc_lru := rest\<rparr>"
proof (cases "map_of (bc_blocks c) off = None \<and> bc_cap c \<le> length (bc_blocks c)")
  case True
  moreover from this assms have "bc_lru c \<noteq> []"
    using cache_inv_lengths [OF assms(1)] by auto
  ultimately show ?thesis
    using assms(1) evict cache_inv_lengths [OF assms(1)]
    by (cases "bc_lru c") (auto simp: cache_evict_def cache_inv_def map_of_eq_None_iff)
next
  case False
  then have "cache_evict off c = c"
    unfolding cache_evict_def by (rule if_not_P)
  moreover have "off \<in> set (bc_lru c) \<or> length (bc_lru c) < bc_cap c"
    using False assms(1) cache_inv_lengths [OF assms(1)]
    by (auto simp: cache_inv_def map_of_eq_None_iff)
  ultimately show ?thesis by (rule keep)
qed

lemma cache_inv_evict:
  assumes "cache_inv c" and "bc_cap c \<noteq> 0"
  shows "cache_inv (cache_evict off c)" and "bc_cap (cache_evict off c) = bc_cap c"
    and "off \<in> set (bc_lru (cache_evict off c)) \<or> length (bc_lru (cache_evict off c)) < bc_cap c"
  using assms
  by (cases rule: evict_cases [OF assms, of off];
      auto simp: cache_inv_def hm_wf_def distinct_delete)+

lemma cache_inv_put: "cache_inv c \<Longrightarrow> cache_inv (cache_put off bs c)"
proof (cases "bc_cap c = 0")
  case False
  assume "cache_inv c"
  note ev = cache_inv_evict [OF this False, of off]
  define d where "d = cache_evict off c"
  have "length (filter (\<lambda>y. y \<noteq> off) (bc_lru d)) < bc_cap d"
  proof (cases "off \<in> set (bc_lru d)")
    case True
    then have "length (filter (\<lambda>y. y \<noteq> off) (bc_lru d)) < length (bc_lru d)"
      by (auto intro: length_filter_less)
    with ev(1) show ?thesis by (simp add: cache_inv_def d_def)
  next
    case F: False
    then show ?thesis using ev by (simp add: d_def le_less_trans [OF length_filter_le])
  qed
  then show ?thesis
    using ev(1) False
    by (auto simp: cache_put_def Let_def d_def [symmetric] cache_inv_def cache_touch_def
        remove1_filter hm_wf_def distinct_update)
qed (simp add: cache_put_def)

lemma cache_put_refines:
  assumes "cache_inv c"
  shows "cache_abs (cache_put off bs c) = lru_put (bc_cap c) off bs (cache_abs c)"
proof (cases "bc_cap c = 0")
  case False
  define d where "d = cache_evict off c"
  have "distinct (bc_lru d)"
    using cache_inv_evict(1) [OF assms False] by (simp add: d_def cache_inv_def)
  then have "cache_abs (cache_put off bs c) = filter (\<lambda>x. fst x \<noteq> off) (cache_abs d) @ [(off, bs)]"
    using False by (simp add: cache_put_def Let_def d_def abs_store)
  moreover have "filter (\<lambda>x. fst x \<noteq> off) (cache_abs d)
      = (let ys = filter (\<lambda>x. fst x \<noteq> off) (cache_abs c) in if bc_cap c \<le> length ys then tl ys else ys)"
    (is "_ = ?evicted")
  proof (rule evict_cases [OF assms False, of off])
    assume keep: "cache_evict off c = c" "off \<in> set (bc_lru c) \<or> length (bc_lru c) < bc_cap c"
    have "length (filter (\<lambda>x. x \<noteq> off) (bc_lru c)) < bc_cap c"
      using keep(2) assms by (auto simp: cache_inv_def intro: order.strict_trans2 length_filter_less
          le_less_trans [OF length_filter_le])
    with keep(1) show "filter (\<lambda>x. fst x \<noteq> off) (cache_abs d) = ?evicted"
      by (simp add: d_def cache_abs_def filter_map comp_def)
  next
    fix ev rest
    assume evict: "bc_lru c = ev # rest" "off \<notin> set (bc_lru c)" "bc_cap c \<le> length (bc_lru c)"
      "cache_evict off c = c\<lparr>bc_blocks := AList.delete ev (bc_blocks c), bc_lru := rest\<rparr>"
    then have "ev \<notin> set rest" "off \<notin> set rest" "ev \<noteq> off"
      using assms by (auto simp: cache_inv_def)
    moreover from this have "filter (\<lambda>x. x \<noteq> off) rest = rest"
      by (auto intro: filter_True)
    ultimately show "filter (\<lambda>x. fst x \<noteq> off) (cache_abs d) = ?evicted"
      using evict by (auto simp: d_def cache_abs_def filter_map comp_def delete_conv Let_def
          intro!: map_cong)
  qed
  ultimately show ?thesis using False by (simp add: lru_put_def Let_def)
qed (simp add: cache_put_def lru_put_def)

section \<open>What the cache may hold\<close>

lemma cache_get_blocks: "bc_blocks (snd (cache_get off c)) = bc_blocks c"
  by (simp add: cache_get_def cache_touch_def split: option.splits)

lemma cache_get_result: "fst (cache_get off c) = map_of (bc_blocks c) off"
  by (simp add: cache_get_def split: option.splits)

lemma cache_put_blocks:
  assumes "map_of (bc_blocks (cache_put off bs c)) p = Some b"
  shows "p = off \<and> b = bs \<or> map_of (bc_blocks c) p = Some b"
  using assms
  by (auto simp: cache_put_def cache_evict_def cache_touch_def Let_def update_conv delete_conv
      split: if_splits list.splits)

lemma cache_put_get:
  assumes "bc_cap c \<noteq> 0"
  shows "fst (cache_get off (cache_put off bs c)) = Some bs"
  using assms by (simp add: cache_get_result cache_put_def cache_touch_def Let_def update_conv)

lemma cache_cap [simp]:
  "bc_cap (cache_put off bs c) = bc_cap c" "bc_cap (snd (cache_get off c)) = bc_cap c"
  by (auto simp: cache_put_def cache_evict_def cache_touch_def cache_get_def Let_def
      split: list.splits option.splits)

end
