(* ===== verification/Ferrum_Search.thy ===== *)
theory Ferrum_Search
  imports Ferrum_Prelude
begin

text \<open>
  \<open>slice::binary_search_by\<close> of the Rust standard library, as \<open>SsTable::get\<close> uses it on the
  sparse index (\<open>sstable.rs\<close>, lines 382 to 388), and the position it yields on a strictly
  ascending sequence: the last element that is not above the target.
\<close>

datatype ordering = Less | Equal | Greater

definition cmp :: "'a::linorder \<Rightarrow> 'a \<Rightarrow> ordering" where
  "cmp a b = (if a < b then Less else if a = b then Equal else Greater)"

datatype found = Found nat | Missing nat

function bsearch_loop :: "(nat \<Rightarrow> ordering) \<Rightarrow> nat \<Rightarrow> nat \<Rightarrow> nat" where
  "bsearch_loop f sz base =
     (if 1 < sz
      then let half = sz div 2; mid = base + half
           in bsearch_loop f (sz - half) (if f mid = Greater then base else mid)
      else base)"
  by pat_completeness auto
termination
  by (relation "measure (\<lambda>(f, sz, base). sz)") auto

declare bsearch_loop.simps [simp del]

definition binary_search_by :: "(nat \<Rightarrow> ordering) \<Rightarrow> nat \<Rightarrow> found" where
  "binary_search_by f len =
     (if len = 0 then Missing 0
      else let base = bsearch_loop f len 0
           in case f base of
                Equal \<Rightarrow> Found base
              | Less \<Rightarrow> Missing (base + 1)
              | Greater \<Rightarrow> Missing base)"

definition block_position :: "found \<Rightarrow> nat option" where
  "block_position r =
     (case r of Found i \<Rightarrow> Some i | Missing i \<Rightarrow> if i = 0 then None else Some (i - 1))"

lemma bsearch_loop_cong:
  assumes "base + sz \<le> n" and "\<And>i. i < n \<Longrightarrow> f i = g i" and "0 < sz"
  shows "bsearch_loop f sz base = bsearch_loop g sz base \<and> bsearch_loop f sz base < n"
  using assms(1,3)
proof (induction sz arbitrary: base rule: less_induct)
  case (less sz)
  show ?case
  proof (cases "1 < sz")
    case True
    define base' where "base' = (if f (base + sz div 2) = Greater then base else base + sz div 2)"
    have "f (base + sz div 2) = g (base + sz div 2)"
      using less.prems True by (intro assms(2)) auto
    then have f: "bsearch_loop f sz base = bsearch_loop f (sz - sz div 2) base'"
      and g: "bsearch_loop g sz base = bsearch_loop g (sz - sz div 2) base'"
      using True
      by (subst bsearch_loop.simps, simp add: Let_def base'_def,
          subst bsearch_loop.simps, simp add: Let_def base'_def)
    have "sz - sz div 2 < sz" "base' + (sz - sz div 2) \<le> n" "0 < sz - sz div 2"
      using less.prems True by (auto simp: base'_def)
    from less.IH [OF this] show ?thesis unfolding f g .
  next
    case False
    with less.prems show ?thesis
      by (subst bsearch_loop.simps, subst (2) bsearch_loop.simps, subst (3) bsearch_loop.simps) simp
  qed
qed

lemma binary_search_cong:
  assumes "\<And>i. i < n \<Longrightarrow> f i = g i"
  shows "binary_search_by f n = binary_search_by g n"
  using bsearch_loop_cong [of 0 n n f g] assms by (auto simp: binary_search_by_def Let_def)

text \<open>
  The loop keeps the target between the element at \<open>base\<close> and the elements from
  \<open>base + sz\<close> on.
\<close>

definition brackets :: "'a::linorder list \<Rightarrow> 'a \<Rightarrow> nat \<Rightarrow> nat \<Rightarrow> bool" where
  "brackets ks key sz base \<longleftrightarrow>
     0 < sz \<and> base + sz \<le> length ks \<and> (base = 0 \<or> ks ! base \<le> key)
     \<and> (\<forall>j. base + sz \<le> j \<and> j < length ks \<longrightarrow> key < ks ! j)"

lemma brackets_step:
  assumes "sorted_wrt (<) ks" and "brackets ks key sz base" and "1 < sz"
  shows "brackets ks key (sz - sz div 2)
    (if cmp (ks ! (base + sz div 2)) key = Greater then base else base + sz div 2)"
proof -
  define mid where "mid = base + sz div 2"
  have mid: "mid < length ks" "0 < sz div 2" "sz div 2 < sz"
    using assms(2,3) by (auto simp: mid_def brackets_def)
  show ?thesis
  proof (cases "key < ks ! mid")
    case True
    have "key < ks ! j" if "mid \<le> j" "j < length ks" for j
      using True that sorted_wrt_nth_less [OF assms(1), of mid j]
      by (cases "j = mid") (auto dest: less_trans)
    moreover have "mid \<le> base + (sz - sz div 2)" by (simp add: mid_def)
    moreover have "cmp (ks ! mid) key = Greater" using True by (auto simp: cmp_def)
    moreover have "base + (sz - sz div 2) \<le> base + sz" by simp
    ultimately show ?thesis
      using assms(2) mid unfolding mid_def [symmetric] brackets_def
      by (auto intro: order_trans)
  next
    case False
    then have "cmp (ks ! mid) key \<noteq> Greater" "ks ! mid \<le> key" by (auto simp: cmp_def)
    moreover have "mid + (sz - sz div 2) = base + sz" by (simp add: mid_def)
    ultimately show ?thesis
      using assms(2) mid unfolding mid_def [symmetric] by (simp add: brackets_def)
  qed
qed

lemma bsearch_loop_brackets:
  assumes "sorted_wrt (<) ks" and "brackets ks key sz base"
  shows "brackets ks key 1 (bsearch_loop (\<lambda>i. cmp (ks ! i) key) sz base)"
  using assms(2)
proof (induction sz arbitrary: base rule: less_induct)
  case (less sz)
  show ?case
  proof (cases "1 < sz")
    case True
    then have "sz - sz div 2 < sz" by simp
    from less.IH [OF this brackets_step [OF assms(1) less.prems True]] True show ?thesis
      by (subst bsearch_loop.simps) (simp add: Let_def)
  next
    case False
    with less.prems have "sz = 1" by (simp add: brackets_def)
    with less.prems show ?thesis by (subst bsearch_loop.simps) simp
  qed
qed

lemma binary_search_position:
  assumes "sorted_wrt (<) ks"
  shows "case block_position (binary_search_by (\<lambda>i. cmp (ks ! i) key) (length ks)) of
      None \<Rightarrow> \<forall>k \<in> set ks. key < k
    | Some p \<Rightarrow> p < length ks \<and> ks ! p \<le> key \<and> (\<forall>j. p < j \<and> j < length ks \<longrightarrow> key < ks ! j)"
proof (cases "ks = []")
  case True
  then show ?thesis by (simp add: binary_search_by_def block_position_def)
next
  case False
  define b where "b = bsearch_loop (\<lambda>i. cmp (ks ! i) key) (length ks) 0"
  have br: "brackets ks key 1 b"
    unfolding b_def using False
    by (intro bsearch_loop_brackets assms) (auto simp: brackets_def)
  have pos: "block_position (binary_search_by (\<lambda>i. cmp (ks ! i) key) (length ks))
      = (if ks ! b \<le> key then Some b else if b = 0 then None else Some (b - 1))"
  proof -
    have "cmp (ks ! b) key = (if ks ! b = key then Equal else if ks ! b < key then Less else Greater)"
      by (auto simp: cmp_def)
    then show ?thesis
      using False unfolding binary_search_by_def Let_def b_def [symmetric]
      by (auto simp: block_position_def)
  qed
  have none: "\<forall>k \<in> set ks. key < k" if "b = 0" "\<not> ks ! b \<le> key"
  proof
    fix k assume "k \<in> set ks"
    then obtain j where "j < length ks" "k = ks ! j" by (auto simp: in_set_conv_nth)
    then show "key < k"
      using br that by (cases "j = 0") (auto simp: brackets_def not_le)
  qed
  show ?thesis
    using br none by (auto simp: pos brackets_def split: if_splits)
qed

end
