(* ===== verification/Ferrum_Sstable.thy ===== *)
theory Ferrum_Sstable
  imports Ferrum_Block Ferrum_Bloom Ferrum_Cache Ferrum_Search
begin

text \<open>
  \<open>SsTable\<close> of \<open>ferrumdb-core/src/sstable.rs\<close> (lines 31 to 87 and 180 to 461): the writer
  \<open>flush\<close>, the reader \<open>open\<close>, the point lookup \<open>get\<close> with its skips, cache and block read,
  and the bulk read used by compaction and scans. This theory holds the definitions; the
  theory \<open>Ferrum_Table\<close> proves them correct.
\<close>

section \<open>State and constants\<close>

definition BLOCK_SIZE :: nat where "BLOCK_SIZE = 4096"
definition MAGIC :: bytes where "MAGIC = [0x46, 0x53, 0x53, 0x54]"
definition VERSION :: u32 where "VERSION = 3"
definition FOOTER_LEN :: nat where "FOOTER_LEN = 28"
definition BLOCK_CACHE_CAP :: nat where "BLOCK_CACHE_CAP = 32"

record sstable =
  sst_path :: path
  sst_index :: "index_entry list"
  sst_min_key :: "bytes option"
  sst_max_key :: "bytes option"
  sst_bloom :: "bloom_filter option"
  sst_cache :: block_cache

section \<open>Writing a table\<close>

text \<open>The local variables of \<open>flush\<close>.\<close>

record flush_state =
  fl_file :: bytes
  fl_index :: "index_entry list"
  fl_block :: bytes
  fl_first :: "bytes option"
  fl_offset :: u64
  fl_min :: "bytes option"
  fl_max :: "bytes option"
  fl_keys :: "bytes list"

definition flush_init :: flush_state where
  "flush_init =
     \<lparr>fl_file = [], fl_index = [], fl_block = [], fl_first = None, fl_offset = 0,
      fl_min = None, fl_max = None, fl_keys = []\<rparr>"

definition flush_finalize :: "flush_state \<Rightarrow> flush_state" where
  "flush_finalize s =
     (case finalize_block (fl_file s) (fl_block s) (fl_index s) (fl_first s) (fl_offset s) of
        (file, block, index) \<Rightarrow>
          s\<lparr>fl_file := file, fl_block := block, fl_index := index, fl_first := None\<rparr>)"

definition flush_step :: "prost \<Rightarrow> flush_state \<Rightarrow> bytes \<times> entry \<Rightarrow> flush_state" where
  "flush_step P s = (\<lambda>(key, e).
     let s = (if fl_min s = None then s\<lparr>fl_min := Some key\<rparr> else s);
         s = s\<lparr>fl_max := Some key, fl_keys := fl_keys s @ [key]\<rparr>;
         s = (if fl_block s = []
              then s\<lparr>fl_first := Some key, fl_offset := of_nat (length (fl_file s))\<rparr> else s);
         s = s\<lparr>fl_block := encode_record P (fl_block s) key e\<rparr>
     in if BLOCK_SIZE \<le> length (fl_block s) then flush_finalize s else s)"

definition flush_blocks :: "prost \<Rightarrow> (bytes \<times> entry) list \<Rightarrow> flush_state" where
  "flush_blocks P entries =
     (let s = foldl (flush_step P) flush_init entries
      in if fl_block s \<noteq> [] then flush_finalize s else s)"

definition write_index_entry :: "bytes \<Rightarrow> index_entry \<Rightarrow> bytes" where
  "write_index_entry file e =
     write_u32 (write_u32 file (of_nat (length (ie_first_key e))) @ ie_first_key e
                 @ to_be_bytes64 (ie_block_offset e)) (ie_block_len e)"

definition write_key_range :: "bytes \<Rightarrow> bytes option \<Rightarrow> bytes option \<Rightarrow> bytes" where
  "write_key_range file mn mx =
     (case (mn, mx) of
        (Some a, Some b) \<Rightarrow>
          write_u32 (write_u32 file (of_nat (length a)) @ a) (of_nat (length b)) @ b
      | _ \<Rightarrow> file)"

definition build_bloom :: "bytes list \<Rightarrow> bloom_filter option outcome" where
  "build_bloom keys =
     (if keys = [] then Ok None
      else bindO (bloom_add_all keys (bloom_new (length keys))) (\<lambda>b. Ok (Some b)))"

definition write_bloom :: "bytes \<Rightarrow> bloom_filter option \<Rightarrow> bytes" where
  "write_bloom file bloom =
     (case bloom of
        None \<Rightarrow> file
      | Some b \<Rightarrow>
          write_u32 (write_u32 file (bf_k b)) (of_nat (length (bf_bits b))) @ bf_bits b)"

definition write_footer :: "bytes \<Rightarrow> u64 \<Rightarrow> u64 \<Rightarrow> u32 \<Rightarrow> bytes" where
  "write_footer file index_offset index_len entry_count =
     write_u32 (file @ to_be_bytes64 index_offset @ to_be_bytes64 index_len) entry_count
       @ MAGIC @ to_be_bytes32 VERSION"

text \<open>
  The bytes of the file and the table handed back, as \<open>flush\<close> builds them in memory before
  it touches the disk.
\<close>

definition flush_build :: "prost \<Rightarrow> path \<Rightarrow> (bytes \<times> entry) list \<Rightarrow> (bytes \<times> sstable) outcome" where
  "flush_build P path entries =
     (let s = flush_blocks P entries;
          index_offset = of_nat (length (fl_file s)) :: u64;
          file = foldl write_index_entry (fl_file s) (fl_index s);
          file = write_key_range file (fl_min s) (fl_max s)
      in bindO (build_bloom (fl_keys s)) (\<lambda>bloom.
         let file = write_bloom file bloom;
             index_len = of_nat (length file) - index_offset;
             file = write_footer file index_offset index_len (of_nat (length (fl_index s)))
         in Ok (file,
                \<lparr>sst_path = path, sst_index = fl_index s, sst_min_key = fl_min s,
                 sst_max_key = fl_max s, sst_bloom = bloom,
                 sst_cache = cache_new BLOCK_CACHE_CAP\<rparr>)))"

definition sst_flush :: "prost \<Rightarrow> path \<Rightarrow> (bytes \<times> entry) list \<Rightarrow> (world, sstable) act" where
  "sst_flush P path entries =
     bindA (case path_parent path of None \<Rightarrow> returnA () | Some d \<Rightarrow> fs_create_dir_all d) (\<lambda>_.
     bindA (liftO (flush_build P path entries)) (\<lambda>(file, sst).
     bindA (fs_open True True path) (\<lambda>_.
     bindA (fs_write_all path file) (\<lambda>_.
     bindA (fs_sync_all path) (\<lambda>_.
     returnA sst)))))"

section \<open>Opening a table\<close>

fun read_index :: "bytes \<Rightarrow> nat \<Rightarrow> nat \<Rightarrow> (index_entry list \<times> nat) outcome" where
  "read_index buf c 0 = Ok ([], c)"
| "read_index buf c (Suc n) =
     bindO (read_u32 buf c) (\<lambda>(key_len, c).
     bindO (read_bytes buf c (unat key_len)) (\<lambda>(first_key, c).
     bindO (read_u64 buf c) (\<lambda>(block_offset, c).
     bindO (read_u32 buf c) (\<lambda>(block_len, c).
     bindO (read_index buf c n) (\<lambda>(es, c).
       Ok (\<lparr>ie_first_key = first_key, ie_block_offset = block_offset,
            ie_block_len = block_len\<rparr> # es, c))))))"

definition read_range_bloom ::
    "bytes \<Rightarrow> nat \<Rightarrow> (bytes option \<times> bytes option \<times> bloom_filter option) outcome" where
  "read_range_bloom buf c =
     (if c < length buf
      then bindO (read_u32 buf c) (\<lambda>(min_len, c).
           bindO (read_bytes buf c (unat min_len)) (\<lambda>(mn, c).
           bindO (read_u32 buf c) (\<lambda>(max_len, c).
           bindO (read_bytes buf c (unat max_len)) (\<lambda>(mx, c).
           bindO (read_u32 buf c) (\<lambda>(k, c).
           bindO (read_u32 buf c) (\<lambda>(bits_len, c).
           bindO (read_bytes buf c (unat bits_len)) (\<lambda>(bits, c).
             Ok (Some mn, Some mx, Some \<lparr>bf_bits = bits, bf_k = k\<rparr>))))))))
      else Ok (None, None, None))"

definition parse_index_region ::
    "bytes \<Rightarrow> nat \<Rightarrow> (index_entry list \<times> bytes option \<times> bytes option \<times> bloom_filter option) outcome" where
  "parse_index_region buf entry_count =
     bindO (read_index buf 0 entry_count) (\<lambda>(index, c).
     bindO (read_range_bloom buf c) (\<lambda>(mn, mx, bloom).
       Ok (index, mn, mx, bloom)))"

text \<open>
  \<open>SsTable::open\<close>. The buffer of \<open>index_len\<close> bytes is allocated before it is read: a length
  beyond \<open>isize::MAX\<close> is a capacity overflow, a panic.
\<close>

definition sst_open :: "path \<Rightarrow> (world, sstable) act" where
  "sst_open path =
     bindA (fs_open False False path) (\<lambda>_.
     bindA (fs_metadata_len path) (\<lambda>file_len.
       if file_len < FOOTER_LEN then failA (DecodeError ''SSTable smaller than footer'')
       else
     bindA (fs_seek path (file_len - FOOTER_LEN)) (\<lambda>_.
     bindA (fs_read_exact path (file_len - FOOTER_LEN) FOOTER_LEN) (\<lambda>footer.
       let index_offset = from_be_bytes (take 8 footer) :: u64;
           index_len = from_be_bytes (take 8 (drop 8 footer)) :: u64;
           entry_count = unat (from_be_bytes (take 4 (drop 16 footer)) :: u32);
           magic = take 4 (drop 20 footer);
           version = from_be_bytes (take 4 (drop 24 footer)) :: u32
       in if magic \<noteq> MAGIC
          then failA (DecodeError ''not a FerrumDB SSTable (bad magic)'')
          else if version \<noteq> VERSION
          then failA (DecodeError (''unsupported SSTable version '' @ show_nat (unat version)))
          else
     bindA (fs_seek path (unat index_offset)) (\<lambda>_.
       if 2 ^ 63 \<le> unat index_len then panicA
       else
     bindA (fs_read_exact path (unat index_offset) (unat index_len)) (\<lambda>buf.
     bindA (liftO (parse_index_region buf entry_count)) (\<lambda>(index, mn, mx, bloom).
     returnA \<lparr>sst_path = path, sst_index = index, sst_min_key = mn, sst_max_key = mx,
              sst_bloom = bloom, sst_cache = cache_new BLOCK_CACHE_CAP\<rparr>)))))))"

section \<open>Reading a table\<close>

type_synonym 'a table_act = "(sstable \<times> world, 'a) act"

definition cached_block :: "index_entry \<Rightarrow> bytes table_act" where
  "cached_block ie = (\<lambda>(t, w).
     case cache_get (ie_block_offset ie) (sst_cache t) of
       (Some bs, c) \<Rightarrow> (Ok bs, (t\<lparr>sst_cache := c\<rparr>, w))
     | (None, c) \<Rightarrow>
         bindA (onW (fs_open False False (sst_path t))) (\<lambda>_.
         bindA (onW (read_block_from_disk (sst_path t) ie)) (\<lambda>records (t, w).
           (Ok records,
            (t\<lparr>sst_cache := cache_put (ie_block_offset ie) records (sst_cache t)\<rparr>, w))))
         (t\<lparr>sst_cache := c\<rparr>, w))"

definition out_of_range :: "sstable \<Rightarrow> bytes \<Rightarrow> bool" where
  "out_of_range t key =
     (case (sst_min_key t, sst_max_key t) of
        (Some mn, Some mx) \<Rightarrow> key < mn \<or> mx < key
      | _ \<Rightarrow> False)"

definition bloom_rejects :: "sstable \<Rightarrow> bytes \<Rightarrow> bool outcome" where
  "bloom_rejects t key =
     (case sst_bloom t of
        None \<Rightarrow> Ok False
      | Some b \<Rightarrow> bindO (maybe_contains b key) (\<lambda>r. Ok (\<not> r)))"

definition find_block :: "sstable \<Rightarrow> bytes \<Rightarrow> nat option" where
  "find_block t key =
     block_position (binary_search_by (\<lambda>i. cmp (ie_first_key (sst_index t ! i)) key)
                       (length (sst_index t)))"

definition sst_get :: "prost \<Rightarrow> bytes \<Rightarrow> entry option table_act" where
  "sst_get P key = (\<lambda>(t, w).
     if sst_index t = [] then (Ok None, (t, w))
     else if out_of_range t key then (Ok None, (t, w))
     else
       bindA (liftO (bloom_rejects t key)) (\<lambda>rejected.
         if rejected then returnA None
         else case find_block t key of
                None \<Rightarrow> returnA None
              | Some pos \<Rightarrow>
                  bindA (cached_block (sst_index t ! pos)) (\<lambda>records.
                  liftO (find_in_block P records key))) (t, w))"

fun read_blocks :: "prost \<Rightarrow> path \<Rightarrow> index_entry list \<Rightarrow> (world, (bytes \<times> entry) list) act" where
  "read_blocks P p [] = returnA []"
| "read_blocks P p (ie # ies) =
     bindA (read_block_from_disk p ie) (\<lambda>records.
     bindA (liftO (decode_all P records 0)) (\<lambda>out.
     bindA (read_blocks P p ies) (\<lambda>rest.
     returnA (out @ rest))))"

definition read_all_entries :: "prost \<Rightarrow> sstable \<Rightarrow> (world, (bytes \<times> entry) list) act" where
  "read_all_entries P t =
     (if sst_index t = [] then returnA []
      else bindA (fs_open False False (sst_path t)) (\<lambda>_. read_blocks P (sst_path t) (sst_index t)))"

definition block_count :: "sstable \<Rightarrow> nat" where
  "block_count t = length (sst_index t)"

definition cached_blocks :: "sstable \<Rightarrow> nat" where
  "cached_blocks t = length (bc_blocks (sst_cache t))"

definition key_range :: "sstable \<Rightarrow> (bytes \<times> bytes) option" where
  "key_range t =
     (case (sst_min_key t, sst_max_key t) of (Some mn, Some mx) \<Rightarrow> Some (mn, mx) | _ \<Rightarrow> None)"

definition might_contain :: "sstable \<Rightarrow> bytes \<Rightarrow> bool outcome" where
  "might_contain t key =
     (case sst_bloom t of Some b \<Rightarrow> maybe_contains b key | None \<Rightarrow> Ok False)"

definition sst_file_path :: "sstable \<Rightarrow> path" where
  "sst_file_path t = sst_path t"

end
