(* ===== verification/Ferrum_Table.thy ===== *)
theory Ferrum_Table
  imports Ferrum_Sstable
begin

text \<open>
  Correctness of \<open>SsTable\<close>. A specification of the file, as the concatenation of blocks cut
  from the sorted entries, an index with one entry per block, the key range, the bloom
  filter and the footer; the writer produces exactly these bytes, the reader recovers from
  them exactly the table the writer returned, and lookups and bulk reads answer from the
  entries that were written.
\<close>

section \<open>Layout of the data region\<close>

fun chunks :: "prost \<Rightarrow> (bytes \<times> entry) list \<Rightarrow> (bytes \<times> entry) list \<Rightarrow> (bytes \<times> entry) list list" where
  "chunks P cur [] = (if cur = [] then [] else [cur])"
| "chunks P cur (e # es) =
     (if BLOCK_SIZE \<le> length (block_bytes P (cur @ [e]))
      then (cur @ [e]) # chunks P [] es
      else chunks P (cur @ [e]) es)"

definition sealed :: "bytes \<Rightarrow> bytes" where
  "sealed bs = bs @ to_be_bytes32 (crc32 bs)"

definition data_region :: "prost \<Rightarrow> (bytes \<times> entry) list list \<Rightarrow> bytes" where
  "data_region P css = concat (map (\<lambda>cs. sealed (block_bytes P cs)) css)"

definition index_entry_of :: "prost \<Rightarrow> nat \<Rightarrow> (bytes \<times> entry) list \<Rightarrow> index_entry" where
  "index_entry_of P off cs =
     \<lparr>ie_first_key = fst (hd cs), ie_block_offset = of_nat off,
      ie_block_len = of_nat (length (block_bytes P cs) + 4)\<rparr>"

fun index_of :: "prost \<Rightarrow> nat \<Rightarrow> (bytes \<times> entry) list list \<Rightarrow> index_entry list" where
  "index_of P off [] = []"
| "index_of P off (cs # css) =
     index_entry_of P off cs # index_of P (off + length (sealed (block_bytes P cs))) css"

lemma length_sealed [simp]: "length (sealed bs) = length bs + 4"
  by (simp add: sealed_def)

lemma data_region_simps [simp]:
  "data_region P [] = []"
  "data_region P (cs # css) = sealed (block_bytes P cs) @ data_region P css"
  "data_region P (css @ dss) = data_region P css @ data_region P dss"
  by (simp_all add: data_region_def)

lemma index_of_append:
  "index_of P off (css @ dss) = index_of P off css @ index_of P (off + length (data_region P css)) dss"
  by (induction css arbitrary: off) (simp_all add: add.assoc)

lemma length_index_of [simp]: "length (index_of P off css) = length css"
  by (induction css arbitrary: off) simp_all

lemma index_of_nth:
  "i < length css \<Longrightarrow>
     index_of P off css ! i = index_entry_of P (off + length (data_region P (take i css))) (css ! i)"
proof (induction css arbitrary: i off)
  case (Cons cs css)
  then show ?case by (cases i) (simp_all add: add.assoc)
qed simp

lemma concat_chunks: "concat (chunks P cur es) = cur @ es"
  by (induction es arbitrary: cur) auto

lemma chunks_nonempty: "cs \<in> set (chunks P cur es) \<Longrightarrow> cs \<noteq> []"
  by (induction es arbitrary: cur) (auto split: if_splits)

lemma chunks_eq_Nil: "chunks P cur es = [] \<longleftrightarrow> cur = [] \<and> es = []"
  by (induction es arbitrary: cur) auto

section \<open>The writer's loop\<close>

definition first_key_of :: "(bytes \<times> entry) list \<Rightarrow> bytes option" where
  "first_key_of es = (if es = [] then None else Some (fst (hd es)))"

definition last_key_of :: "(bytes \<times> entry) list \<Rightarrow> bytes option" where
  "last_key_of es = (if es = [] then None else Some (fst (last es)))"

text \<open>
  After some entries, \<open>css\<close> are the blocks already written and \<open>cur\<close> the entries of the
  block in progress; together they are the entries seen so far.
\<close>

definition flush_inv :: "prost \<Rightarrow> (bytes \<times> entry) list list \<Rightarrow> (bytes \<times> entry) list \<Rightarrow> flush_state \<Rightarrow> bool" where
  "flush_inv P css cur s \<longleftrightarrow>
     fl_file s = data_region P css \<and> fl_index s = index_of P 0 css
     \<and> fl_block s = block_bytes P cur
     \<and> (cur \<noteq> [] \<longrightarrow> fl_first s = Some (fst (hd cur))
                     \<and> fl_offset s = of_nat (length (data_region P css)))
     \<and> fl_min s = first_key_of (concat css @ cur) \<and> fl_max s = last_key_of (concat css @ cur)
     \<and> fl_keys s = map fst (concat css @ cur)"

lemma flush_finalize_inv:
  assumes "flush_inv P css cur s" and "cur \<noteq> []"
  shows "flush_inv P (css @ [cur]) [] (flush_finalize s)"
  using assms
  by (simp add: flush_inv_def flush_finalize_def finalize_block_def Let_def sealed_def
      index_of_append index_entry_of_def)

lemma flush_step_inv:
  assumes "flush_inv P css cur s"
  shows "if BLOCK_SIZE \<le> length (block_bytes P (cur @ [e]))
    then flush_inv P (css @ [cur @ [e]]) [] (flush_step P s e)
    else flush_inv P css (cur @ [e]) (flush_step P s e)"
proof -
  obtain key v where e: "e = (key, v)" by force
  define s1 where "s1 = (if fl_min s = None then s\<lparr>fl_min := Some key\<rparr> else s)"
  define s2 where "s2 = s1\<lparr>fl_max := Some key, fl_keys := fl_keys s1 @ [key]\<rparr>"
  define s3 where "s3 = (if fl_block s2 = []
      then s2\<lparr>fl_first := Some key, fl_offset := of_nat (length (fl_file s2))\<rparr> else s2)"
  define s4 where "s4 = s3\<lparr>fl_block := encode_record P (fl_block s3) key v\<rparr>"
  have step: "flush_step P s e = (if BLOCK_SIZE \<le> length (fl_block s4) then flush_finalize s4 else s4)"
    by (simp add: flush_step_def e s1_def s2_def s3_def s4_def Let_def)
  have inv: "flush_inv P css (cur @ [e]) s4"
    using assms by (auto simp: flush_inv_def s1_def s2_def s3_def s4_def e encode_record_append
        hd_append first_key_of_def last_key_of_def split: if_splits)
  then have blk: "fl_block s4 = block_bytes P (cur @ [e])"
    by (simp add: flush_inv_def)
  show ?thesis
    using flush_finalize_inv [OF inv] inv unfolding step blk by auto
qed

lemma flush_loop:
  assumes "flush_inv P css cur s"
  shows "\<exists>dss cur'. flush_inv P (css @ dss) cur' (foldl (flush_step P) s es)
    \<and> dss @ (if cur' = [] then [] else [cur']) = chunks P cur es"
  using assms
proof (induction es arbitrary: css cur s)
  case Nil
  then show ?case by (intro exI [of _ "[]"] exI [of _ cur]) simp
next
  case (Cons e es)
  show ?case
  proof (cases "BLOCK_SIZE \<le> length (block_bytes P (cur @ [e]))")
    case True
    with flush_step_inv [OF Cons.prems, of e]
    have "flush_inv P (css @ [cur @ [e]]) [] (flush_step P s e)" by simp
    from Cons.IH [OF this] obtain dss cur' where
      "flush_inv P ((css @ [cur @ [e]]) @ dss) cur' (foldl (flush_step P) (flush_step P s e) es)"
      "dss @ (if cur' = [] then [] else [cur']) = chunks P [] es"
      by blast
    with True show ?thesis
      by (intro exI [of _ "(cur @ [e]) # dss"] exI [of _ cur']) simp
  next
    case False
    with flush_step_inv [OF Cons.prems, of e]
    have "flush_inv P css (cur @ [e]) (flush_step P s e)" by simp
    from Cons.IH [OF this] False show ?thesis by simp
  qed
qed

lemma flush_blocks_inv: "flush_inv P (chunks P [] es) [] (flush_blocks P es)"
proof -
  have "flush_inv P [] [] flush_init"
    by (simp add: flush_inv_def flush_init_def first_key_of_def last_key_of_def)
  from flush_loop [OF this, of es] obtain dss cur
    where inv: "flush_inv P dss cur (foldl (flush_step P) flush_init es)"
      and dss: "dss @ (if cur = [] then [] else [cur]) = chunks P [] es"
    by auto
  show ?thesis
  proof (cases "cur = []")
    case True
    with inv dss show ?thesis by (simp add: flush_blocks_def Let_def flush_inv_def)
  next
    case False
    with inv have "flush_blocks P es = flush_finalize (foldl (flush_step P) flush_init es)"
      by (simp add: flush_blocks_def Let_def flush_inv_def)
    with flush_finalize_inv [OF inv False] dss False show ?thesis by simp
  qed
qed

lemma flush_blocks_layout:
  "fl_file (flush_blocks P es) = data_region P (chunks P [] es)"
  "fl_index (flush_blocks P es) = index_of P 0 (chunks P [] es)"
  "fl_min (flush_blocks P es) = first_key_of es"
  "fl_max (flush_blocks P es) = last_key_of es"
  "fl_keys (flush_blocks P es) = map fst es"
  using flush_blocks_inv [of P es] by (simp_all add: flush_inv_def concat_chunks)

section \<open>The whole file\<close>

definition index_entry_bytes :: "index_entry \<Rightarrow> bytes" where
  "index_entry_bytes e = write_index_entry [] e"

definition index_bytes :: "index_entry list \<Rightarrow> bytes" where
  "index_bytes es = concat (map index_entry_bytes es)"

definition key_filter :: "bytes list \<Rightarrow> bloom_filter option" where
  "key_filter keys = (case build_bloom keys of Ok b \<Rightarrow> b | _ \<Rightarrow> None)"

definition index_region :: "prost \<Rightarrow> (bytes \<times> entry) list \<Rightarrow> bytes" where
  "index_region P es =
     index_bytes (index_of P 0 (chunks P [] es))
       @ write_key_range [] (first_key_of es) (last_key_of es)
       @ write_bloom [] (key_filter (map fst es))"

definition sst_image :: "prost \<Rightarrow> (bytes \<times> entry) list \<Rightarrow> bytes" where
  "sst_image P es =
     (let d = data_region P (chunks P [] es); r = index_region P es
      in d @ r @ write_footer [] (of_nat (length d)) (of_nat (length r))
                   (of_nat (length (chunks P [] es))))"

definition table_of :: "prost \<Rightarrow> path \<Rightarrow> (bytes \<times> entry) list \<Rightarrow> sstable" where
  "table_of P p es =
     \<lparr>sst_path = p, sst_index = index_of P 0 (chunks P [] es), sst_min_key = first_key_of es,
      sst_max_key = last_key_of es, sst_bloom = key_filter (map fst es),
      sst_cache = cache_new BLOCK_CACHE_CAP\<rparr>"

text \<open>
  The format holds a table whose file is shorter than four gigabytes: every length and
  offset it stores is then below the width of its field.
\<close>

definition table_fits :: "prost \<Rightarrow> (bytes \<times> entry) list \<Rightarrow> bool" where
  "table_fits P es \<longleftrightarrow> length (sst_image P es) < 2 ^ 32"

lemma index_entry_bytes_layout:
  "index_entry_bytes e =
     to_be_bytes32 (of_nat (length (ie_first_key e))) @ ie_first_key e
       @ to_be_bytes64 (ie_block_offset e) @ to_be_bytes32 (ie_block_len e)"
  by (simp add: index_entry_bytes_def write_index_entry_def write_u32_def)

lemma write_index_entries: "foldl write_index_entry out es = out @ index_bytes es"
  by (induction es arbitrary: out)
    (simp_all add: index_bytes_def index_entry_bytes_def write_index_entry_def write_u32_def)

lemma index_bytes_simps [simp]:
  "index_bytes [] = []" "index_bytes (e # es) = index_entry_bytes e @ index_bytes es"
  by (simp_all add: index_bytes_def)

lemma write_key_range_append: "write_key_range out a b = out @ write_key_range [] a b"
  by (simp add: write_key_range_def write_u32_def split: option.splits)

lemma write_bloom_append: "write_bloom out b = out @ write_bloom [] b"
  by (simp add: write_bloom_def write_u32_def split: option.splits)

lemma write_footer_append: "write_footer out a b c = out @ write_footer [] a b c"
  by (simp add: write_footer_def write_u32_def)

lemma write_footer_layout:
  "write_footer [] a b c =
     to_be_bytes64 a @ to_be_bytes64 b @ to_be_bytes32 c @ MAGIC @ to_be_bytes32 VERSION"
  by (simp add: write_footer_def write_u32_def)

lemma length_write_footer [simp]: "length (write_footer [] a b c) = 28"
  by (simp add: write_footer_layout MAGIC_def)

lemma build_bloom_ok:
  assumes "length keys * 10 < 2 ^ 63"
  shows "build_bloom keys = Ok (key_filter keys)"
  using bloom_no_false_negative [OF assms] by (auto simp: build_bloom_def key_filter_def)

lemma key_filter_contains:
  assumes "length keys * 10 < 2 ^ 63" and "key \<in> set keys"
  obtains b where "key_filter keys = Some b" and "bloom_ok b" and "maybe_contains b key = Ok True"
proof -
  from bloom_no_false_negative [OF assms(1)] obtain b
    where b: "bloom_add_all keys (bloom_new (length keys)) = Ok b" "bloom_ok b"
      "\<forall>key \<in> set keys. maybe_contains b key = Ok True"
    by blast
  moreover from this(1) assms(2) have "key_filter keys = Some b"
    by (cases keys) (simp_all add: build_bloom_def key_filter_def)
  ultimately show ?thesis using that assms(2) by blast
qed

lemma flush_build_layout:
  assumes "length es * 10 < 2 ^ 63"
  shows "flush_build P p es = Ok (sst_image P es, table_of P p es)"
proof -
  have "build_bloom (map fst es) = Ok (key_filter (map fst es))"
    using assms by (intro build_bloom_ok) simp
  moreover have "write_bloom (write_key_range (data_region P (chunks P [] es)
        @ index_bytes (index_of P 0 (chunks P [] es))) (first_key_of es) (last_key_of es))
        (key_filter (map fst es)) = data_region P (chunks P [] es) @ index_region P es"
    by (subst write_key_range_append, subst write_bloom_append) (simp add: index_region_def)
  ultimately show ?thesis
    unfolding flush_build_def flush_blocks_layout Let_def write_index_entries
    by (simp add: sst_image_def table_of_def Let_def
        write_footer_append [of "data_region P (chunks P [] es) @ index_region P es"])
qed

text \<open>Every part of the file is shorter than the file.\<close>

lemma length_block_bytes_ge: "9 * length es \<le> length (block_bytes P es)"
proof (induction es)
  case (Cons r es)
  then show ?case by (cases r) (simp add: length_record_bytes)
qed simp

lemma length_data_region_ge: "length (block_bytes P (concat css)) + 4 * length css \<le> length (data_region P css)"
  by (induction css) simp_all

lemma length_sst_image:
  "length (sst_image P es) = length (data_region P (chunks P [] es)) + length (index_region P es) + 28"
  by (simp add: sst_image_def Let_def)

lemma table_fits_bounds:
  assumes "table_fits P es"
  shows "length (data_region P (chunks P [] es)) < 2 ^ 32" and "length (index_region P es) < 2 ^ 32"
    and "length (chunks P [] es) < 2 ^ 32" and "length es * 10 < 2 ^ 63"
    and "length (block_bytes P es) < 2 ^ 32"
proof -
  let ?d = "data_region P (chunks P [] es)"
  show d: "length ?d < 2 ^ 32" and "length (index_region P es) < 2 ^ 32"
    using assms by (auto simp: table_fits_def length_sst_image)
  have "length (block_bytes P es) + 4 * length (chunks P [] es) \<le> length ?d"
    using length_data_region_ge [of P "chunks P [] es"] by (simp add: concat_chunks)
  then show "length (chunks P [] es) < 2 ^ 32" "length (block_bytes P es) < 2 ^ 32"
    using d by auto
  then show "length es * 10 < 2 ^ 63"
    using length_block_bytes_ge [of es P] by simp
qed

lemma record_bytes_le_block: "r \<in> set es \<Longrightarrow> length (record_bytes P r) \<le> length (block_bytes P es)"
  by (induction es) auto

lemma table_fits_records:
  assumes "table_fits P es"
  shows "list_all (record_fits P) es"
  unfolding list_all_iff
  by (blast intro: record_fits_bound le_less_trans [OF record_bytes_le_block] table_fits_bounds(5) assms)

text \<open>
  Conversely the records bound the file: it is at most four times as long as they are, plus
  a constant.
\<close>

lemma length_data_region:
  "length (data_region P css) = length (block_bytes P (concat css)) + 4 * length css"
  by (induction css) simp_all

lemma length_chunks: "length (chunks P cur es) \<le> length cur + length es"
  using chunks_nonempty [of _ P cur es]
proof -
  have "length css \<le> length (concat css)" if "\<forall>cs \<in> set css. cs \<noteq> []" for css :: "'z list list"
    using that
  proof (induction css)
    case (Cons cs css)
    then show ?case by (cases cs) auto
  qed simp
  from this [of "chunks P cur es"] chunks_nonempty [of _ P cur es] show ?thesis
    by (simp add: concat_chunks)
qed

lemma length_index_bytes:
  assumes "\<forall>cs \<in> set css. cs \<noteq> []"
  shows "length (index_bytes (index_of P off css)) + 9 * length (concat css)
    \<le> 16 * length css + length (block_bytes P (concat css))"
  using assms
proof (induction css arbitrary: off)
  case (Cons cs css)
  then obtain k e rs where cs: "cs = (k, e) # rs" by (cases cs) auto
  have "9 * length rs \<le> length (block_bytes P rs)" by (rule length_block_bytes_ge)
  with Cons.IH [of "off + (length (block_bytes P cs) + 4)"] Cons.prems show ?case
    by (simp add: cs index_entry_bytes_layout index_entry_of_def length_record_bytes)
qed simp

lemma length_key_filter:
  assumes "length keys * 10 < 2 ^ 63"
  shows "length (write_bloom [] (key_filter keys)) \<le> 17 + 2 * length keys"
proof (cases keys)
  case (Cons k ks)
  then have "k \<in> set keys" by simp
  from key_filter_contains [OF assms this] obtain b where b: "key_filter keys = Some b" by blast
  with bloom_no_false_negative [OF assms] Cons
  have "length (bf_bits b) = (max (length keys * 10) 64 + 7) div 8"
    by (auto simp: key_filter_def build_bloom_def)
  then show ?thesis by (simp add: b write_bloom_def write_u32_def)
qed (simp add: key_filter_def build_bloom_def write_bloom_def)

lemma length_key_range:
  "length (write_key_range [] (first_key_of es) (last_key_of es))
     \<le> 8 + 2 * (length (block_bytes P es) - 9 * length es)"
proof (cases "es = []")
  case False
  have key: "length (fst r) \<le> length (block_bytes P es) - 9 * length es" if "r \<in> set es" for r
  proof -
    from split_list [OF that] obtain xs ys where es: "es = xs @ r # ys" by blast
    have "9 * length xs \<le> length (block_bytes P xs)" "9 * length ys \<le> length (block_bytes P ys)"
      by (rule length_block_bytes_ge)+
    then show ?thesis by (cases r) (simp add: es length_record_bytes)
  qed
  from key [of "hd es"] key [of "last es"] False show ?thesis
    by (simp add: write_key_range_def write_u32_def first_key_of_def last_key_of_def)
qed (simp add: write_key_range_def first_key_of_def)

lemma length_sst_image_le:
  assumes "length es * 10 < 2 ^ 63"
  shows "length (sst_image P es) \<le> 4 * length (block_bytes P es) + 100"
proof -
  let ?B = "length (block_bytes P es)" and ?n = "length es" and ?css = "chunks P [] es"
  have n: "9 * ?n \<le> ?B" by (rule length_block_bytes_ge)
  have css: "\<forall>cs \<in> set ?css. cs \<noteq> []" using chunks_nonempty by blast
  have "length ?css \<le> ?n" using length_chunks [of P "[]" es] by simp
  moreover have "length (data_region P ?css) = ?B + 4 * length ?css"
    by (simp add: length_data_region concat_chunks)
  moreover have "length (index_bytes (index_of P 0 ?css)) + 9 * ?n \<le> 16 * length ?css + ?B"
    using length_index_bytes [OF css, of P 0] by (simp add: concat_chunks)
  moreover have "length (write_bloom [] (key_filter (map fst es))) \<le> 17 + 2 * ?n"
    using length_key_filter [of "map fst es"] assms by simp
  ultimately show ?thesis
    using n length_key_range [of es P] by (simp add: length_sst_image index_region_def)
qed

lemma table_fits_size:
  assumes "4 * length (block_bytes P es) + 100 < 2 ^ 32"
  shows "table_fits P es"
  using length_sst_image_le [of es P] length_block_bytes_ge [of es P] assms by (simp add: table_fits_def)

section \<open>Reading the index region back\<close>

lemma read_index_at:
  assumes "c = length xs" and "\<forall>e \<in> set es. length (ie_first_key e) < 2 ^ 32"
  shows "read_index (xs @ index_bytes es @ ys) c (length es) = Ok (es, c + length (index_bytes es))"
  using assms
proof (induction es arbitrary: xs c)
  case Nil
  then show ?case by simp
next
  case (Cons e es)
  define k where "k = ie_first_key e"
  have k: "unat (of_nat (length k) :: u32) = length k"
    using Cons.prems(2) by (simp add: k_def unat_of_nat_fits32)
  let ?kl = "to_be_bytes32 (of_nat (length k))"
  let ?off = "to_be_bytes64 (ie_block_offset e)"
  let ?len = "to_be_bytes32 (ie_block_len e)"
  let ?rest = "index_bytes es @ ys"
  let ?buf = "xs @ index_bytes (e # es) @ ys"
  have buf: "?buf = xs @ ?kl @ (k @ ?off @ ?len @ ?rest)"
    "?buf = (xs @ ?kl) @ k @ (?off @ ?len @ ?rest)"
    "?buf = (xs @ ?kl @ k) @ ?off @ (?len @ ?rest)"
    "?buf = (xs @ ?kl @ k @ ?off) @ ?len @ ?rest"
    "?buf = (xs @ index_entry_bytes e) @ ?rest"
    by (simp_all add: index_entry_bytes_layout k_def)
  have r1: "read_u32 ?buf c = Ok (of_nat (length k), c + 4)"
    unfolding buf(1) by (rule read_u32_at) (simp add: Cons.prems(1))
  have r2: "read_bytes ?buf (c + 4) (length k) = Ok (k, c + 4 + length k)"
    unfolding buf(2) by (rule read_bytes_at) (simp_all add: Cons.prems(1))
  have r3: "read_u64 ?buf (c + 4 + length k) = Ok (ie_block_offset e, c + 12 + length k)"
    unfolding buf(3) by (subst read_u64_at) (simp_all add: Cons.prems(1))
  have r4: "read_u32 ?buf (c + 12 + length k) = Ok (ie_block_len e, c + length (index_entry_bytes e))"
    unfolding buf(4) by (subst read_u32_at) (simp_all add: Cons.prems(1) index_entry_bytes_layout k_def)
  have r5: "read_index ?buf (c + length (index_entry_bytes e)) (length es)
      = Ok (es, c + length (index_entry_bytes e) + length (index_bytes es))"
    unfolding buf(5) using Cons.prems by (intro Cons.IH) simp_all
  show ?case
    using r1 r2 r3 r4 r5 k unfolding k_def by simp
qed

lemma read_range_bloom_at:
  assumes "c = length xs" and "length a < 2 ^ 32" and "length b < 2 ^ 32"
    and "length (bf_bits f) < 2 ^ 32"
  shows "read_range_bloom (xs @ write_key_range [] (Some a) (Some b) @ write_bloom [] (Some f)) c
    = Ok (Some a, Some b, Some f)"
proof -
  let ?al = "to_be_bytes32 (of_nat (length a))"
  let ?bl = "to_be_bytes32 (of_nat (length b))"
  let ?k = "to_be_bytes32 (bf_k f)"
  let ?fl = "to_be_bytes32 (of_nat (length (bf_bits f)))"
  let ?buf = "xs @ write_key_range [] (Some a) (Some b) @ write_bloom [] (Some f)"
  note fits = assms(2-4) [THEN unat_of_nat_fits32]
  have buf: "?buf = xs @ ?al @ (a @ ?bl @ b @ ?k @ ?fl @ bf_bits f)"
    "?buf = (xs @ ?al) @ a @ (?bl @ b @ ?k @ ?fl @ bf_bits f)"
    "?buf = (xs @ ?al @ a) @ ?bl @ (b @ ?k @ ?fl @ bf_bits f)"
    "?buf = (xs @ ?al @ a @ ?bl) @ b @ (?k @ ?fl @ bf_bits f)"
    "?buf = (xs @ ?al @ a @ ?bl @ b) @ ?k @ (?fl @ bf_bits f)"
    "?buf = (xs @ ?al @ a @ ?bl @ b @ ?k) @ ?fl @ bf_bits f"
    "?buf = (xs @ ?al @ a @ ?bl @ b @ ?k @ ?fl) @ bf_bits f @ []"
    by (simp_all add: write_key_range_def write_bloom_def write_u32_def)
  have r1: "read_u32 ?buf c = Ok (of_nat (length a), c + 4)"
    unfolding buf(1) by (rule read_u32_at) (simp add: assms(1))
  have r2: "read_bytes ?buf (c + 4) (length a) = Ok (a, c + 4 + length a)"
    unfolding buf(2) by (rule read_bytes_at) (simp_all add: assms(1))
  have r3: "read_u32 ?buf (c + 4 + length a) = Ok (of_nat (length b), c + 8 + length a)"
    unfolding buf(3) by (subst read_u32_at) (simp_all add: assms(1))
  have r4: "read_bytes ?buf (c + 8 + length a) (length b) = Ok (b, c + 8 + length a + length b)"
    unfolding buf(4) by (subst read_bytes_at) (simp_all add: assms(1))
  have r5: "read_u32 ?buf (c + 8 + length a + length b) = Ok (bf_k f, c + 12 + length a + length b)"
    unfolding buf(5) by (subst read_u32_at) (simp_all add: assms(1))
  have r6: "read_u32 ?buf (c + 12 + length a + length b)
      = Ok (of_nat (length (bf_bits f)), c + 16 + length a + length b)"
    unfolding buf(6) by (subst read_u32_at) (simp_all add: assms(1))
  have r7: "\<exists>c'. read_bytes ?buf (c + 16 + length a + length b) (length (bf_bits f)) = Ok (bf_bits f, c')"
    unfolding buf(7) by (subst read_bytes_at) (simp_all add: assms(1))
  have "c < length ?buf" by (simp add: buf(1) assms(1))
  then show ?thesis
    using r1 r2 r3 r4 r5 r6 r7 by (auto simp: read_range_bloom_def fits)
qed

lemma index_of_fits:
  assumes "table_fits P es" and "e \<in> set (index_of P 0 (chunks P [] es))"
  shows "length (ie_first_key e) < 2 ^ 32"
proof -
  from assms(2) obtain i where i: "i < length (chunks P [] es)" and e: "e = index_of P 0 (chunks P [] es) ! i"
    by (auto simp: in_set_conv_nth)
  define cs where "cs = chunks P [] es ! i"
  have cs: "cs \<in> set (chunks P [] es)" using i by (simp add: cs_def)
  then have "hd cs \<in> set (concat (chunks P [] es))"
    using chunks_nonempty [of cs P "[]" es] by (auto intro: bexI [of _ cs])
  then have "record_fits P (hd cs)"
    using table_fits_records [OF assms(1)] by (simp add: concat_chunks list_all_iff)
  then show ?thesis
    using i by (simp add: e index_of_nth index_entry_of_def cs_def record_fits_def)
qed

lemma parse_index_region_ok:
  assumes "table_fits P es"
  shows "parse_index_region (index_region P es) (length (chunks P [] es))
    = Ok (index_of P 0 (chunks P [] es), first_key_of es, last_key_of es, key_filter (map fst es))"
proof -
  define idx where "idx = index_of P 0 (chunks P [] es)"
  have idx: "\<forall>e \<in> set idx. length (ie_first_key e) < 2 ^ 32" and len: "length (chunks P [] es) = length idx"
    using index_of_fits [OF assms] by (auto simp: idx_def)
  have ri: "read_index (index_bytes idx @ rest) 0 (length idx) = Ok (idx, length (index_bytes idx))" for rest
    using read_index_at [of 0 "[]" idx rest] idx by simp
  show ?thesis
  proof (cases "es = []")
    case True
    then show ?thesis
      by (simp add: parse_index_region_def index_region_def first_key_of_def last_key_of_def
          key_filter_def build_bloom_def write_key_range_def write_bloom_def read_range_bloom_def)
  next
    case False
    then have mem: "fst (hd es) \<in> set (map fst es)" by simp
    obtain f where f: "key_filter (map fst es) = Some f" 
      using key_filter_contains [OF _ mem] table_fits_bounds(4) [OF assms] by auto
    let ?a = "fst (hd es)" let ?b = "fst (last es)"
    have region: "index_region P es = index_bytes idx
        @ write_key_range [] (Some ?a) (Some ?b) @ write_bloom [] (Some f)"
      using False by (simp add: index_region_def idx_def f first_key_of_def last_key_of_def)
    have "length (write_key_range [] (Some ?a) (Some ?b)) + length (write_bloom [] (Some f)) < 2 ^ 32"
      using table_fits_bounds(2) [OF assms] by (simp add: region)
    then have "read_range_bloom (index_region P es) (length (index_bytes idx)) = Ok (Some ?a, Some ?b, Some f)"
      unfolding region
      by (intro read_range_bloom_at) (auto simp: write_key_range_def write_bloom_def write_u32_def)
    then show ?thesis
      using ri False
      by (simp add: parse_index_region_def len region idx_def [symmetric] f first_key_of_def last_key_of_def)
  qed
qed

section \<open>Writing and opening\<close>

lemma sst_flush_ok:
  assumes "quiet w" and "writable_at w p" and "length es * 10 < 2 ^ 63"
  shows "sst_flush P p es w = (Ok (table_of P p es), later 4 (put_file p (sst_image P es) w))"
proof -
  have par: "path_parent p = Some (butlast p)" "dir_ready w (butlast p)"
    using assms(2) by (simp_all add: writable_at_def)
  show ?thesis
    using assms(1,2) create_dir_ready [OF assms(1) par(2)]
    by (simp add: sst_flush_def par(1) bindA_def flush_build_layout [OF assms(3)]
        writable_fs_open fs_write_all_quiet fs_sync_all_quiet)
qed

lemma sst_open_ok:
  assumes "quiet w" and "file_of w p = Some (sst_image P es)" and "table_fits P es"
  shows "sst_open p w = (Ok (table_of P p es), later 6 w)"
proof -
  define d where "d = data_region P (chunks P [] es)"
  define r where "r = index_region P es"
  define ft where "ft = write_footer [] (of_nat (length d)) (of_nat (length r)) (of_nat (length (chunks P [] es)))"
  have img: "sst_image P es = d @ r @ ft"
    by (simp add: sst_image_def Let_def d_def r_def ft_def)
  have len: "length d < 2 ^ 32" "length r < 2 ^ 32" "length (chunks P [] es) < 2 ^ 32" "length ft = 28"
    using table_fits_bounds [OF assms(3)] by (simp_all add: d_def r_def ft_def)
  have foot: "(from_be_bytes (take 8 ft) :: u64) = of_nat (length d)"
    "(from_be_bytes (take 8 (drop 8 ft)) :: u64) = of_nat (length r)"
    "(from_be_bytes (take 4 (drop 16 ft)) :: u32) = of_nat (length (chunks P [] es))"
    "take 4 (drop 20 ft) = MAGIC" "(from_be_bytes (drop 24 ft) :: u32) = VERSION"
    by (simp_all add: ft_def write_footer_layout MAGIC_def)
  have unats: "unat (of_nat (length d) :: u64) = length d" "unat (of_nat (length r) :: u64) = length r"
    "unat (of_nat (length (chunks P [] es)) :: u32) = length (chunks P [] es)"
    using len by (simp_all add: unat_of_nat_fits64 unat_of_nat_fits32)
  have content: "file_of w p = Some (d @ r @ ft)" using assms(2) img by simp
  note rd = fs_read_exact_quiet [where c = "d @ r @ ft"] fs_metadata_quiet [where c = "d @ r @ ft"]
    fs_open_existing [where c = "d @ r @ ft"]
  have "parse_index_region r (length (chunks P [] es))
      = Ok (index_of P 0 (chunks P [] es), first_key_of es, last_key_of es, key_filter (map fst es))"
    using parse_index_region_ok [OF assms(3)] by (simp add: r_def)
  then show ?thesis
    using assms(1) len content
    by (simp add: sst_open_def bindA_def rd fs_seek_quiet FOOTER_LEN_def Let_def foot unats
        table_of_def)
qed

section \<open>Lookup\<close>

text \<open>
  A table in memory represents the sorted entries \<open>es\<close> when its file holds their image, its
  in-memory fields are those the writer computed, and its cache holds only blocks of that
  file.
\<close>

definition cache_sound :: "prost \<Rightarrow> (bytes \<times> entry) list \<Rightarrow> block_cache \<Rightarrow> bool" where
  "cache_sound P es c \<longleftrightarrow>
     cache_inv c \<and>
     (\<forall>i < length (chunks P [] es). \<forall>b.
        map_of (bc_blocks c) (ie_block_offset (index_of P 0 (chunks P [] es) ! i)) = Some b
          \<longrightarrow> b = block_bytes P (chunks P [] es ! i))"

definition represents :: "prost \<Rightarrow> world \<Rightarrow> sstable \<Rightarrow> (bytes \<times> entry) list \<Rightarrow> bool" where
  "represents P w t es \<longleftrightarrow>
     bt_sorted es \<and> table_fits P es \<and> file_of w (sst_path t) = Some (sst_image P es)
     \<and> t\<lparr>sst_cache := cache_new BLOCK_CACHE_CAP\<rparr> = table_of P (sst_path t) es
     \<and> cache_sound P es (sst_cache t)"

lemma cache_sound_new [simp]: "cache_sound P es (cache_new n)"
  using cache_inv_new [of n] by (simp add: cache_sound_def) (simp add: cache_new_def)

lemma represents_table_of:
  "bt_sorted es \<Longrightarrow> table_fits P es \<Longrightarrow> file_of w p = Some (sst_image P es) \<Longrightarrow>
     represents P w (table_of P p es) es"
  by (simp add: represents_def table_of_def)

lemma represents_fields:
  assumes "represents P w t es"
  shows "sst_index t = index_of P 0 (chunks P [] es)" and "sst_min_key t = first_key_of es"
    and "sst_max_key t = last_key_of es" and "sst_bloom t = key_filter (map fst es)"
  using assms by (cases t; simp add: represents_def table_of_def)+

lemma represents_world:
  "represents P w t es \<Longrightarrow> file_of w' (sst_path t) = file_of w (sst_path t) \<Longrightarrow> represents P w' t es"
  by (simp add: represents_def)

lemma represents_later [simp]: "represents P (later n w) t es = represents P w t es"
  by (simp add: represents_def)

lemma represents_cache:
  assumes "represents P w t es" and "cache_sound P es c"
  shows "represents P w (t\<lparr>sst_cache := c\<rparr>) es"
  using assms by (simp add: represents_def)

lemma chunk_offset_fits:
  assumes "table_fits P es" and "i < length (chunks P [] es)"
  defines "css \<equiv> chunks P [] es"
  shows "unat (ie_block_offset (index_of P 0 css ! i)) = length (data_region P (take i css))"
    and "unat (ie_block_len (index_of P 0 css ! i)) = length (block_bytes P (css ! i)) + 4"
    and "length (data_region P (take i css)) < 2 ^ 63"
proof -
  have "css = take i css @ css ! i # drop (Suc i) css"
    using assms(2) by (simp add: css_def id_take_nth_drop [symmetric])
  then have "data_region P css = data_region P (take i css) @ sealed (block_bytes P (css ! i))
      @ data_region P (drop (Suc i) css)"
    by (metis data_region_simps(2,3))
  then have le: "length (data_region P (take i css)) + length (block_bytes P (css ! i)) + 4 < 2 ^ 32"
    using table_fits_bounds(1) [OF assms(1)] by (simp add: css_def)
  then show "length (data_region P (take i css)) < 2 ^ 63" by simp
  show "unat (ie_block_offset (index_of P 0 css ! i)) = length (data_region P (take i css))"
    "unat (ie_block_len (index_of P 0 css ! i)) = length (block_bytes P (css ! i)) + 4"
    using le assms(2)
    by (simp_all add: css_def index_of_nth index_entry_of_def unat_of_nat_fits64 unat_of_nat_fits32
        del: of_nat_add)
qed

lemma read_chunk:
  assumes "quiet w" and "table_fits P es" and "file_of w p = Some (sst_image P es)"
    and "i < length (chunks P [] es)"
  shows "read_block_from_disk p (index_of P 0 (chunks P [] es) ! i) w
    = (Ok (block_bytes P (chunks P [] es ! i)), later 2 w)"
proof -
  define css where "css = chunks P [] es"
  have "css = take i css @ css ! i # drop (Suc i) css"
    using assms(4) by (simp add: css_def id_take_nth_drop [symmetric])
  then have "data_region P css = data_region P (take i css) @ sealed (block_bytes P (css ! i))
      @ data_region P (drop (Suc i) css)"
    by (metis data_region_simps(2,3))
  then obtain ys where "sst_image P es = data_region P (take i css)
      @ (block_bytes P (css ! i) @ to_be_bytes32 (crc32 (block_bytes P (css ! i)))) @ ys"
    by (auto simp: sst_image_def Let_def css_def sealed_def)
  then show ?thesis
    using assms chunk_offset_fits [OF assms(2,4)]
    by (intro read_block_at) (simp_all add: css_def)
qed

lemma data_region_take_mono:
  assumes "i < j" and "j \<le> length css"
  shows "length (data_region P (take i css)) < length (data_region P (take j css))"
proof -
  have "take j css = take i css @ take (j - i) (drop i css)"
    using assms(1) by (metis le_add_diff_inverse less_imp_le take_add)
  moreover obtain cs rest where "take (j - i) (drop i css) = cs # rest"
    using assms by (cases "take (j - i) (drop i css)") auto
  ultimately show ?thesis by simp
qed

lemma chunk_offset_inj:
  assumes "table_fits P es" and "i < length (chunks P [] es)" and "j < length (chunks P [] es)"
    and "ie_block_offset (index_of P 0 (chunks P [] es) ! i) = ie_block_offset (index_of P 0 (chunks P [] es) ! j)"
  shows "i = j"
proof (rule ccontr)
  assume "i \<noteq> j"
  moreover have "length (data_region P (take i (chunks P [] es))) = length (data_region P (take j (chunks P [] es)))"
    using chunk_offset_fits(1) [OF assms(1,2)] chunk_offset_fits(1) [OF assms(1,3)] assms(4) by simp
  ultimately show False
    using assms(2,3) data_region_take_mono [of i j "chunks P [] es" P]
      data_region_take_mono [of j i "chunks P [] es" P]
    by (cases i j rule: linorder_cases) auto
qed

lemma cache_sound_get: "cache_sound P es c \<Longrightarrow> cache_sound P es (snd (cache_get off c))"
  by (simp add: cache_sound_def cache_get_blocks cache_inv_get)

lemma cache_sound_put:
  assumes "cache_sound P es c" and "table_fits P es" and "i < length (chunks P [] es)"
  shows "cache_sound P es (cache_put (ie_block_offset (index_of P 0 (chunks P [] es) ! i))
           (block_bytes P (chunks P [] es ! i)) c)"
  using assms chunk_offset_inj [OF assms(2) _ assms(3)]
  by (auto simp: cache_sound_def cache_inv_put dest!: cache_put_blocks)

lemma cached_block_ok:
  assumes "quiet w" and "represents P w t es" and "i < length (chunks P [] es)"
  shows "\<exists>t' n. cached_block (sst_index t ! i) (t, w)
      = (Ok (block_bytes P (chunks P [] es ! i)), (t', later n w))
    \<and> represents P w t' es \<and> sst_path t' = sst_path t"
proof -
  let ?ie = "index_of P 0 (chunks P [] es) ! i"
  let ?blk = "block_bytes P (chunks P [] es ! i)"
  note rep = assms(2) [unfolded represents_def]
  obtain r c where get: "cache_get (ie_block_offset ?ie) (sst_cache t) = (r, c)" by force
  have c: "cache_sound P es c"
    using cache_sound_get [of P es "sst_cache t" "ie_block_offset ?ie"] rep by (simp add: get)
  show ?thesis
  proof (cases r)
    case (Some b)
    then have "b = ?blk"
      using get rep assms(3) cache_get_result [of "ie_block_offset ?ie" "sst_cache t"]
      by (simp add: cache_sound_def)
    with Some get c assms(2) show ?thesis
      by (intro exI [of _ "t\<lparr>sst_cache := c\<rparr>"] exI [of _ 0])
        (simp add: cached_block_def represents_fields [OF assms(2)] represents_cache)
  next
    case None
    have "read_block_from_disk (sst_path t) ?ie w = (Ok ?blk, later 2 w)"
      using rep assms by (intro read_chunk) simp_all
    moreover have "read_block_from_disk (sst_path t) ?ie (later 1 w) = (Ok ?blk, later 2 (later 1 w))"
      using rep assms by (intro read_chunk) simp_all
    moreover have "fs_open False False (sst_path t) w = (Ok (), later 1 w)"
      using rep assms(1) by (intro fs_open_existing) auto
    moreover have "cache_sound P es (cache_put (ie_block_offset ?ie) ?blk c)"
      using c rep assms(3) by (intro cache_sound_put) simp_all
    ultimately show ?thesis
      using None get assms(2)
      by (intro exI [of _ "t\<lparr>sst_cache := cache_put (ie_block_offset ?ie) ?blk c\<rparr>"] exI [of _ 3])
        (simp add: cached_block_def represents_fields [OF assms(2)] represents_cache bindA_def onW_def)
  qed
qed

section \<open>The block that can hold a key\<close>

lemma bt_sorted_hd_le: "bt_sorted cs \<Longrightarrow> r \<in> set cs \<Longrightarrow> fst (hd cs) \<le> fst r"
  by (cases cs) (auto intro: less_imp_le)

lemma bt_sorted_le_last: "bt_sorted cs \<Longrightarrow> r \<in> set cs \<Longrightarrow> fst r \<le> fst (last cs)"
  by (cases cs rule: rev_cases) (auto simp: bt_sorted_append intro: less_imp_le)

lemma bt_sorted_concat_member: "bt_sorted (concat css) \<Longrightarrow> cs \<in> set css \<Longrightarrow> bt_sorted cs"
  by (induction css) (auto simp: bt_sorted_append)

lemma first_keys_sorted:
  assumes "bt_sorted (concat css)" and "\<forall>cs \<in> set css. cs \<noteq> []"
  shows "sorted_wrt (<) (map (\<lambda>cs. fst (hd cs)) css)"
  using assms
proof (induction css)
  case (Cons cs css)
  have "fst (hd cs) < fst (hd ds)" if "ds \<in> set css" for ds
  proof -
    have "hd cs \<in> set cs" "hd ds \<in> set ds"
      using that Cons.prems(2) by auto
    then show ?thesis using Cons.prems(1) that by (auto simp: bt_sorted_append)
  qed
  then show ?case using Cons by (simp add: bt_sorted_append)
qed simp

lemma lookup_in_chunk:
  assumes "bt_sorted (concat css)" and "\<forall>cs \<in> set css. cs \<noteq> []" and "p < length css"
    and "fst (hd (css ! p)) \<le> key"
    and "\<forall>j. p < j \<and> j < length css \<longrightarrow> key < fst (hd (css ! j))"
  shows "map_of (concat css) key = map_of (css ! p) key"
proof -
  let ?L = "concat (take p css)" and ?R = "concat (drop (Suc p) css)"
  have split: "concat css = ?L @ css ! p @ ?R"
    using id_take_nth_drop [OF assms(3)] by (metis concat.simps(2) concat_append)
  have sorted: "bt_sorted (?L @ css ! p @ ?R)" using assms(1) split by simp
  have "css ! p \<noteq> []" using assms(2,3) by simp
  then have "fst (hd (css ! p)) \<in> fst ` set (css ! p)" by simp
  then have "a < fst (hd (css ! p))" if "a \<in> fst ` set ?L" for a
    using sorted that unfolding bt_sorted_append [of ?L] by (metis Un_iff image_Un set_append)
  then have "a < key" if "a \<in> fst ` set ?L" for a
    using that assms(4) by (blast intro: less_le_trans)
  then have left: "map_of ?L key = None"
    by (auto simp: map_of_eq_None_iff)
  have right: "map_of ?R key = None"
  proof (rule ccontr)
    assume "map_of ?R key \<noteq> None"
    then obtain ds v where ds: "ds \<in> set (drop (Suc p) css)" "(key, v) \<in> set ds"
      by (auto dest!: map_of_SomeD)
    then obtain j where j: "p < j" "j < length css" "ds = css ! j"
      by (auto simp: in_set_conv_nth) (metis add.commute add_Suc_right less_add_Suc2 less_diff_conv)
    have "bt_sorted ds"
      using assms(1) ds(1) bt_sorted_concat_member by (meson in_set_dropD)
    then have "fst (hd ds) \<le> key" using bt_sorted_hd_le [of ds "(key, v)"] ds(2) by simp
    with assms(5) j show False by auto
  qed
  show ?thesis
    using left right by (simp add: split map_add_def split: option.splits)
qed

lemma lookup_before_chunks:
  assumes "bt_sorted (concat css)" and "\<forall>cs \<in> set css. key < fst (hd cs)"
  shows "map_of (concat css) key = None"
proof (rule ccontr)
  assume "map_of (concat css) key \<noteq> None"
  then obtain cs v where cs: "cs \<in> set css" "(key, v) \<in> set cs"
    by (auto dest!: map_of_SomeD)
  then have "fst (hd cs) \<le> key"
    using bt_sorted_hd_le [of cs "(key, v)"] bt_sorted_concat_member [OF assms(1)] by simp
  with assms(2) cs(1) show False by auto
qed

lemma chunk_subset: "cs \<in> set (chunks P [] es) \<Longrightarrow> set cs \<subseteq> set es"
  using concat_chunks [of P "[]" es] by (metis UN_upper append_Nil set_concat)

lemma find_block_position:
  assumes "sorted_wrt (<) (map ie_first_key (sst_index t))"
  shows "case find_block t key of
      None \<Rightarrow> \<forall>ie \<in> set (sst_index t). key < ie_first_key ie
    | Some p \<Rightarrow> p < length (sst_index t) \<and> ie_first_key (sst_index t ! p) \<le> key
        \<and> (\<forall>j. p < j \<and> j < length (sst_index t) \<longrightarrow> key < ie_first_key (sst_index t ! j))"
proof -
  let ?ks = "map ie_first_key (sst_index t)"
  have "find_block t key = block_position (binary_search_by (\<lambda>i. cmp (?ks ! i) key) (length ?ks))"
    unfolding find_block_def length_map
    by (intro arg_cong [of _ _ block_position] binary_search_cong) simp
  with binary_search_position [OF assms, of key] show ?thesis
    by (auto split: option.splits)
qed

lemma represents_index_sorted:
  assumes "represents P w t es"
  shows "sorted_wrt (<) (map ie_first_key (sst_index t))"
proof -
  let ?css = "chunks P [] es"
  have "map ie_first_key (sst_index t) = map (\<lambda>cs. fst (hd cs)) ?css"
    by (intro nth_equalityI) (simp_all add: represents_fields [OF assms] index_of_nth index_entry_of_def)
  moreover have "sorted_wrt (<) (map (\<lambda>cs. fst (hd cs)) ?css)"
    using assms chunks_nonempty [of _ P "[]" es]
    by (intro first_keys_sorted) (auto simp: represents_def concat_chunks)
  ultimately show ?thesis by simp
qed

lemma find_block_ok:
  assumes "represents P w t es"
  defines "css \<equiv> chunks P [] es"
  shows "case find_block t key of
      None \<Rightarrow> map_of es key = None
    | Some p \<Rightarrow> p < length css \<and> map_of es key = map_of (css ! p) key"
proof -
  have sorted: "bt_sorted (concat css)" and ne: "\<forall>cs \<in> set css. cs \<noteq> []"
    using assms chunks_nonempty [of _ P "[]" es] by (auto simp: represents_def css_def concat_chunks)
  have keys: "ie_first_key (sst_index t ! i) = fst (hd (css ! i))" if "i < length css" for i
    using that by (simp add: represents_fields [OF assms(1)] css_def index_of_nth index_entry_of_def)
  have n: "length (sst_index t) = length css"
    by (simp add: represents_fields [OF assms(1)] css_def)
  have all: "\<forall>cs \<in> set css. key < fst (hd cs)" if "\<forall>ie \<in> set (sst_index t). key < ie_first_key ie"
    using that keys n by (metis in_set_conv_nth nth_mem)
  show ?thesis
    using find_block_position [OF represents_index_sorted [OF assms(1)], of key]
      lookup_in_chunk [OF sorted ne, of _ key] lookup_before_chunks [OF sorted, of key] keys n all
    by (auto simp: css_def concat_chunks split: option.splits)
qed

lemma out_of_range_ok:
  assumes "represents P w t es" and "out_of_range t key"
  shows "map_of es key = None"
proof (rule ccontr)
  assume "map_of es key \<noteq> None"
  then obtain v where v: "(key, v) \<in> set es" by (auto dest: map_of_SomeD)
  have "bt_sorted es" using assms(1) by (simp add: represents_def)
  with v have "fst (hd es) \<le> key" "key \<le> fst (last es)" "es \<noteq> []"
    using bt_sorted_hd_le [of es "(key, v)"] bt_sorted_le_last [of es "(key, v)"] by auto
  with assms(2) show False
    by (auto simp: out_of_range_def represents_fields [OF assms(1)] first_key_of_def last_key_of_def)
qed

lemma bloom_rejects_ok:
  assumes "represents P w t es"
  obtains r where "bloom_rejects t key = Ok r" and "r \<longrightarrow> map_of es key = None"
proof (cases "es = []")
  case True
  then show ?thesis
    using that [of False] by (simp add: bloom_rejects_def represents_fields [OF assms] key_filter_def build_bloom_def)
next
  case False
  have n: "length (map fst es) * 10 < 2 ^ 63"
    using table_fits_bounds(4) [of P es] assms by (simp add: represents_def)
  have "fst (hd es) \<in> set (map fst es)" using False by simp
  from key_filter_contains [OF n this] obtain b where b: "key_filter (map fst es) = Some b" "bloom_ok b"
    by blast
  have "maybe_contains b key = Ok True" if "map_of es key \<noteq> None"
  proof -
    have "key \<in> set (map fst es)" using that by (auto dest!: map_of_SomeD intro: rev_image_eqI)
    from key_filter_contains [OF n this] b(1) show ?thesis by auto
  qed
  moreover obtain x where "maybe_contains b key = Ok x"
    using maybe_contains_ok [OF b(2), of key] by blast
  ultimately have "\<not> x \<longrightarrow> map_of es key = None" and "bloom_rejects t key = Ok (\<not> x)"
    by (cases "map_of es key"; simp add: bloom_rejects_def represents_fields [OF assms] b(1))+
  with that show ?thesis by blast
qed

context prost_codec
begin

lemma sst_get_ok:
  assumes "quiet w" and "represents P w t es"
  shows "\<exists>t' n. sst_get P key (t, w) = (Ok (map_of es key), (t', later n w))
    \<and> represents P w t' es \<and> sst_path t' = sst_path t"
proof -
  have keep: ?thesis if "sst_get P key (t, w) = (Ok None, (t, w))" "map_of es key = None"
    using that assms(2) by (intro exI [of _ t] exI [of _ 0]) simp
  obtain r where r: "bloom_rejects t key = Ok r" "r \<longrightarrow> map_of es key = None"
    using bloom_rejects_ok [OF assms(2)] by blast
  consider (empty) "sst_index t = []" | (range) "sst_index t \<noteq> []" "out_of_range t key"
    | (bloom) "sst_index t \<noteq> []" "\<not> out_of_range t key" "r"
    | (search) "sst_index t \<noteq> []" "\<not> out_of_range t key" "\<not> r" by blast
  then show ?thesis
  proof cases
    case empty
    then have "es = []"
      using length_index_of [of P 0 "chunks P [] es"]
      by (simp add: represents_fields [OF assms(2)] chunks_eq_Nil)
    then show ?thesis using empty by (intro keep) (simp_all add: sst_get_def)
  next
    case range
    then show ?thesis using out_of_range_ok [OF assms(2)] by (intro keep) (simp_all add: sst_get_def)
  next
    case bloom
    then show ?thesis using r by (intro keep) (simp_all add: sst_get_def bindA_def)
  next
    case search
    show ?thesis
    proof (cases "find_block t key")
      case None
      with search r find_block_ok [OF assms(2), of key] show ?thesis
        by (intro keep) (simp_all add: sst_get_def bindA_def)
    next
      case (Some p)
      let ?cs = "chunks P [] es ! p"
      have p: "p < length (chunks P [] es)" "map_of es key = map_of ?cs key"
        using find_block_ok [OF assms(2), of key] Some by simp_all
      obtain t' n where cb: "cached_block (sst_index t ! p) (t, w) = (Ok (block_bytes P ?cs), (t', later n w))"
          "represents P w t' es" "sst_path t' = sst_path t"
        using cached_block_ok [OF assms p(1)] by blast
      have "?cs \<in> set (chunks P [] es)" using p(1) by simp
      then have "bt_sorted ?cs" "set ?cs \<subseteq> set es"
        using assms(2) bt_sorted_concat_member [of "chunks P [] es" ?cs] chunk_subset
        by (simp_all add: represents_def concat_chunks)
      moreover from this(2) have "list_all (record_fits P) ?cs"
        using assms(2) table_fits_records [of P es] by (auto simp: represents_def list_all_iff)
      ultimately have "find_in_block P (block_bytes P ?cs) key = Ok (map_of es key)"
        using p(2) by (simp add: find_in_block_block)
      then show ?thesis
        using search r Some cb by (intro exI [of _ t'] exI [of _ n]) (simp add: sst_get_def bindA_def)
    qed
  qed
qed

lemma read_blocks_ok:
  assumes "quiet w" and "table_fits P es" and "file_of w p = Some (sst_image P es)"
    and "i \<le> length (chunks P [] es)"
  defines "css \<equiv> chunks P [] es"
  shows "\<exists>n. read_blocks P p (drop i (index_of P 0 css)) w = (Ok (concat (drop i css)), later n w)"
  using assms(1,3,4)
proof (induction "length css - i" arbitrary: i w)
  case 0
  then show ?case by (intro exI [of _ 0]) (simp add: css_def)
next
  case (Suc m)
  then have i: "i < length (chunks P [] es)" by (simp add: css_def)
  have blk: "read_block_from_disk p (index_of P 0 css ! i) w = (Ok (block_bytes P (css ! i)), later 2 w)"
    unfolding css_def using Suc.prems i by (intro read_chunk assms(2)) simp_all
  have "list_all (record_fits P) (css ! i)"
    using i chunk_subset [of "css ! i" P es] table_fits_records [OF assms(2)]
    by (auto simp: css_def list_all_iff)
  then have dec: "decode_all P (block_bytes P (css ! i)) 0 = Ok (css ! i)"
    by (rule decode_all_block)
  have "m = length css - Suc i" using Suc.hyps(2) by simp
  from Suc.hyps(1) [OF this, of "later 2 w"] Suc.prems i
  obtain n where "read_blocks P p (drop (Suc i) (index_of P 0 css)) (later 2 w)
      = (Ok (concat (drop (Suc i) css)), later n (later 2 w))"
    by auto
  moreover have "drop i (index_of P 0 css) = index_of P 0 css ! i # drop (Suc i) (index_of P 0 css)"
    using i by (simp add: css_def Cons_nth_drop_Suc)
  moreover have "drop i css = css ! i # drop (Suc i) css"
    using i by (simp add: css_def Cons_nth_drop_Suc)
  ultimately show ?case
    using blk dec by (simp add: bindA_def)
qed

lemma read_all_entries_ok:
  assumes "quiet w" and "represents P w t es"
  shows "\<exists>n. read_all_entries P t w = (Ok es, later n w)"
proof (cases "chunks P [] es = []")
  case True
  then show ?thesis
    using assms(2)
    by (intro exI [of _ 0])
      (simp add: read_all_entries_def represents_fields [OF assms(2)] chunks_eq_Nil)
next
  case False
  then have "index_of P 0 (chunks P [] es) \<noteq> []"
    by (metis length_0_conv length_index_of)
  moreover have "fs_open False False (sst_path t) w = (Ok (), later 1 w)"
    using assms by (intro fs_open_existing) (auto simp: represents_def)
  moreover obtain n where "read_blocks P (sst_path t) (index_of P 0 (chunks P [] es)) (later 1 w)
      = (Ok es, later n (later 1 w))"
    using read_blocks_ok [of "later 1 w" es "sst_path t" 0] assms
    by (auto simp: represents_def concat_chunks)
  ultimately show ?thesis
    by (simp add: read_all_entries_def represents_fields [OF assms(2)] bindA_def)
qed

end

end
