(* ===== verification/Ferrum_Wal.thy ===== *)
theory Ferrum_Wal
  imports Ferrum_Value Ferrum_Fs
begin

text \<open>
  The write-ahead log, \<open>ferrumdb-core/src/wal.rs\<close>: framing, the append handle, commit
  markers, and recovery, which returns the entries up to the last commit marker and cuts the
  rest of the file. The locale \<open>commit_log\<close> states what the store relies on: a log cut at
  any byte recovers to a prefix of whole committed batches.
\<close>

section \<open>Framing and parsing\<close>

definition frame :: "prost \<Rightarrow> wal_entry \<Rightarrow> bytes" where
  "frame P e = (let bs = encode_entry P e in to_be_bytes64 (of_nat (length bs)) @ bs)"

text \<open>
  The loop of \<open>parse_buffer\<close>. A length prefix so large that \<open>offset + len\<close> overflows makes
  the process panic: at the addition in a checked build, otherwise at the slice, whose end
  then lies before its start.
\<close>

function parse_loop ::
    "prost \<Rightarrow> bytes \<Rightarrow> nat \<Rightarrow> wal_entry list \<Rightarrow> nat \<Rightarrow> nat \<Rightarrow> (wal_entry list \<times> nat \<times> nat) outcome" where
  "parse_loop P buffer offset entries committed_count committed_end =
     (if offset < length buffer
      then if length buffer < offset + 8 then Ok (entries, committed_count, committed_end)
           else let len = unat (from_be_bytes (take 8 (drop offset buffer)) :: u64);
                    offset' = offset + 8
                in if 2 ^ 64 \<le> offset' + len then Panic
                   else if length buffer < offset' + len
                   then Ok (entries, committed_count, committed_end)
                   else case decode_entry P (take len (drop offset' buffer)) of
                          Inr e \<Rightarrow>
                            (let entries' = entries @ [e]
                             in if entry_operation P e = Commit
                                then parse_loop P buffer (offset' + len) entries'
                                       (length entries') (offset' + len)
                                else parse_loop P buffer (offset' + len) entries'
                                       committed_count committed_end)
                        | Inl err \<Rightarrow>
                            parse_loop P buffer (offset' + len) entries
                              committed_count committed_end
      else Ok (entries, committed_count, committed_end))"
  by pat_completeness auto
termination
  by (relation "measure (\<lambda>(P, buffer, offset, _). length buffer - offset)") auto

declare parse_loop.simps [simp del]

definition parse_buffer :: "prost \<Rightarrow> bytes \<Rightarrow> (wal_entry list \<times> nat \<times> nat) outcome" where
  "parse_buffer P buffer = parse_loop P buffer 0 [] 0 0"

section \<open>The log\<close>

record wal =
  wal_path :: path
  wal_file :: "path option"

type_synonym 'a wal_act = "(wal \<times> world, 'a) act"

definition wal_with_path :: "path \<Rightarrow> (world, wal) act" where
  "wal_with_path p w =
     (let w' = (case path_parent p of None \<Rightarrow> w | Some d \<Rightarrow> snd (fs_create_dir_all d w))
      in (Ok \<lparr>wal_path = p, wal_file = None\<rparr>, w'))"

definition WAL_PATH :: string where "WAL_PATH = ''./data/wal.log''"

definition wal_new :: "(world, wal) act" where
  "wal_new = wal_with_path (path_of_str WAL_PATH)"

definition wal_writer :: "path wal_act" where
  "wal_writer = (\<lambda>(l, w).
     case wal_file l of
       Some h \<Rightarrow> (Ok h, (l, w))
     | None \<Rightarrow>
         bindA (onW (fs_open True False (wal_path l))) (\<lambda>_ (l, w).
           (Ok (wal_path l), (l\<lparr>wal_file := Some (wal_path l)\<rparr>, w))) (l, w))"

definition wal_append :: "prost \<Rightarrow> wal_entry \<Rightarrow> unit wal_act" where
  "wal_append P e =
     (let framed = frame P e
      in bindA wal_writer (\<lambda>h. onW (fs_write_all h framed)))"

definition commit_entry :: "u64 \<Rightarrow> wal_entry" where
  "commit_entry seq =
     \<lparr>we_operation = operation_code Commit, we_key = [], we_value = None,
      we_sequence = seq, we_timestamp = 0\<rparr>"

definition wal_write_commit :: "prost \<Rightarrow> u64 \<Rightarrow> unit wal_act" where
  "wal_write_commit P seq =
     (let framed = frame P (commit_entry seq)
      in bindA wal_writer (\<lambda>h.
         bindA (onW (fs_write_all h framed)) (\<lambda>_.
         onW (fs_sync_all h))))"

definition wal_read_file :: "path \<Rightarrow> (world, bytes option) act" where
  "wal_read_file p =
     bindA (fs_exists p) (\<lambda>ex.
       if \<not> ex then returnA None
       else bindA (fs_open False False p) (\<lambda>_.
            bindA (fs_read_to_end p) (\<lambda>buf. returnA (Some buf))))"

definition wal_read_all :: "prost \<Rightarrow> (wal_entry list) wal_act" where
  "wal_read_all P = (\<lambda>(l, w).
     bindA (onW (wal_read_file (wal_path l))) (\<lambda>b.
       case b of
         None \<Rightarrow> returnA []
       | Some buffer \<Rightarrow> bindA (liftO (parse_buffer P buffer)) (\<lambda>(es, _, _). returnA es)) (l, w))"

definition wal_read_for_recovery :: "prost \<Rightarrow> (wal_entry list) wal_act" where
  "wal_read_for_recovery P = (\<lambda>(l, w).
     bindA (onW (wal_read_file (wal_path l))) (\<lambda>b.
       case b of
         None \<Rightarrow> returnA []
       | Some buffer \<Rightarrow>
           bindA (liftO (parse_buffer P buffer)) (\<lambda>(es, committed_count, committed_end).
           bindA
             (if committed_end < length buffer
              then bindA (onW (fs_open False False (wal_path l))) (\<lambda>_.
                   bindA (onW (fs_set_len (wal_path l) committed_end)) (\<lambda>_.
                   bindA (onW (fs_sync_all (wal_path l))) (\<lambda>_ (l, w).
                     (Ok (), (l\<lparr>wal_file := None\<rparr>, w)))))
              else returnA ()) (\<lambda>_.
           returnA (take committed_count es)))) (l, w))"

definition wal_clear :: "unit wal_act" where
  "wal_clear = (\<lambda>(l, w).
     bindA (onW (fs_open True True (wal_path l))) (\<lambda>_.
     onW (fs_sync_all (wal_path l))) (l\<lparr>wal_file := None\<rparr>, w))"

definition wal_file_path :: "wal \<Rightarrow> path" where
  "wal_file_path l = wal_path l"

definition create_put_entry :: "bytes \<Rightarrow> db_value \<Rightarrow> u64 \<Rightarrow> wal_entry" where
  "create_put_entry key v seq =
     \<lparr>we_operation = operation_code Put, we_key = key, we_value = Some (to_proto v),
      we_sequence = seq, we_timestamp = 0\<rparr>"

definition create_delete_entry :: "bytes \<Rightarrow> u64 \<Rightarrow> wal_entry" where
  "create_delete_entry key seq =
     \<lparr>we_operation = operation_code Delete, we_key = key, we_value = None,
      we_sequence = seq, we_timestamp = 0\<rparr>"

section \<open>Specification: whole frames and committed prefixes\<close>

text \<open>The entries whose encoding lies within the first \<open>n\<close> bytes.\<close>

fun whole :: "('e \<Rightarrow> bytes) \<Rightarrow> nat \<Rightarrow> 'e list \<Rightarrow> 'e list" where
  "whole enc n [] = []"
| "whole enc n (e # es) =
     (if length (enc e) \<le> n then e # whole enc (n - length (enc e)) es else [])"

text \<open>The entries up to and including the last commit.\<close>

definition committed :: "('e \<Rightarrow> bool) \<Rightarrow> 'e list \<Rightarrow> 'e list" where
  "committed is_commit es = rev (dropWhile (\<lambda>e. \<not> is_commit e) (rev es))"

lemma committed_simps [simp]:
  "committed c [] = []"
  "committed c (es @ [e]) = (if c e then es @ [e] else committed c es)"
  by (simp_all add: committed_def)

lemma committed_append_none: "\<forall>e \<in> set ops. \<not> c e \<Longrightarrow> committed c (es @ ops) = committed c es"
proof (induction ops rule: rev_induct)
  case (snoc x xs)
  then show ?case using committed_simps(2) [of c "es @ xs" x] by simp
qed simp

lemma committed_prefix: "\<exists>rest. es = committed c es @ rest"
  unfolding committed_def
  by (metis rev_append rev_rev_ident takeWhile_dropWhile_id)

lemma take_length_committed: "take (length (committed c es)) es = committed c es"
  using committed_prefix [of es c] by (metis append_eq_conv_conj)

lemma committed_idem [simp]: "committed c (committed c es) = committed c es"
  by (simp add: committed_def dropWhile_idem)

lemma whole_all: "length (concat (map enc es)) \<le> n \<Longrightarrow> whole enc n es = es"
  by (induction es arbitrary: n) auto

lemma whole_prefix: "\<exists>rest. es = whole enc n es @ rest"
  by (induction enc n es rule: whole.induct) auto

lemma whole_append:
  "length (concat (map enc es)) \<le> n \<Longrightarrow>
     whole enc n (es @ fs) = es @ whole enc (n - length (concat (map enc es))) fs"
  by (induction es arbitrary: n) auto

lemma whole_proper:
  "n < length (concat (map enc (es @ [e]))) \<Longrightarrow> \<exists>k. whole enc n (es @ [e]) = take k es"
proof (induction es arbitrary: n)
  case Nil
  then show ?case by (intro exI [of _ 0]) simp
next
  case (Cons a es)
  show ?case
  proof (cases "length (enc a) \<le> n")
    case True
    then have "n - length (enc a) < length (concat (map enc (es @ [e])))" using Cons.prems by simp
    from Cons.IH [OF this] obtain k where "whole enc (n - length (enc a)) (es @ [e]) = take k es" by blast
    with True show ?thesis by (intro exI [of _ "Suc k"]) simp
  next
    case False
    then show ?thesis by (intro exI [of _ 0]) simp
  qed
qed

text \<open>
  Of a log to which a batch of operations and its commit marker were being appended, the
  batch is recovered as a whole or not at all.
\<close>

lemma committed_whole_batch:
  assumes "committed c old = old" and "\<forall>e \<in> set ops. \<not> c e" and "c cm"
    and "length (concat (map enc old)) \<le> n"
  shows "committed c (whole enc n (old @ ops @ [cm])) =
    (if length (concat (map enc (old @ ops @ [cm]))) \<le> n then old @ ops @ [cm] else old)"
proof (cases "length (concat (map enc (old @ ops @ [cm]))) \<le> n")
  case True
  with committed_simps(2) [of c "old @ ops" cm] assms(3) show ?thesis by (simp add: whole_all)
next
  case False
  let ?m = "n - length (concat (map enc old))"
  have "?m < length (concat (map enc (ops @ [cm])))" using False assms(4) by simp
  from whole_proper [OF this] obtain k where k: "whole enc ?m (ops @ [cm]) = take k ops" by blast
  have "\<forall>e \<in> set (take k ops). \<not> c e"
    using assms(2) by (auto dest: in_set_takeD)
  from committed_append_none [OF this, of old] assms(1)
  have "committed c (old @ take k ops) = old" by simp
  with whole_append [OF assms(4), of "ops @ [cm]"] k False show ?thesis by simp
qed

text \<open>
  What a client of the log relies on: a log that was cut after any number of bytes
  recovers to the committed part of the entries that are still whole.
\<close>

locale commit_log =
  fixes enc :: "'e \<Rightarrow> bytes"
    and is_commit :: "'e \<Rightarrow> bool"
    and recover :: "bytes \<Rightarrow> 'e list outcome"
  assumes recover_cut:
    "length (concat (map enc es)) < 2 ^ 62 \<Longrightarrow>
       recover (take n (concat (map enc es))) = Ok (committed is_commit (whole enc n es))"
begin

lemma recover_full:
  "length (concat (map enc es)) < 2 ^ 62 \<Longrightarrow>
     recover (concat (map enc es)) = Ok (committed is_commit es)"
  using recover_cut [of es "length (concat (map enc es))"] by (simp add: whole_all)

text \<open>A batch of operations closed by a commit marker is recovered as a whole or not at all.\<close>

lemma batch_atomic:
  assumes "committed is_commit old = old" and "\<forall>e \<in> set ops. \<not> is_commit e" and "is_commit c"
    and "length (concat (map enc (old @ ops @ [c]))) < 2 ^ 62"
    and "length (concat (map enc old)) \<le> n"
  shows "recover (take n (concat (map enc (old @ ops @ [c])))) =
    Ok (if length (concat (map enc (old @ ops @ [c]))) \<le> n then old @ ops @ [c] else old)"
  using recover_cut [OF assms(4), of n] committed_whole_batch [OF assms(1-3,5)] by simp

end

section \<open>The log of the engine\<close>

definition frames :: "prost \<Rightarrow> wal_entry list \<Rightarrow> bytes" where
  "frames P es = concat (map (frame P) es)"

definition is_commit :: "prost \<Rightarrow> wal_entry \<Rightarrow> bool" where
  "is_commit P e \<longleftrightarrow> entry_operation P e = Commit"

definition recovered :: "prost \<Rightarrow> bytes \<Rightarrow> wal_entry list outcome" where
  "recovered P buf = bindO (parse_buffer P buf) (\<lambda>(es, cc, ce). Ok (take cc es))"

lemma frames_simps [simp]:
  "frames P [] = []" "frames P (e # es) = frame P e @ frames P es"
  "frames P (es @ fs) = frames P es @ frames P fs"
  by (simp_all add: frames_def)

lemma length_frame: "length (frame P e) = 8 + length (encode_entry P e)"
  by (simp add: frame_def Let_def)

text \<open>A tail at which the parser stops: less than a length prefix, or less than it announces.\<close>

definition torn :: "bytes \<Rightarrow> bool" where
  "torn bs \<longleftrightarrow>
     length bs < 8
     \<or> length bs < 8 + unat (from_be_bytes (take 8 bs) :: u64)
       \<and> unat (from_be_bytes (take 8 bs) :: u64) < 2 ^ 63"

lemma torn_frame_prefix:
  assumes "n < length (frame P e)" and "length (frame P e) < 2 ^ 63"
  shows "torn (take n (frame P e))"
proof (cases "n < 8")
  case True
  then show ?thesis by (simp add: torn_def min_less_iff_disj)
next
  case False
  let ?bs = "encode_entry P e"
  have "take 8 (take n (frame P e)) = to_be_bytes64 (of_nat (length ?bs))"
    using False by (simp add: frame_def Let_def)
  moreover have "unat (of_nat (length ?bs) :: u64) = length ?bs"
    using assms(2) by (intro unat_of_nat_fits64) (simp add: length_frame)
  ultimately show ?thesis
    using assms by (simp add: torn_def length_frame)
qed

lemma cut_frames:
  assumes "length (frames P es) < 2 ^ 63"
  shows "\<exists>rest. take n (frames P es) = frames P (whole (frame P) n es) @ rest \<and> torn rest"
  using assms
proof (induction es arbitrary: n)
  case Nil
  then show ?case by (simp add: torn_def)
next
  case (Cons e es)
  show ?case
  proof (cases "length (frame P e) \<le> n")
    case True
    with Cons.IH [of "n - length (frame P e)"] Cons.prems show ?thesis by auto
  next
    case False
    with Cons.prems torn_frame_prefix [of n P e] show ?thesis by auto
  qed
qed

lemma parse_loop_torn:
  assumes "torn rest" and "c = length xs" and "length xs < 2 ^ 62"
  shows "parse_loop P (xs @ rest) c es cc ce = Ok (es, cc, ce)"
  using assms by (subst parse_loop.simps) (auto simp: torn_def Let_def)

context prost_codec
begin

lemma parse_loop_step:
  assumes "c = length xs" and "length xs + length (frame P e) < 2 ^ 63"
  shows "parse_loop P (xs @ frame P e @ ys) c es cc ce =
    (if is_commit P e
     then parse_loop P (xs @ frame P e @ ys) (c + length (frame P e)) (es @ [e])
            (length (es @ [e])) (c + length (frame P e))
     else parse_loop P (xs @ frame P e @ ys) (c + length (frame P e)) (es @ [e]) cc ce)"
proof -
  let ?bs = "encode_entry P e"
  let ?buf = "xs @ frame P e @ ys"
  have "unat (of_nat (length ?bs) :: u64) = length ?bs"
    using assms(2) by (intro unat_of_nat_fits64) (simp add: length_frame)
  moreover have "take 8 (drop c ?buf) = to_be_bytes64 (of_nat (length ?bs))"
    "take (length ?bs) (drop (c + 8) ?buf) = ?bs"
    using assms(1) by (simp_all add: frame_def Let_def)
  ultimately show ?thesis
    using assms
    by (subst parse_loop.simps)
      (simp add: Let_def length_frame is_commit_def entry_operation_def ac_simps)
qed

text \<open>The parser passes over whole frames.\<close>

lemma parse_loop_pass:
  assumes "length (frames P (es @ fs)) < 2 ^ 62"
  shows "parse_loop P (frames P es @ frames P fs @ rest) (length (frames P es)) es
      (length (committed (is_commit P) es)) (length (frames P (committed (is_commit P) es)))
    = parse_loop P (frames P (es @ fs) @ rest) (length (frames P (es @ fs))) (es @ fs)
      (length (committed (is_commit P) (es @ fs))) (length (frames P (committed (is_commit P) (es @ fs))))"
  using assms
proof (induction fs arbitrary: es)
  case (Cons e fs)
  have "length (frames P ((es @ [e]) @ fs)) < 2 ^ 62" using Cons.prems by simp
  note IH = Cons.IH [OF this]
  have "parse_loop P (frames P es @ frame P e @ (frames P fs @ rest)) (length (frames P es)) es
      (length (committed (is_commit P) es)) (length (frames P (committed (is_commit P) es)))
    = parse_loop P (frames P (es @ [e]) @ frames P fs @ rest) (length (frames P (es @ [e]))) (es @ [e])
      (length (committed (is_commit P) (es @ [e]))) (length (frames P (committed (is_commit P) (es @ [e]))))"
    using Cons.prems by (subst parse_loop_step) auto
  with IH show ?case by simp
qed simp

lemma parse_buffer_pass:
  "length (frames P es) < 2 ^ 62 \<Longrightarrow> parse_buffer P (frames P es @ rest) =
     parse_loop P (frames P es @ rest) (length (frames P es)) es
       (length (committed (is_commit P) es)) (length (frames P (committed (is_commit P) es)))"
  using parse_loop_pass [of "[]" es rest] by (simp add: parse_buffer_def)

text \<open>
  A length prefix that reaches behind the end of the buffer stops the parser, and the process when
  the end of the entry is beyond the 64 bits of an offset.
\<close>

lemma parse_overlong:
  assumes "length (frames P es) < 2 ^ 62" and "length rest < unat n"
  shows "parse_buffer P (frames P es @ to_be_bytes64 n @ rest) =
    (if 2 ^ 64 \<le> length (frames P es) + 8 + unat n then Panic
     else Ok (es, length (committed (is_commit P) es), length (frames P (committed (is_commit P) es))))"
  unfolding parse_buffer_pass [OF assms(1)] using assms(2) by (subst parse_loop.simps) (simp add: Let_def)

lemma parse_buffer_frames:
  assumes "torn rest" and "length (frames P es) < 2 ^ 62"
  shows "parse_buffer P (frames P es @ rest) =
    Ok (es, length (committed (is_commit P) es), length (frames P (committed (is_commit P) es)))"
  unfolding parse_buffer_pass [OF assms(2)] using assms by (intro parse_loop_torn) simp_all

lemma recovered_cut:
  assumes "length (frames P es) < 2 ^ 62"
  shows "recovered P (take n (frames P es)) = Ok (committed (is_commit P) (whole (frame P) n es))"
proof -
  obtain rest where rest: "take n (frames P es) = frames P (whole (frame P) n es) @ rest" "torn rest"
    using cut_frames [of P es n] assms by auto
  have "length (frames P (whole (frame P) n es)) < 2 ^ 62"
    using arg_cong [OF rest(1), of length] assms by simp
  from parse_buffer_frames [OF rest(2) this] show ?thesis
    by (simp add: recovered_def rest(1) take_length_committed)
qed

end

sublocale prost_codec \<subseteq> log: commit_log "frame P" "is_commit P" "recovered P"
  by unfold_locales (use recovered_cut in \<open>simp add: frames_def\<close>)

section \<open>Operations on the log file\<close>

definition wal_holds :: "wal \<Rightarrow> world \<Rightarrow> bytes \<Rightarrow> bool" where
  "wal_holds l w bs \<longleftrightarrow>
     writable_at w (wal_path l) \<and> contents w (wal_path l) = bs
     \<and> (wal_file l = None \<or> wal_file l = Some (wal_path l) \<and> file_of w (wal_path l) \<noteq> None)"

text \<open>Under any schedule of faults, an append leaves a prefix of its frame at the end of the log.\<close>

lemma wal_writer_any:
  assumes "wal_writer (l, w) = (r, (l', w'))" and "wal_holds l w bs"
  shows "touches (wal_path l) w w'" and "wal_holds l' w' bs" and "wal_path l' = wal_path l"
    and "r \<noteq> Panic" and "r = Ok h \<Longrightarrow> h = wal_path l \<and> file_of w' h = Some bs"
proof -
  obtain r1 w1 where o1: "fs_open True False (wal_path l) w = (r1, w1)" by force
  note o = fs_open_append_any [OF o1]
  have "wal_file l \<noteq> None \<Longrightarrow> r = Ok (wal_path l) \<and> l' = l \<and> w' = w"
    using assms by (auto simp: wal_writer_def wal_holds_def)
  moreover have "wal_file l = None \<Longrightarrow> w' = w1 \<and> (case r1 of
      Ok _ \<Rightarrow> r = Ok (wal_path l) \<and> l' = l\<lparr>wal_file := Some (wal_path l)\<rparr>
    | Err e \<Rightarrow> r = Err e \<and> l' = l | Panic \<Rightarrow> r = Panic)"
    using assms o1 by (auto simp: wal_writer_def bindA_def onW_def split: outcome.splits)
  moreover have "writable_at w1 (wal_path l)"
    using assms(2) touches_writable [OF o(1)] by (simp add: wal_holds_def)
  ultimately show "touches (wal_path l) w w'" "wal_holds l' w' bs" "wal_path l' = wal_path l"
    "r \<noteq> Panic" "r = Ok h \<Longrightarrow> h = wal_path l \<and> file_of w' h = Some bs"
    using assms(2) o
    by (cases "wal_file l"; cases r1; auto simp: wal_holds_def contents_def split: option.splits)+
qed

lemma wal_append_any:
  assumes "wal_append P e (l, w) = (r, (l', w'))" and "wal_holds l w bs"
  shows "touches (wal_path l) w w' \<and> wal_path l' = wal_path l \<and> r \<noteq> Panic
    \<and> (\<exists>n. wal_holds l' w' (bs @ take n (frame P e)) \<and> (r = Ok () \<longrightarrow> length (frame P e) \<le> n))"
proof -
  obtain r1 l1 w1 where o1: "wal_writer (l, w) = (r1, (l1, w1))" using prod_cases3 by blast
  note o = wal_writer_any [OF o1 assms(2)]
  show ?thesis
  proof (cases r1)
    case (Ok h)
    then have h: "h = wal_path l" "file_of w1 h = Some bs" using o(5) by auto
    obtain r2 w2 where o2: "fs_write_all h (frame P e) w1 = (r2, w2)" by force
    from fs_write_all_any [OF this h(2)] obtain n where
      n: "touches h w1 w2" "r2 \<noteq> Panic" "file_of w2 h = Some (bs @ take n (frame P e))"
        "r2 = Ok () \<longrightarrow> length (frame P e) \<le> n" by blast
    have "r = r2" "l' = l1" "w' = w2"
      using assms(1) by (auto simp: wal_append_def Let_def bindA_def o1 Ok onW_def o2)
    moreover have "wal_holds l1 w2 (bs @ take n (frame P e))"
      using o(2,3) n(1,3) touches_writable [OF n(1)] h(1) by (auto simp: wal_holds_def contents_def)
    ultimately show ?thesis using n o(1,3) touches_trans h(1) by blast
  next
    case (Err x)
    then show ?thesis
      using assms(1) o by (auto simp: wal_append_def Let_def bindA_def o1 intro!: exI [of _ 0])
  next
    case Panic
    then show ?thesis using o by simp
  qed
qed

lemma wal_write_commit_split:
  "wal_write_commit P n (l, w) =
     bindA (wal_append P (commit_entry n)) (\<lambda>_. \<lambda>(l, w). onW (fs_sync_all (the (wal_file l))) (l, w)) (l, w)"
  by (auto simp: wal_write_commit_def wal_append_def Let_def bindA_def onW_def wal_writer_def
      split: prod.splits outcome.splits option.splits)

lemma wal_write_commit_any:
  assumes "wal_write_commit P s (l, w) = (r, (l', w'))" and "wal_holds l w bs"
  shows "touches (wal_path l) w w' \<and> wal_path l' = wal_path l \<and> r \<noteq> Panic
    \<and> (\<exists>n. wal_holds l' w' (bs @ take n (frame P (commit_entry s)))
          \<and> (r = Ok () \<longrightarrow> length (frame P (commit_entry s)) \<le> n))"
proof -
  obtain r1 l1 w1 where o1: "wal_append P (commit_entry s) (l, w) = (r1, (l1, w1))"
    using prod_cases3 by blast
  from wal_append_any [OF this assms(2)] obtain n where
    n: "touches (wal_path l) w w1" "wal_path l1 = wal_path l" "r1 \<noteq> Panic"
      "wal_holds l1 w1 (bs @ take n (frame P (commit_entry s)))"
      "r1 = Ok () \<longrightarrow> length (frame P (commit_entry s)) \<le> n" by blast
  obtain r2 w2 where o2: "fs_sync_all (the (wal_file l1)) w1 = (r2, w2)" by force
  note sync = fs_sync_all_any [OF this]
  have hold: "wal_holds l1 (later 1 w1) bs' = wal_holds l1 w1 bs'" for bs'
    by (simp add: wal_holds_def contents_def)
  have t: "touches (wal_path l) w (later 1 w1)"
    using n(1) touches_later touches_trans by blast
  have "l' = l1 \<and> (r1 = Ok () \<and> r = r2 \<and> w' = w2 \<or> (\<exists>e. r1 = Err e \<and> r = Err e \<and> w' = w1))"
    using assms(1) n(3) by (auto simp: wal_write_commit_split bindA_def o1 onW_def o2 split: outcome.splits)
  then show ?thesis using n sync t hold by (auto intro!: exI [of _ n])
qed

text \<open>Without faults the operations succeed.\<close>

lemma wal_append_ok:
  assumes "quiet w" and "wal_holds l w bs"
  shows "\<exists>l' w'. wal_append P e (l, w) = (Ok (), (l', w')) \<and> touches (wal_path l) w w'
    \<and> wal_path l' = wal_path l \<and> wal_holds l' w' (bs @ frame P e)"
proof -
  obtain r l' w' where o: "wal_append P e (l, w) = (r, (l', w'))" using prod_cases3 by blast
  have "r = Ok ()"
    using o assms open_append_quiet [OF assms(1), of "wal_path l"]
    by (cases "wal_file l")
      (auto simp: wal_holds_def wal_append_def wal_writer_def Let_def bindA_def onW_def
        fs_write_all_quiet split: if_splits)
  with wal_append_any [OF o assms(2)] o show ?thesis by auto
qed

lemma wal_write_commit_ok:
  assumes "quiet w" and "wal_holds l w bs"
  shows "\<exists>l' w'. wal_write_commit P s (l, w) = (Ok (), (l', w')) \<and> touches (wal_path l) w w'
    \<and> wal_path l' = wal_path l \<and> wal_holds l' w' (bs @ frame P (commit_entry s))"
proof -
  obtain l1 w1 where o1: "wal_append P (commit_entry s) (l, w) = (Ok (), (l1, w1))" "touches (wal_path l) w w1"
    using wal_append_ok [OF assms] by blast
  have "quiet w1" using touches_quiet o1(2) assms(1) by blast
  then have o: "wal_write_commit P s (l, w) = (Ok (), (l1, later 1 w1))"
    by (simp add: wal_write_commit_split bindA_def o1(1) onW_def fs_sync_all_quiet)
  from wal_write_commit_any [OF o assms(2)] o show ?thesis by auto
qed

lemma wal_clear_ok:
  assumes "quiet w" and "wal_holds l w bs"
  shows "\<exists>l' w'. wal_clear (l, w) = (Ok (), (l', w')) \<and> touches (wal_path l) w w'
    \<and> wal_path l' = wal_path l \<and> wal_holds l' w' []"
proof -
  let ?w = "later 2 (put_file (wal_path l) [] w)"
  have "wal_clear (l, w) = (Ok (), (l\<lparr>wal_file := None\<rparr>, ?w))"
    using assms by (simp add: wal_clear_def bindA_def onW_def wal_holds_def writable_fs_open fs_sync_all_quiet)
  moreover have t: "touches (wal_path l) w ?w"
    using touches_trans [OF touches_put_file touches_later] .
  moreover have "wal_holds (l\<lparr>wal_file := None\<rparr>) ?w []"
    using assms(2) touches_writable [OF t] by (simp add: wal_holds_def contents_def)
  ultimately show ?thesis by auto
qed

text \<open>
  Recovery of a log that ends in a torn tail: the committed entries are returned, and the
  file is cut to their frames.
\<close>

context prost_codec
begin

lemma wal_recovery_ok:
  assumes "quiet w" and "wal_holds l w (frames P es @ rest)" and "torn rest"
    and "length (frames P es) < 2 ^ 62"
  defines "old \<equiv> committed (is_commit P) es"
  shows "\<exists>l' w'. wal_read_for_recovery P (l, w) = (Ok old, (l', w')) \<and> touches (wal_path l) w w'
    \<and> wal_path l' = wal_path l \<and> wal_holds l' w' (frames P old)"
proof (cases "file_of w (wal_path l)")
  case None
  then have "frames P es = []" using assms(2) by (simp add: wal_holds_def contents_def)
  then have "es = []" by (cases es) (simp_all add: length_frame flip: length_0_conv)
  moreover have "\<not> dir_exists w (wal_path l)"
    using assms(2) by (auto simp: wal_holds_def writable_at_def dir_exists_def)
  ultimately show ?thesis
    using assms(1,2) None
    by (intro exI [of _ l] exI [of _ "later 1 w"])
      (simp add: wal_read_for_recovery_def wal_read_file_def bindA_def onW_def fs_exists_quiet
        touches_later old_def wal_holds_def contents_def)
next
  case (Some buf)
  then have buf: "buf = frames P es @ rest" using assms(2) by (simp add: wal_holds_def contents_def)
  have parse: "parse_buffer P buf = Ok (es, length old, length (frames P old))"
    using parse_buffer_frames [OF assms(3,4)] by (simp add: buf old_def)
  obtain more where es: "es = old @ more" using committed_prefix [of es] by (auto simp: old_def)
  have cut: "take (length (frames P old)) buf = frames P old" by (simp add: buf es)
  let ?p = "wal_path l"
  have rd: "wal_read_file ?p w = (Ok (Some buf), later 3 w)"
    using assms(1) Some by (simp add: wal_read_file_def bindA_def fs_exists_quiet fs_open_existing fs_read_to_end_quiet)
  show ?thesis
  proof (cases "length (frames P old) < length buf")
    case True
    let ?w = "later 6 (put_file ?p (frames P old) w)"
    have "wal_read_for_recovery P (l, w) = (Ok old, (l\<lparr>wal_file := None\<rparr>, ?w))"
      using assms(1) Some True cut es
      by (simp add: wal_read_for_recovery_def bindA_def onW_def rd parse fs_open_existing
          fs_set_len_quiet fs_sync_all_quiet)
    moreover have t: "touches ?p w ?w"
      using touches_trans [OF touches_put_file touches_later] .
    moreover have "wal_holds (l\<lparr>wal_file := None\<rparr>) ?w (frames P old)"
      using assms(2) touches_writable [OF t] by (simp add: wal_holds_def contents_def)
    ultimately show ?thesis by auto
  next
    case False
    then have same: "frames P es @ rest = frames P old" by (simp add: buf es)
    have "wal_read_for_recovery P (l, w) = (Ok old, (l, later 3 w))"
      using False es by (simp add: wal_read_for_recovery_def bindA_def onW_def rd parse)
    moreover have "wal_holds l (later 3 w) (frames P old)"
      using assms(2) same by (simp add: wal_holds_def contents_def)
    ultimately show ?thesis by (auto simp: touches_later)
  qed
qed

end

end
