(* ===== verification/Ferrum_Store.thy ===== *)
theory Ferrum_Store
  imports Ferrum_Table Ferrum_Wal
begin

text \<open>
  The table engine, \<open>ferrumdb-core/src/store.rs\<close>: the memtable, the write path through the
  log, opening with recovery, flush and compaction, point reads and range scans, and
  transactions. This theory holds the definitions; \<open>Ferrum_Engine\<close> proves them correct. The
  state of an operation is the \<open>Store\<close> together with the world of files, so that what an
  operation did before it failed is visible. Counters have the width and the wrap-around of
  the release profile.
\<close>

section \<open>State and constants\<close>

definition DEFAULT_MEMTABLE_MAX_BYTES :: u64 where
  "DEFAULT_MEMTABLE_MAX_BYTES = push_bit 20 4"

definition MAX_SSTABLES :: nat where "MAX_SSTABLES = 8"

type_synonym entries = "(bytes \<times> entry) list"

record store =
  st_data :: entries
  memtable_bytes :: u64
  memtable_max_bytes :: u64
  st_wal :: wal
  st_sequence :: u64
  st_dir :: path
  st_sstables :: "sstable list"
  next_sstable_id :: u64
  st_lock :: "path option"

type_synonym 'a store_act = "(store \<times> world, 'a) act"

definition on_wal :: "'a wal_act \<Rightarrow> 'a store_act" where
  "on_wal m = (\<lambda>(s, w). case m (st_wal s, w) of (r, (l, w')) \<Rightarrow> (r, (s\<lparr>st_wal := l\<rparr>, w')))"

definition updS :: "(store \<Rightarrow> store) \<Rightarrow> unit store_act" where
  "updS f = (\<lambda>(s, w). (Ok (), (f s, w)))"

section \<open>The memtable\<close>

definition get_data :: "store \<Rightarrow> entries" where
  "get_data s = st_data s"

definition set_memtable_budget :: "u64 \<Rightarrow> store \<Rightarrow> store" where
  "set_memtable_budget n s = s\<lparr>memtable_max_bytes := n\<rparr>"

fun value_footprint :: "entry \<Rightarrow> nat" where
  "value_footprint (Value (Integer n)) = 4"
| "value_footprint (Value (Float n)) = 8"
| "value_footprint (Value (Boolean b)) = 1"
| "value_footprint (Value (Text s)) = str_len s"
| "value_footprint (Value (Bytes b)) = length b"
| "value_footprint Tombstone = 0"

definition entry_footprint :: "bytes \<Rightarrow> entry \<Rightarrow> u64" where
  "entry_footprint key e = of_nat (length key + value_footprint e)"

definition memtable_insert :: "bytes \<Rightarrow> entry \<Rightarrow> store \<Rightarrow> store" where
  "memtable_insert key e s =
     (let s = s\<lparr>memtable_bytes := memtable_bytes s + entry_footprint key e\<rparr>;
          s = (case bt_get (st_data s) key of
                 Some old \<Rightarrow> s\<lparr>memtable_bytes := memtable_bytes s - entry_footprint key old\<rparr>
               | None \<Rightarrow> s)
      in s\<lparr>st_data := bt_insert key e (st_data s)\<rparr>)"

section \<open>File names\<close>

definition sst_file_name :: "u64 \<Rightarrow> string" where
  "sst_file_name i = ''sstable_'' @ show_nat (unat i) @ ''.sst''"

definition strip_prefix :: "string \<Rightarrow> string \<Rightarrow> string option" where
  "strip_prefix pre s =
     (if take (length pre) s = pre then Some (drop (length pre) s) else None)"

definition strip_suffix :: "string \<Rightarrow> string \<Rightarrow> string option" where
  "strip_suffix suf s =
     (if length suf \<le> length s \<and> drop (length s - length suf) s = suf
      then Some (take (length s - length suf) s) else None)"

definition sstable_id_from_path :: "path \<Rightarrow> u64 option" where
  "sstable_id_from_path p =
     Option.bind (path_file_name p) (\<lambda>name.
     Option.bind (strip_prefix ''sstable_'' name) (\<lambda>s.
     Option.bind (strip_suffix ''.sst'' s) parse_u64))"

section \<open>Opening\<close>

fun open_found :: "path list \<Rightarrow> (world, (u64 \<times> sstable) list) act" where
  "open_found [] = returnA []"
| "open_found (q # qs) =
     bindA (fs_dir_entry q) (\<lambda>p.
       case sstable_id_from_path p of
         None \<Rightarrow> open_found qs
       | Some i \<Rightarrow>
           bindA (sst_open p) (\<lambda>t.
           bindA (open_found qs) (\<lambda>found.
           returnA ((i, t) # found))))"

definition next_id_after :: "(u64 \<times> sstable) list \<Rightarrow> u64" where
  "next_id_after found =
     (case map (\<lambda>(i, t). i + 1) found of [] \<Rightarrow> 1 | x # xs \<Rightarrow> foldl max x xs)"

definition load_sstables :: "unit store_act" where
  "load_sstables = (\<lambda>(s, w).
     case fs_read_dir (st_dir s) w of
       (Err e, w) \<Rightarrow> (Ok (), (s, w))
     | (Panic, w) \<Rightarrow> (Panic, (s, w))
     | (Ok read_dir, w) \<Rightarrow>
         bindA (onW (open_found read_dir)) (\<lambda>found.
           updS (\<lambda>s. s\<lparr>next_sstable_id := next_id_after found,
                       st_sstables := map snd (sort_key (\<lambda>(i, t). - uint i) found)\<rparr>)) (s, w))"

definition replay_entry :: "prost \<Rightarrow> wal_entry \<Rightarrow> (store, unit) act" where
  "replay_entry P e =
     bindA
       (case entry_operation P e of
          Put \<Rightarrow>
            (case we_value e of
               None \<Rightarrow> returnA ()
             | Some msg \<Rightarrow>
                 bindA (liftO (from_proto msg)) (\<lambda>v s.
                   (Ok (), memtable_insert (we_key e) (Value v) s)))
        | Delete \<Rightarrow> (\<lambda>s. (Ok (), memtable_insert (we_key e) Tombstone s))
        | Commit \<Rightarrow> returnA ())
       (\<lambda>_ s. (Ok (), s\<lparr>st_sequence := max (st_sequence s) (we_sequence e)\<rparr>))"

fun replay_entries :: "prost \<Rightarrow> wal_entry list \<Rightarrow> (store, unit) act" where
  "replay_entries P [] = returnA ()"
| "replay_entries P (e # es) = bindA (replay_entry P e) (\<lambda>_. replay_entries P es)"

fun replay_loop :: "prost \<Rightarrow> wal_entry list \<Rightarrow> wal_entry list \<Rightarrow> (store, unit) act" where
  "replay_loop P pending [] = returnA ()"
| "replay_loop P pending (e # es) =
     (case entry_operation P e of
        Commit \<Rightarrow>
          bindA (replay_entries P pending) (\<lambda>_.
          bindA (\<lambda>s. (Ok (), s\<lparr>st_sequence := max (st_sequence s) (we_sequence e)\<rparr>)) (\<lambda>_.
          replay_loop P [] es))
      | _ \<Rightarrow> replay_loop P (pending @ [e]) es)"

definition onS :: "(store, 'a) act \<Rightarrow> 'a store_act" where
  "onS m = (\<lambda>(s, w). case m s of (r, s') \<Rightarrow> (r, (s', w)))"

definition replay_wal :: "prost \<Rightarrow> unit store_act" where
  "replay_wal P =
     bindA (on_wal (wal_read_for_recovery P)) (\<lambda>es. onS (replay_loop P [] es))"

text \<open>Dropping a \<open>Store\<close> closes its lock file, which releases the lock.\<close>

definition drop_store :: "store \<Rightarrow> world \<Rightarrow> world" where
  "drop_store s w = (case st_lock s of None \<Rightarrow> w | Some p \<Rightarrow> fs_unlock p w)"

definition fresh_store :: "path \<Rightarrow> wal \<Rightarrow> path \<Rightarrow> store" where
  "fresh_store d l lock_path =
     \<lparr>st_data = [], memtable_bytes = 0, memtable_max_bytes = DEFAULT_MEMTABLE_MAX_BYTES,
      st_wal = l, st_sequence = 0, st_dir = d, st_sstables = [], next_sstable_id = 1,
      st_lock = Some lock_path\<rparr>"

definition open_path :: "prost \<Rightarrow> path \<Rightarrow> (world, store) act" where
  "open_path P d =
     bindA (fs_create_dir_all d) (\<lambda>_.
     let lock_path = path_join d ''LOCK'' in
     bindA (fs_open True False lock_path) (\<lambda>_.
     bindA (fs_flock lock_path) (\<lambda>locked.
       if \<not> locked
       then failA (IoError (''table is already open: '' @ path_display lock_path))
       else bindA (wal_with_path (path_join d ''wal.log'')) (\<lambda>l w.
         case bindA load_sstables (\<lambda>_. replay_wal P) (fresh_store d l lock_path, w) of
           (Ok _, (s, w')) \<Rightarrow> (Ok s, w')
         | (Err e, (s, w')) \<Rightarrow> (Err e, drop_store s w')
         | (Panic, (s, w')) \<Rightarrow> (Panic, drop_store s w')))))"

definition open_with_dir :: "prost \<Rightarrow> string \<Rightarrow> (world, store) act" where
  "open_with_dir P dir = open_path P (path_of_str dir)"

definition open_table :: "prost \<Rightarrow> string \<Rightarrow> (world, store) act" where
  "open_table P name = open_with_dir P (''./data/'' @ name)"

section \<open>Flush and compaction\<close>

text \<open>
  The loop over tables from the oldest to the newest, shared by compaction and scans: a
  table may be skipped unread, and of a table that is read some keys may be left out.
\<close>

fun merge_layers ::
    "('t \<Rightarrow> ('w, entries) act) \<Rightarrow> ('t \<Rightarrow> bool) \<Rightarrow> (bytes \<Rightarrow> bool) \<Rightarrow> 't list \<Rightarrow> entries
       \<Rightarrow> ('w, entries) act" where
  "merge_layers rd skip keep [] merged = returnA merged"
| "merge_layers rd skip keep (t # ts) merged =
     (if skip t then merge_layers rd skip keep ts merged
      else bindA (rd t) (\<lambda>es.
             merge_layers rd skip keep ts
               (fold (\<lambda>(k, e). bt_insert k e) (filter (\<lambda>(k, e). keep k) es) merged)))"

fun remove_files :: "path list \<Rightarrow> world \<Rightarrow> world" where
  "remove_files [] w = w"
| "remove_files (p # ps) w = remove_files ps (snd (fs_remove_file p w))"

definition is_value :: "entry \<Rightarrow> bool" where
  "is_value e = (case e of Value v \<Rightarrow> True | Tombstone \<Rightarrow> False)"

definition write_merged :: "prost \<Rightarrow> entries \<Rightarrow> unit store_act" where
  "write_merged P merged =
     (if merged = [] then updS (\<lambda>s. s\<lparr>st_sstables := []\<rparr>)
      else (\<lambda>(s, w).
        bindA (onW (sst_flush P (path_join (st_dir s) (sst_file_name (next_sstable_id s))) merged))
          (\<lambda>new_sst. updS (\<lambda>s. s\<lparr>next_sstable_id := next_sstable_id s + 1,
                                 st_sstables := [new_sst]\<rparr>)) (s, w)))"

definition compact :: "prost \<Rightarrow> unit store_act" where
  "compact P = (\<lambda>(s, w).
     if length (st_sstables s) < 2 then (Ok (), (s, w))
     else
       bindA (onW (merge_layers (read_all_entries P) (\<lambda>_. False) (\<lambda>_. True)
                     (rev (st_sstables s)) [])) (\<lambda>merged.
         let merged = filter (\<lambda>(k, e). is_value e) merged;
             old_paths = map sst_path (st_sstables s)
         in bindA (write_merged P merged) (\<lambda>_ (s, w).
              (Ok (), (s, remove_files old_paths w)))) (s, w))"

definition maybe_compact :: "prost \<Rightarrow> unit store_act" where
  "maybe_compact P = (\<lambda>(s, w).
     if MAX_SSTABLES < length (st_sstables s) then compact P (s, w) else (Ok (), (s, w)))"

definition flush :: "prost \<Rightarrow> unit store_act" where
  "flush P = (\<lambda>(s, w).
     if st_data s = [] then (Ok (), (s, w))
     else
       bindA (onW (sst_flush P (path_join (st_dir s) (sst_file_name (next_sstable_id s)))
                     (st_data s))) (\<lambda>sst.
       bindA (updS (\<lambda>s. s\<lparr>next_sstable_id := next_sstable_id s + 1,
                          st_sstables := sst # st_sstables s, st_data := [],
                          memtable_bytes := 0\<rparr>)) (\<lambda>_.
       bindA (on_wal wal_clear) (\<lambda>_.
       maybe_compact P))) (s, w))"

definition maybe_flush :: "prost \<Rightarrow> unit store_act" where
  "maybe_flush P = (\<lambda>(s, w).
     if memtable_max_bytes s \<le> memtable_bytes s then flush P (s, w) else (Ok (), (s, w)))"

section \<open>Point writes and reads\<close>

definition set_value :: "prost \<Rightarrow> bytes \<Rightarrow> db_value \<Rightarrow> string store_act" where
  "set_value P new_key new_value =
     bindA (updS (\<lambda>s. s\<lparr>st_sequence := st_sequence s + 1\<rparr>)) (\<lambda>_ (s, w).
       let seq = st_sequence s; e = create_put_entry new_key new_value seq
       in bindA (on_wal (wal_append P e)) (\<lambda>_.
          bindA (on_wal (wal_write_commit P seq)) (\<lambda>_.
          bindA (updS (memtable_insert new_key (Value new_value))) (\<lambda>_.
          bindA (maybe_flush P) (\<lambda>_.
          returnA ''Inserted value'')))) (s, w))"

definition delete_value :: "prost \<Rightarrow> bytes \<Rightarrow> string store_act" where
  "delete_value P key =
     bindA (updS (\<lambda>s. s\<lparr>st_sequence := st_sequence s + 1\<rparr>)) (\<lambda>_ (s, w).
       let seq = st_sequence s; e = create_delete_entry key seq
       in bindA (on_wal (wal_append P e)) (\<lambda>_.
          bindA (on_wal (wal_write_commit P seq)) (\<lambda>_.
          bindA (updS (memtable_insert key Tombstone)) (\<lambda>_.
          bindA (maybe_flush P) (\<lambda>_.
          returnA ''Deleted value'')))) (s, w))"

text \<open>
  The loop over the tables from the newest to the oldest. A lookup updates the block cache of
  each table it consults.
\<close>

fun lookup_layers ::
    "('t \<times> 'w \<Rightarrow> entry option outcome \<times> ('t \<times> 'w)) \<Rightarrow> 't list \<Rightarrow> 'w
       \<Rightarrow> entry option outcome \<times> ('t list \<times> 'w)" where
  "lookup_layers get [] w = (Ok None, ([], w))"
| "lookup_layers get (t # ts) w =
     (case get (t, w) of
        (Ok None, (t', w')) \<Rightarrow>
          (case lookup_layers get ts w' of (r, (ts', w'')) \<Rightarrow> (r, (t' # ts', w'')))
      | (r, (t', w')) \<Rightarrow> (r, (t' # ts, w')))"

fun value_of_entry :: "entry option \<Rightarrow> db_value option" where
  "value_of_entry (Some (Value v)) = Some v"
| "value_of_entry (Some Tombstone) = None"
| "value_of_entry None = None"

definition get_value :: "prost \<Rightarrow> bytes \<Rightarrow> db_value option store_act" where
  "get_value P key = (\<lambda>(s, w).
     case bt_get (st_data s) key of
       Some (Value v) \<Rightarrow> (Ok (Some v), (s, w))
     | Some Tombstone \<Rightarrow> (Ok None, (s, w))
     | None \<Rightarrow>
         (case lookup_layers (sst_get P key) (st_sstables s) w of
            (r, (ts, w')) \<Rightarrow>
              (bindO r (\<lambda>e. Ok (value_of_entry e)), (s\<lparr>st_sstables := ts\<rparr>, w'))))"

section \<open>Range scans\<close>

datatype bound = Included bytes | Excluded bytes | Unbounded

definition in_bounds :: "bytes \<Rightarrow> bound \<Rightarrow> bound \<Rightarrow> bool" where
  "in_bounds key lo hi =
     ((case lo of Unbounded \<Rightarrow> True | Included b \<Rightarrow> b \<le> key | Excluded b \<Rightarrow> b < key)
      \<and> (case hi of Unbounded \<Rightarrow> True | Included b \<Rightarrow> key \<le> b | Excluded b \<Rightarrow> key < b))"

definition range_overlaps :: "bytes \<Rightarrow> bytes \<Rightarrow> bound \<Rightarrow> bound \<Rightarrow> bool" where
  "range_overlaps mn mx lo hi =
     (\<not> (case lo of Unbounded \<Rightarrow> False | Included b \<Rightarrow> mx < b | Excluded b \<Rightarrow> mx \<le> b)
      \<and> \<not> (case hi of Unbounded \<Rightarrow> False | Included b \<Rightarrow> b < mn | Excluded b \<Rightarrow> b \<le> mn))"

text \<open>
  \<open>BTreeMap::range\<close> panics when the range starts after it ends, or starts and ends at the
  same excluded key; the empty map, which has no root node, returns before it looks.
\<close>

definition range_panics :: "bound \<Rightarrow> bound \<Rightarrow> bool" where
  "range_panics lo hi =
     (case (lo, hi) of
        (Excluded a, Excluded b) \<Rightarrow> b \<le> a
      | (Included a, Included b) \<Rightarrow> b < a
      | (Included a, Excluded b) \<Rightarrow> b < a
      | (Excluded a, Included b) \<Rightarrow> b < a
      | _ \<Rightarrow> False)"

definition bt_range :: "bound \<Rightarrow> bound \<Rightarrow> entries \<Rightarrow> entries outcome" where
  "bt_range lo hi m =
     (if m \<noteq> [] \<and> range_panics lo hi then Panic
      else Ok (filter (\<lambda>(k, e). in_bounds k lo hi) m))"

definition scan_skips :: "bound \<Rightarrow> bound \<Rightarrow> sstable \<Rightarrow> bool" where
  "scan_skips lo hi t =
     (case key_range t of None \<Rightarrow> False | Some (mn, mx) \<Rightarrow> \<not> range_overlaps mn mx lo hi)"

definition live_pairs :: "entries \<Rightarrow> (bytes \<times> db_value) list" where
  "live_pairs m =
     List.map_filter (\<lambda>(k, e). case e of Value v \<Rightarrow> Some (k, v) | Tombstone \<Rightarrow> None) m"

definition scan_range :: "prost \<Rightarrow> bound \<Rightarrow> bound \<Rightarrow> (bytes \<times> db_value) list store_act" where
  "scan_range P lo hi = (\<lambda>(s, w).
     bindA (onW (merge_layers (read_all_entries P) (scan_skips lo hi) (\<lambda>k. in_bounds k lo hi)
                   (rev (st_sstables s)) [])) (\<lambda>merged.
     bindA (liftO (bt_range lo hi (st_data s))) (\<lambda>mem.
     returnA (live_pairs (fold (\<lambda>(k, e). bt_insert k e) mem merged)))) (s, w))"

section \<open>Transactions\<close>

record transaction =
  tx_store :: store
  tx_pending :: "(bytes \<times> db_value option) list"

definition begin_transaction :: "store \<Rightarrow> transaction" where
  "begin_transaction s = \<lparr>tx_store = s, tx_pending = []\<rparr>"

definition tx_set_value :: "bytes \<Rightarrow> db_value \<Rightarrow> transaction \<Rightarrow> transaction" where
  "tx_set_value key v t = t\<lparr>tx_pending := bt_insert key (Some v) (tx_pending t)\<rparr>"

definition tx_delete_value :: "bytes \<Rightarrow> transaction \<Rightarrow> transaction" where
  "tx_delete_value key t = t\<lparr>tx_pending := bt_insert key None (tx_pending t)\<rparr>"

definition tx_get_value :: "prost \<Rightarrow> bytes \<Rightarrow> (transaction \<times> world, db_value option) act" where
  "tx_get_value P key = (\<lambda>(t, w).
     case bt_get (tx_pending t) key of
       Some (Some v) \<Rightarrow> (Ok (Some v), (t, w))
     | Some None \<Rightarrow> (Ok None, (t, w))
     | None \<Rightarrow>
         (case get_value P key (tx_store t, w) of
            (r, (s, w')) \<Rightarrow> (r, (t\<lparr>tx_store := s\<rparr>, w'))))"

definition pending_entry :: "bytes \<Rightarrow> db_value option \<Rightarrow> u64 \<Rightarrow> wal_entry" where
  "pending_entry key val seq =
     (case val of Some v \<Rightarrow> create_put_entry key v seq | None \<Rightarrow> create_delete_entry key seq)"

fun append_pending :: "prost \<Rightarrow> (bytes \<times> db_value option) list \<Rightarrow> unit store_act" where
  "append_pending P [] = returnA ()"
| "append_pending P ((key, val) # ps) =
     bindA (updS (\<lambda>s. s\<lparr>st_sequence := st_sequence s + 1\<rparr>)) (\<lambda>_ (s, w).
       bindA (on_wal (wal_append P (pending_entry key val (st_sequence s)))) (\<lambda>_.
       append_pending P ps) (s, w))"

definition pending_apply :: "bytes \<times> db_value option \<Rightarrow> store \<Rightarrow> store" where
  "pending_apply = (\<lambda>(key, val).
     case val of
       Some v \<Rightarrow> memtable_insert key (Value v)
     | None \<Rightarrow> memtable_insert key Tombstone)"

text \<open>\<open>commit\<close> and \<open>rollback\<close> consume the transaction; what is left is the store.\<close>

definition tx_commit :: "prost \<Rightarrow> transaction \<Rightarrow> world \<Rightarrow> unit outcome \<times> (store \<times> world)" where
  "tx_commit P t w =
     (if tx_pending t = [] then (Ok (), (tx_store t, w))
      else
        bindA (append_pending P (tx_pending t)) (\<lambda>_.
        bindA (\<lambda>(s, w). on_wal (wal_write_commit P (st_sequence s)) (s, w)) (\<lambda>_.
        bindA (updS (fold pending_apply (tx_pending t))) (\<lambda>_.
        maybe_flush P))) (tx_store t, w))"

definition tx_rollback :: "transaction \<Rightarrow> store" where
  "tx_rollback t = tx_store t"

end
