(* ===== verification/Ferrum_Layers.thy ===== *)
theory Ferrum_Layers
  imports Ferrum_Store
begin

text \<open>
  What the store relies on from its tables, as the locale \<open>table_layer\<close>: a table represents
  sorted entries, a lookup returns the entry of the key, a bulk read returns all entries, the
  key range covers every key, and neither changes what any table represents. The loops of the
  store over its tables are proved correct inside the locale, once for point reads, once for
  the merge that compaction and scans share; \<open>SsTable\<close> is its instance.
\<close>

section \<open>Merging sorted entries\<close>

lemma fold_bt_insert:
  assumes "bt_sorted m" and "bt_sorted es"
  shows "bt_sorted (fold (\<lambda>(k, e). bt_insert k e) es m)"
    and "map_of (fold (\<lambda>(k, e). bt_insert k e) es m) = map_of m ++ map_of es"
  using btree.invar_inserts [OF assms(1), of es] btree.lookup_inserts [OF assms(1), of es]
    map_of_rev_distinct [OF bt_sorted_distinct [OF assms(2)]]
  by simp_all

lemma set_bt_insert: "set (bt_insert k v m) \<subseteq> insert (k, v) (set m)"
  by (induction k v m rule: bt_insert.induct) auto

lemma set_fold_bt_insert: "set (fold (\<lambda>(k, e). bt_insert k e) es m) \<subseteq> set es \<union> set m"
proof (induction es arbitrary: m)
  case (Cons p es)
  obtain k e where p: "p = (k, e)" by force
  have "set (fold (\<lambda>(k, e). bt_insert k e) es (bt_insert k e m)) \<subseteq> set es \<union> insert (k, e) (set m)"
    using Cons [of "bt_insert k e m"] set_bt_insert [of k e m] by blast
  then show ?case by (auto simp: p)
qed simp

lemma map_of_filter_key:
  "map_of (filter (\<lambda>(k, e). q k) es) = map_of es |` {k. q k}"
  by (induction es) (auto simp: fun_eq_iff restrict_map_def)

section \<open>Tables as layers\<close>

locale table_layer =
  fixes rep :: "'w \<Rightarrow> 't \<Rightarrow> entries \<Rightarrow> bool"
    and get :: "bytes \<Rightarrow> 't \<times> 'w \<Rightarrow> entry option outcome \<times> ('t \<times> 'w)"
    and rd :: "'t \<Rightarrow> ('w, entries) act"
    and span :: "'t \<Rightarrow> (bytes \<times> bytes) option"
    and name :: "'t \<Rightarrow> path"
    and calm :: "'w \<Rightarrow> bool"
    and same :: "'w \<Rightarrow> 'w \<Rightarrow> bool"
  assumes same_refl: "same w w"
    and same_trans: "same u v \<Longrightarrow> same v w \<Longrightarrow> same u w"
    and same_calm: "same v w \<Longrightarrow> calm v \<Longrightarrow> calm w"
    and same_rep: "same v w \<Longrightarrow> rep w t es \<longleftrightarrow> rep v t es"
    and rep_sorted: "rep w t es \<Longrightarrow> bt_sorted es"
    and get_law: "calm w \<Longrightarrow> rep w t es \<Longrightarrow>
      \<exists>t' w'. get key (t, w) = (Ok (map_of es key), (t', w')) \<and> rep w t' es \<and> name t' = name t \<and> same w w'"
    and rd_law: "calm w \<Longrightarrow> rep w t es \<Longrightarrow> \<exists>w'. rd t w = (Ok es, w') \<and> same w w'"
    and span_law: "rep w t es \<Longrightarrow> span t = Some (mn, mx) \<Longrightarrow> (k, e) \<in> set es \<Longrightarrow> mn \<le> k \<and> k \<le> mx"
begin

text \<open>The first table that has the key decides; the tables still represent what they did.\<close>

lemma lookup_layers_ok:
  assumes "calm w" and "list_all2 (rep w) ts ess"
  shows "\<exists>ts' w'. lookup_layers (get key) ts w = (Ok (map_of (concat ess) key), (ts', w'))
    \<and> list_all2 (rep w) ts' ess \<and> map name ts' = map name ts \<and> same w w'"
  using assms
proof (induction ts arbitrary: ess w)
  case Nil
  then show ?case by (simp add: same_refl)
next
  case (Cons t ts)
  from Cons.prems(2) obtain es ess' where ess: "ess = es # ess'" "rep w t es" "list_all2 (rep w) ts ess'"
    by (auto simp: list_all2_Cons1)
  obtain t' w1 where g: "get key (t, w) = (Ok (map_of es key), (t', w1))"
      "rep w t' es" "name t' = name t" "same w w1"
    using get_law [OF Cons.prems(1) ess(2), of key] by blast
  show ?case
  proof (cases "map_of es key")
    case (Some e)
    then show ?thesis
      using g ess by (intro exI [of _ "t' # ts"] exI [of _ w1]) (simp add: map_add_def)
  next
    case None
    have "list_all2 (rep w1) ts ess'"
      using ess(3) by (rule list_all2_mono) (simp add: same_rep [OF g(4)])
    from Cons.IH [OF same_calm [OF g(4) Cons.prems(1)] this] obtain ts' w2
      where l: "lookup_layers (get key) ts w1 = (Ok (map_of (concat ess') key), (ts', w2))"
        "list_all2 (rep w1) ts' ess'" "map name ts' = map name ts" "same w1 w2" by blast
    have "list_all2 (rep w) ts' ess'"
      using l(2) by (rule list_all2_mono) (simp add: same_rep [OF g(4)])
    moreover have "same w w2" using same_trans g(4) l(4) by blast
    ultimately show ?thesis
      using None g l ess
      by (intro exI [of _ "t' # ts'"] exI [of _ w2]) (simp add: map_add_def split: option.splits)
  qed
qed

text \<open>
  Merging the tables from the oldest to the newest gives, for every kept key, the entry of
  the newest table that has it, whatever tables without such a key were skipped.
\<close>

lemma merge_layers_ok:
  assumes "calm w" and "list_all2 (rep w) ts ess" and "bt_sorted m"
    and "\<forall>t es k e. skip t \<longrightarrow> rep w t es \<longrightarrow> (k, e) \<in> set es \<longrightarrow> \<not> keep k"
  shows "\<exists>m' w'. merge_layers rd skip keep ts m w = (Ok m', w') \<and> same w w' \<and> bt_sorted m'
    \<and> map_of m' = map_of m ++ (map_of (concat (rev ess)) |` {k. keep k})
    \<and> set m' \<subseteq> set m \<union> set (concat ess)"
  using assms
proof (induction ts arbitrary: ess w m)
  case Nil
  then show ?case by (simp add: same_refl)
next
  case (Cons t ts)
  from Cons.prems(2) obtain es ess' where ess: "ess = es # ess'" "rep w t es" "list_all2 (rep w) ts ess'"
    by (auto simp: list_all2_Cons1)
  let ?es = "filter (\<lambda>(k, e). keep k) es"
  let ?m = "fold (\<lambda>(k, e). bt_insert k e) ?es m"
  have sorted: "bt_sorted ?es" using rep_sorted [OF ess(2)] by (rule bt_sorted_filter)
  have split: "map_of (concat (rev ess)) |` {k. keep k}
      = (map_of es |` {k. keep k}) ++ (map_of (concat (rev ess')) |` {k. keep k})"
    by (auto simp: ess(1) map_add_def restrict_map_def fun_eq_iff split: option.splits)
  show ?case
  proof (cases "skip t")
    case True
    have "?es = []" using Cons.prems(4) True ess(2) by (auto simp: filter_empty_conv)
    then have none: "map_of es |` {k. keep k} = Map.empty"
      using map_of_filter_key [of keep es] by simp
    from Cons.IH [OF Cons.prems(1) ess(3) Cons.prems(3,4)] obtain m' w'
      where "merge_layers rd skip keep ts m w = (Ok m', w')" "same w w'" "bt_sorted m'"
        "map_of m' = map_of m ++ (map_of (concat (rev ess')) |` {k. keep k})"
        "set m' \<subseteq> set m \<union> set (concat ess')" by blast
    then show ?thesis
      unfolding split none
      by (intro exI [of _ m'] exI [of _ w']) (use True ess(1) in auto)
  next
    case False
    obtain w1 where r: "rd t w = (Ok es, w1)" "same w w1"
      using rd_law [OF Cons.prems(1) ess(2)] by blast
    have ts: "list_all2 (rep w1) ts ess'"
      using ess(3) by (rule list_all2_mono) (simp add: same_rep [OF r(2)])
    have skip: "\<forall>t es k e. skip t \<longrightarrow> rep w1 t es \<longrightarrow> (k, e) \<in> set es \<longrightarrow> \<not> keep k"
      using Cons.prems(4) same_rep [OF r(2)] by blast
    from Cons.IH [OF same_calm [OF r(2) Cons.prems(1)] ts fold_bt_insert(1) [OF Cons.prems(3) sorted] skip]
    obtain m' w' where m': "merge_layers rd skip keep ts ?m w1 = (Ok m', w')" "same w1 w'" "bt_sorted m'"
        "map_of m' = map_of ?m ++ (map_of (concat (rev ess')) |` {k. keep k})"
        "set m' \<subseteq> set ?m \<union> set (concat ess')" by blast
    have "map_of ?m = map_of m ++ (map_of es |` {k. keep k})"
      using fold_bt_insert(2) [OF Cons.prems(3) sorted] by (simp add: map_of_filter_key)
    moreover have "set ?m \<subseteq> set es \<union> set m" using set_fold_bt_insert [of ?es m] by auto
    moreover have "same w w'" using same_trans r(2) m'(2) by blast
    ultimately show ?thesis
      unfolding split using m' False r ess(1)
      by (intro exI [of _ m'] exI [of _ w']) (auto simp: bindA_def)
  qed
qed

end

text \<open>The tables of the engine.\<close>

lemma key_range_covers:
  assumes "represents P w t es" and "key_range t = Some (mn, mx)" and "(k, e) \<in> set es"
  shows "mn \<le> k \<and> k \<le> mx"
proof -
  have "bt_sorted es" using assms(1) by (simp add: represents_def)
  with assms show ?thesis
    using bt_sorted_hd_le [of es "(k, e)"] bt_sorted_le_last [of es "(k, e)"]
    by (auto simp: key_range_def represents_fields [OF assms(1)] first_key_of_def last_key_of_def
        split: option.splits if_splits)
qed

sublocale prost_codec \<subseteq> layers: table_layer "represents P" "sst_get P" "read_all_entries P"
    key_range sst_path quiet "\<lambda>w w'. \<exists>n. w' = later n w"
proof unfold_locales
  show "\<exists>n. w = later n w" for w :: world by (intro exI [of _ 0]) simp
  show "\<exists>n. w = later n u" if "\<exists>n. v = later n u" "\<exists>n. w = later n v" for u v w :: world
    using that by auto
  show "quiet w" if "\<exists>n. w = later n v" "quiet v" for v w using that by auto
  show "represents P w t es \<longleftrightarrow> represents P v t es" if "\<exists>n. w = later n v" for v w t es
    using that by auto
  show "bt_sorted es" if "represents P w t es" for w t es
    using that by (simp add: represents_def)
  show "\<exists>t' w'. sst_get P key (t, w) = (Ok (map_of es key), (t', w')) \<and> represents P w t' es
      \<and> sst_path t' = sst_path t \<and> (\<exists>n. w' = later n w)"
    if "quiet w" "represents P w t es" for w t es key
    using sst_get_ok [OF that, of key] by blast
  show "\<exists>w'. read_all_entries P t w = (Ok es, w') \<and> (\<exists>n. w' = later n w)"
    if "quiet w" "represents P w t es" for w t es
    using read_all_entries_ok [OF that] by blast
  show "mn \<le> k \<and> k \<le> mx"
    if "represents P w t es" "key_range t = Some (mn, mx)" "(k, e) \<in> set es" for w t es mn mx k e
    using key_range_covers [OF that] .
qed

end
