(* ===== verification/Ferrum_Recovery.thy ===== *)
theory Ferrum_Recovery
  imports Ferrum_Layers
begin

text \<open>
  Recovery: what a table directory holds (tables by id, and a log with a possibly torn tail),
  what replaying a log does to the memtable, the invariant of an open store, and that opening
  a directory yields a store that satisfies it. This theory covers \<open>load_sstables\<close>,
  \<open>replay_wal\<close> and \<open>open_with_dir\<close> of \<open>ferrumdb-core/src/store.rs\<close>.
\<close>

section \<open>The memtable\<close>

definition footprints :: "entries \<Rightarrow> u64" where
  "footprints m = sum_list (map (\<lambda>(k, e). entry_footprint k e) m)"

lemma footprints_simps [simp]:
  "footprints [] = 0" "footprints ((k, e) # m) = entry_footprint k e + footprints m"
  by (simp_all add: footprints_def)

lemma footprints_bt_insert:
  "bt_sorted m \<Longrightarrow>
     footprints (bt_insert k e m) =
       footprints m + entry_footprint k e
         - (case map_of m k of None \<Rightarrow> 0 | Some old \<Rightarrow> entry_footprint k old)"
proof (induction k e m rule: bt_insert.induct)
  case (2 k v a b m)
  have "map_of m k = None" if "k < a"
    using that 2(2) by (force simp: map_of_eq_None_iff)
  then show ?case using 2 by (auto split: option.splits)
qed simp

lemma memtable_insert_fields [simp]:
  "st_data (memtable_insert k e s) = bt_insert k e (st_data s)"
  "memtable_max_bytes (memtable_insert k e s) = memtable_max_bytes s"
  "st_wal (memtable_insert k e s) = st_wal s" "st_sequence (memtable_insert k e s) = st_sequence s"
  "st_dir (memtable_insert k e s) = st_dir s" "st_sstables (memtable_insert k e s) = st_sstables s"
  "next_sstable_id (memtable_insert k e s) = next_sstable_id s"
  "st_lock (memtable_insert k e s) = st_lock s"
  by (simp_all add: memtable_insert_def Let_def split: option.splits)

lemma memtable_insert_sequence:
  "memtable_insert k e (s\<lparr>st_sequence := n\<rparr>) = (memtable_insert k e s)\<lparr>st_sequence := n\<rparr>"
  by (simp add: memtable_insert_def Let_def split: option.splits)

lemma memtable_insert_wal:
  "memtable_insert k e (s\<lparr>st_wal := l\<rparr>) = (memtable_insert k e s)\<lparr>st_wal := l\<rparr>"
  by (simp add: memtable_insert_def Let_def split: option.splits)

lemma memtable_insert_bytes:
  assumes "bt_sorted (st_data s)" and "memtable_bytes s = footprints (st_data s)"
  shows "memtable_bytes (memtable_insert k e s) = footprints (st_data (memtable_insert k e s))"
  using assms by (simp add: footprints_bt_insert) (simp add: memtable_insert_def Let_def split: option.splits)

definition mem_inv :: "store \<Rightarrow> bool" where
  "mem_inv s \<longleftrightarrow> bt_sorted (st_data s) \<and> memtable_bytes s = footprints (st_data s)"

abbreviation insert_all :: "entries \<Rightarrow> store \<Rightarrow> store" where
  "insert_all \<equiv> fold (\<lambda>(k, e). memtable_insert k e)"

lemma mem_inv_insert: "mem_inv s \<Longrightarrow> mem_inv (memtable_insert k e s)"
  using memtable_insert_bytes [of s k e] by (simp add: mem_inv_def bt_sorted_insert)

lemma mem_inv_insert_all: "mem_inv s \<Longrightarrow> mem_inv (insert_all ops s)"
  by (induction ops arbitrary: s) (auto intro: mem_inv_insert)

lemma insert_all_fields [simp]:
  "st_data (insert_all ops s) = fold (\<lambda>(k, e). bt_insert k e) ops (st_data s)"
  "memtable_max_bytes (insert_all ops s) = memtable_max_bytes s"
  "st_wal (insert_all ops s) = st_wal s" "st_sequence (insert_all ops s) = st_sequence s"
  "st_dir (insert_all ops s) = st_dir s" "st_sstables (insert_all ops s) = st_sstables s"
  "next_sstable_id (insert_all ops s) = next_sstable_id s"
  "st_lock (insert_all ops s) = st_lock s"
  by (induction ops arbitrary: s) auto

lemma insert_all_sequence: "insert_all ops (s\<lparr>st_sequence := n\<rparr>) = (insert_all ops s)\<lparr>st_sequence := n\<rparr>"
  by (induction ops arbitrary: s) (auto simp: memtable_insert_sequence)

lemma insert_all_wal: "insert_all ops (s\<lparr>st_wal := l\<rparr>) = (insert_all ops s)\<lparr>st_wal := l\<rparr>"
  by (induction ops arbitrary: s) (auto simp: memtable_insert_wal)

section \<open>What a log says\<close>

text \<open>The memtable operations that an entry of the log stands for.\<close>

definition log_op :: "prost \<Rightarrow> wal_entry \<Rightarrow> entries" where
  "log_op P e =
     (case entry_operation P e of
        Put \<Rightarrow>
          (case we_value e of
             None \<Rightarrow> []
           | Some msg \<Rightarrow> (case from_proto msg of Ok v \<Rightarrow> [(we_key e, Value v)] | _ \<Rightarrow> []))
      | Delete \<Rightarrow> [(we_key e, Tombstone)]
      | Commit \<Rightarrow> [])"

definition log_ops :: "prost \<Rightarrow> wal_entry list \<Rightarrow> entries" where
  "log_ops P es = concat (map (log_op P) es)"

definition log_ok :: "prost \<Rightarrow> wal_entry \<Rightarrow> bool" where
  "log_ok P e \<longleftrightarrow>
     (entry_operation P e = Put \<longrightarrow>
        (case we_value e of None \<Rightarrow> True | Some msg \<Rightarrow> \<exists>v. from_proto msg = Ok v))"

definition log_data :: "prost \<Rightarrow> wal_entry list \<Rightarrow> entries" where
  "log_data P es = fold (\<lambda>(k, e). bt_insert k e) (log_ops P es) []"

definition log_sequence :: "u64 \<Rightarrow> wal_entry list \<Rightarrow> u64" where
  "log_sequence n es = fold max (map we_sequence es) n"

lemma log_ops_simps [simp]:
  "log_ops P [] = []" "log_ops P (e # es) = log_op P e @ log_ops P es"
  "log_ops P (es @ fs) = log_ops P es @ log_ops P fs"
  by (simp_all add: log_ops_def)

lemma log_sequence_simps [simp]:
  "log_sequence n [] = n" "log_sequence n (e # es) = log_sequence (max (we_sequence e) n) es"
  "log_sequence n (es @ fs) = log_sequence (log_sequence n es) fs"
  by (simp_all add: log_sequence_def)

lemma log_data_sorted: "bt_sorted (log_data P es)"
  using btree.invar_inserts [of "[]" "log_ops P es"] by (simp add: log_data_def)

text \<open>The effect of replaying entries that are all committed.\<close>

definition replayed :: "prost \<Rightarrow> wal_entry list \<Rightarrow> store \<Rightarrow> store" where
  "replayed P es s = (insert_all (log_ops P es) s)\<lparr>st_sequence := log_sequence (st_sequence s) es\<rparr>"

lemma replayed_append: "replayed P (es @ fs) s = replayed P fs (replayed P es s)"
  by (simp add: replayed_def insert_all_sequence)

lemma replay_entry_ok:
  assumes "log_ok P e"
  shows "replay_entry P e s = (Ok (), replayed P [e] s)"
  using assms
  by (auto simp: replay_entry_def replayed_def log_ok_def log_op_def bindA_def max.commute
      split: operation.splits option.splits)

lemma replay_entries_ok:
  "list_all (log_ok P) es \<Longrightarrow> replay_entries P es s = (Ok (), replayed P es s)"
proof (induction es arbitrary: s)
  case Nil
  then show ?case by (simp add: replayed_def)
next
  case (Cons e es)
  then show ?case
    using replayed_append [of P "[e]" es s] by (simp add: bindA_def replay_entry_ok)
qed

lemma commit_no_ops: "is_commit P e \<Longrightarrow> log_op P e = []"
  by (simp add: is_commit_def log_op_def)

lemma replay_loop_pending:
  assumes "list_all (log_ok P) (pending @ es)" and "pending @ es = [] \<or> is_commit P (last (pending @ es))"
    and "\<forall>e \<in> set pending. \<not> is_commit P e"
  shows "replay_loop P pending es s = (Ok (), replayed P (pending @ es) s)"
  using assms
proof (induction es arbitrary: pending s)
  case Nil
  then have "pending = []" by (metis append_Nil2 last_in_set)
  then show ?case by (simp add: replayed_def)
next
  case (Cons e es)
  show ?case
  proof (cases "is_commit P e")
    case True
    have "es = [] \<or> is_commit P (last es)" using Cons.prems(2) by (cases es) auto
    then have "replay_loop P [] es s' = (Ok (), replayed P es s')" for s'
      using Cons.IH [of "[]" s'] Cons.prems(1) by simp
    moreover have "replayed P [e] s' = s'\<lparr>st_sequence := max (st_sequence s') (we_sequence e)\<rparr>" for s'
      using commit_no_ops [OF True] by (simp add: replayed_def max.commute)
    moreover have "replayed P (pending @ e # es) s = replayed P es (replayed P [e] (replayed P pending s))"
      using replayed_append [of P pending "e # es" s] replayed_append [of P "[e]" es "replayed P pending s"] by simp
    ultimately show ?thesis
      using True Cons.prems(1) by (simp add: is_commit_def bindA_def replay_entries_ok)
  next
    case False
    with Cons.IH [of "pending @ [e]" s] Cons.prems show ?thesis
      by (auto simp: is_commit_def split: operation.splits)
  qed
qed

lemma committed_eq_iff: "committed c es = es \<longleftrightarrow> es = [] \<or> c (last es)"
proof (cases es rule: rev_cases)
  case (snoc xs x)
  have "length (committed c xs) \<le> length xs"
    by (metis committed_prefix length_append le_add1)
  then show ?thesis using snoc by (auto dest: arg_cong [of _ _ length])
qed simp

lemma replay_loop_committed:
  assumes "list_all (log_ok P) log" and "committed (is_commit P) log = log"
  shows "replay_loop P [] log s = (Ok (), replayed P log s)"
  using replay_loop_pending [of P "[]" log s] assms by (simp add: committed_eq_iff)

section \<open>File names\<close>

lemma strip_prefix_append [simp]: "strip_prefix pre (pre @ s) = Some s"
  by (simp add: strip_prefix_def)

lemma strip_suffix_append [simp]: "strip_suffix suf (s @ suf) = Some s"
  by (simp add: strip_suffix_def)

lemma sst_file_name_no_slash: "CHR ''/'' \<notin> set (sst_file_name i)"
proof -
  have "CHR ''/'' \<noteq> digit_char n" if "n < 10" for n
    using that by (auto simp: digit_char_def dest!: arg_cong [of _ _ "of_char :: char \<Rightarrow> nat"])
  then show ?thesis
    using show_nat_digits [of "CHR ''/''" "unat i"] by (auto simp: sst_file_name_def)
qed

lemma path_join_sst [simp]: "path_join d (sst_file_name i) = d @ [sst_file_name i]"
  using sst_file_name_no_slash by (intro path_join_plain) (auto simp: sst_file_name_def)

lemma path_join_LOCK [simp]: "path_join d ''LOCK'' = d @ [''LOCK'']"
  and path_join_wal [simp]: "path_join d ''wal.log'' = d @ [''wal.log'']"
  by (intro path_join_plain; simp)+

lemma id_of_sst_path [simp]: "sstable_id_from_path (d @ [sst_file_name i]) = Some i"
proof -
  have "path_file_name (d @ [sst_file_name i]) = Some (''sstable_'' @ show_nat (unat i) @ ''.sst'')"
    by (simp add: path_file_name_def sst_file_name_def)
  moreover have "strip_prefix ''sstable_'' (''sstable_'' @ show_nat (unat i) @ ''.sst'')
      = Some (show_nat (unat i) @ ''.sst'')"
    by (rule strip_prefix_append)
  moreover have "strip_suffix ''.sst'' (show_nat (unat i) @ ''.sst'') = Some (show_nat (unat i))"
    by (rule strip_suffix_append)
  ultimately show ?thesis by (simp add: sstable_id_from_path_def parse_u64_show_unat)
qed

lemma id_of_other_paths [simp]:
  "sstable_id_from_path (d @ [''wal.log'']) = None" "sstable_id_from_path (d @ [''LOCK'']) = None"
  by (simp_all add: sstable_id_from_path_def path_file_name_def strip_prefix_def)

lemma sst_file_name_inj: "sst_file_name i = sst_file_name j \<longleftrightarrow> i = j"
  by (metis id_of_sst_path option.inject)

lemma sst_file_name_other [simp]:
  "sst_file_name i \<noteq> ''wal.log''" "sst_file_name i \<noteq> ''LOCK''"
  "''wal.log'' \<noteq> sst_file_name i" "''LOCK'' \<noteq> sst_file_name i"
  by (simp_all add: sst_file_name_def)

lemma log_is_no_table:
  assumes "map sst_path ts = map (\<lambda>i. d @ [sst_file_name i]) ids"
  shows "d @ [''wal.log''] \<notin> sst_path ` set ts"
  using arg_cong [OF assms, of set] by auto

section \<open>What a directory holds\<close>

text \<open>
  The tables \<open>ids\<close>, newest first, with their contents \<open>ess\<close>; nothing else in the directory
  is named like a table.
\<close>

definition dir_holds :: "prost \<Rightarrow> world \<Rightarrow> path \<Rightarrow> u64 list \<Rightarrow> entries list \<Rightarrow> bool" where
  "dir_holds P w d ids ess \<longleftrightarrow>
     fs_wf w \<and> sorted_wrt (>) ids \<and> list_all (\<lambda>i. unat i + 1 < 2 ^ 64) ids
     \<and> list_all2 (\<lambda>i es. bt_sorted es \<and> table_fits P es
          \<and> file_of w (d @ [sst_file_name i]) = Some (sst_image P es)) ids ess
     \<and> (\<forall>q i. q \<noteq> [] \<and> butlast q = d \<and> (file_of w q \<noteq> None \<or> q \<in> set (w_dirs w))
          \<and> sstable_id_from_path q = Some i \<longrightarrow> i \<in> set ids \<and> q = d @ [sst_file_name i])"

text \<open>A log whose committed part is \<open>log\<close>; after it come uncommitted entries or a torn frame.\<close>

definition log_holds :: "prost \<Rightarrow> world \<Rightarrow> path \<Rightarrow> wal_entry list \<Rightarrow> bool" where
  "log_holds P w d log \<longleftrightarrow>
     (\<exists>es rest. contents w (d @ [''wal.log'']) = frames P es @ rest \<and> torn rest
        \<and> length (frames P es) < 2 ^ 62 \<and> committed (is_commit P) es = log)
     \<and> list_all (log_ok P) log"

definition on_disk :: "prost \<Rightarrow> world \<Rightarrow> path \<Rightarrow> u64 list \<Rightarrow> entries list \<Rightarrow> wal_entry list \<Rightarrow> bool" where
  "on_disk P w d ids ess log \<longleftrightarrow>
     dir_holds P w d ids ess \<and> log_holds P w d log
     \<and> d @ [''wal.log''] \<notin> set (w_dirs w) \<and> d @ [''LOCK''] \<notin> set (w_dirs w)
     \<and> (\<forall>q \<in> set (ancestors d). file_of w q = None)"

lemma dir_holds_cong:
  assumes "dir_holds P w d ids ess" and "fs_wf w'"
    and "\<And>q i. q \<noteq> [] \<Longrightarrow> butlast q = d \<Longrightarrow> sstable_id_from_path q = Some i \<Longrightarrow>
      file_of w' q = file_of w q \<and> (q \<in> set (w_dirs w') \<longleftrightarrow> q \<in> set (w_dirs w))"
  shows "dir_holds P w' d ids ess"
proof -
  have "file_of w' (d @ [sst_file_name i]) = file_of w (d @ [sst_file_name i])" for i
    using assms(3) [of "d @ [sst_file_name i]" i] by simp
  moreover have "(q \<noteq> [] \<and> butlast q = d \<and> (file_of w' q \<noteq> None \<or> q \<in> set (w_dirs w'))
          \<and> sstable_id_from_path q = Some i) = (q \<noteq> [] \<and> butlast q = d
          \<and> (file_of w q \<noteq> None \<or> q \<in> set (w_dirs w)) \<and> sstable_id_from_path q = Some i)" for q i
    using assms(3) [of q i] by metis
  ultimately show ?thesis
    using assms(1,2) unfolding dir_holds_def by (simp only: simp_thms) (elim conjE)
qed

lemma dir_holds_touches:
  assumes "dir_holds P w d ids ess" and "touches p w w'" and "p \<notin> set (w_dirs w)"
    and "butlast p = d \<Longrightarrow> sstable_id_from_path p = None"
  shows "dir_holds P w' d ids ess"
proof (rule dir_holds_cong [OF assms(1)])
  show "fs_wf w'" using touches_wf assms(1-3) by (auto simp: dir_holds_def)
  show "file_of w' q = file_of w q \<and> (q \<in> set (w_dirs w') \<longleftrightarrow> q \<in> set (w_dirs w))"
    if "butlast q = d" "sstable_id_from_path q = Some i" for q i
  proof -
    have "q \<noteq> p" using that assms(4) by auto
    with assms(2) show ?thesis by (simp add: touches_def)
  qed
qed

section \<open>Loading the tables\<close>

lemma open_found_ok:
  assumes "quiet w"
    and "\<And>q i. q \<in> set qs \<Longrightarrow> sstable_id_from_path q = Some i \<Longrightarrow>
      \<exists>es. file_of w q = Some (sst_image P es) \<and> table_fits P es \<and> tab i = table_of P q es"
  shows "\<exists>n. open_found qs w =
    (Ok (List.map_filter (\<lambda>q. map_option (\<lambda>i. (i, tab i)) (sstable_id_from_path q)) qs), later n w)"
  using assms
proof (induction qs arbitrary: w)
  case Nil
  then show ?case by (intro exI [of _ 0]) (simp add: List.map_filter_simps)
next
  case (Cons q qs)
  have entry: "fs_dir_entry q w = (Ok q, later 1 w)"
    using Cons.prems(1) by (simp add: fs_dir_entry_def syscall_quiet)
  have rest: "\<exists>n. open_found qs (later m w) =
      (Ok (List.map_filter (\<lambda>q. map_option (\<lambda>i. (i, tab i)) (sstable_id_from_path q)) qs), later n (later m w))" for m
    using Cons.prems by (intro Cons.IH) auto
  show ?case
  proof (cases "sstable_id_from_path q")
    case None
    then show ?thesis
      using rest [of 1] entry by (auto simp: bindA_def List.map_filter_simps)
  next
    case (Some i)
    then obtain es where es: "file_of w q = Some (sst_image P es)" "table_fits P es" "tab i = table_of P q es"
      using Cons.prems(2) [of q i] by auto
    then have "sst_open q (later 1 w) = (Ok (tab i), later 6 (later 1 w))"
      using Cons.prems(1) by (subst sst_open_ok [of "later 1 w" q P es]) simp_all
    then show ?thesis
      using rest [of 7] entry Some by (auto simp: bindA_def List.map_filter_simps)
  qed
qed

lemma mem_dir_entries:
  "q \<in> set (dir_entries w d) \<longleftrightarrow>
     q \<noteq> [] \<and> butlast q = d \<and> (file_of w q \<noteq> None \<or> q \<in> set (w_dirs w))"
proof -
  have "q \<in> fst ` set (w_files w) \<longleftrightarrow> file_of w q \<noteq> None"
    by (metis domIff dom_map_of_conv_image_fst file_of_def)
  then show ?thesis by (auto simp: dir_entries_def)
qed

lemma distinct_dir_entries:
  assumes "fs_wf w"
  shows "distinct (dir_entries w d)"
proof -
  have "q \<notin> set (w_dirs w)" if "q \<in> fst ` set (w_files w)" for q
  proof -
    have "file_of w q \<noteq> None"
      using that by (metis domIff dom_map_of_conv_image_fst file_of_def)
    with assms show ?thesis by (simp add: fs_wf_def)
  qed
  then have "set (map fst (w_files w)) \<inter> set (w_dirs w) = {}" by auto
  with assms show ?thesis by (simp only: dir_entries_def fs_wf_def distinct_filter distinct_append)
qed

lemma sort_key_unique:
  assumes "set xs = set ys" and "distinct (map f xs)" and "sorted_wrt (<) (map f ys)"
  shows "sort_key (f :: _ \<Rightarrow> 'k::linorder) xs = ys"
proof -
  have inj: "inj_on f (set xs)" and "distinct (map f ys)"
    using assms(2,3) by (auto simp: distinct_map strict_sorted_iff)
  have "map f (sort_key f xs) = map f ys"
  proof (rule sorted_distinct_set_unique)
    show "distinct (map f (sort_key f xs))" "distinct (map f ys)"
      using assms(2) inj \<open>distinct (map f ys)\<close> by (simp_all add: distinct_map)
    show "sorted (map f ys)" using assms(3) by (simp add: strict_sorted_iff)
    show "set (map f (sort_key f xs)) = set (map f ys)" using assms(1) by simp
  qed simp
  then show ?thesis
    using inj assms(1) by (intro map_inj_on [of f]) simp_all
qed

lemma foldl_max: "foldl max x xs = (y :: 'a::linorder) \<Longrightarrow> x \<le> y \<and> (\<forall>z \<in> set xs. z \<le> y)"
proof (induction xs arbitrary: x)
  case (Cons a xs)
  from Cons.IH [of "max x a"] Cons.prems show ?case by simp
qed simp

lemma foldl_max_in: "foldl max x xs \<in> insert (x :: 'a::linorder) (set xs)"
proof (induction xs arbitrary: x)
  case (Cons a xs)
  from Cons.IH [of "max x a"] show ?case by (auto simp: max_def split: if_splits)
qed simp

lemma word_less_add_one: "unat (i :: u64) + 1 < 2 ^ 64 \<Longrightarrow> i < i + 1"
  by (simp add: word_less_nat_alt unat_word_ariths)

lemma next_id_above:
  assumes "\<forall>(i, t) \<in> set found. unat i + 1 < 2 ^ 64" and "(i, t) \<in> set found"
  shows "i < next_id_after found"
proof -
  obtain x xs where xs: "map (\<lambda>(i, t). i + 1) found = x # xs"
    using assms(2) by (cases found) auto
  have "i + 1 \<in> set (map (\<lambda>(i, t). i + 1) found)" using assms(2) by force
  then have "i + 1 \<le> foldl max x xs"
    using foldl_max [OF refl, of x xs] by (auto simp: xs)
  moreover have "unat i + 1 < 2 ^ 64" using bspec [OF assms] by simp
  then have "i < i + 1" by (rule word_less_add_one)
  ultimately show ?thesis by (simp add: next_id_after_def xs)
qed

lemma next_id_least:
  assumes "\<forall>(i, t) \<in> set found. i < n" and "0 < n"
  shows "next_id_after found \<le> n"
proof (cases "map (\<lambda>(i, t). i + 1) found")
  case Nil
  then show ?thesis using assms(2) by (simp add: next_id_after_def word_le_nat_alt word_less_nat_alt)
next
  case (Cons x xs)
  then have "foldl max x xs \<in> set (map (\<lambda>(i, t). i + 1) found)" using foldl_max_in [of x xs] by auto
  then obtain i t where "(i, t) \<in> set found" "foldl max x xs = i + 1" by auto
  then have "next_id_after found = i + 1" "i < n" using assms(1) by (auto simp: next_id_after_def Cons)
  then show ?thesis by (simp add: inc_le)
qed

lemma sorted_ids_unique:
  assumes "sorted_wrt (>) (map fst (ys :: (u64 \<times> sstable) list))" and "set xs = set ys" and "distinct (map fst xs)"
  shows "sort_key (\<lambda>(i, t). - uint i) xs = ys"
proof (rule sort_key_unique [OF assms(2)])
  have "map (\<lambda>(i, t). - uint i) xs = map (\<lambda>i. - uint i) (map fst xs)" by auto
  moreover have "inj_on (\<lambda>i. - uint (i :: u64)) A" for A
    by (rule inj_onI) (metis neg_equal_iff_equal word_of_int_uint)
  ultimately show "distinct (map (\<lambda>(i, t). - uint i) xs)"
    using assms(3) by (simp only: distinct_map)
  have "map (\<lambda>(i, t). - uint i) ys = map (\<lambda>i. - uint i) (map fst ys)" by auto
  then show "sorted_wrt (<) (map (\<lambda>(i, t). - uint i) ys)"
    using assms(1) by (simp only: sorted_wrt_map) (simp add: word_less_alt)
qed

lemma dir_holds_tables:
  assumes "dir_holds P w d ids ess"
  defines "ts \<equiv> map2 (\<lambda>i es. table_of P (d @ [sst_file_name i]) es) ids ess"
  shows "list_all2 (represents P w) ts ess" and "map sst_path ts = map (\<lambda>i. d @ [sst_file_name i]) ids"
    and "length ids = length ess" and "map fst (zip ids ts) = ids" and "map snd (zip ids ts) = ts"
proof -
  show len: "length ids = length ess"
    using assms(1) by (auto simp: dir_holds_def dest: list_all2_lengthD)
  then show "map sst_path ts = map (\<lambda>i. d @ [sst_file_name i]) ids"
    by (intro nth_equalityI) (simp_all add: ts_def table_of_def)
  show "map fst (zip ids ts) = ids" "map snd (zip ids ts) = ts" using len by (simp_all add: ts_def)
  show "list_all2 (represents P w) ts ess"
    using assms(1) len
    by (auto simp: dir_holds_def list_all2_conv_all_nth ts_def intro!: represents_table_of)
qed

text \<open>The pairs found in the directory are those of the tables it holds, each once.\<close>

lemma dir_holds_entry:
  assumes "dir_holds P w d ids ess" and "q \<in> set (dir_entries w d)" and "sstable_id_from_path q = Some i"
  shows "i \<in> set ids" and "q = d @ [sst_file_name i]"
proof -
  have "\<forall>q i. q \<noteq> [] \<and> butlast q = d \<and> (file_of w q \<noteq> None \<or> q \<in> set (w_dirs w))
      \<and> sstable_id_from_path q = Some i \<longrightarrow> i \<in> set ids \<and> q = d @ [sst_file_name i]"
    using assms(1) unfolding dir_holds_def by (elim conjE)
  moreover have "q \<noteq> [] \<and> butlast q = d \<and> (file_of w q \<noteq> None \<or> q \<in> set (w_dirs w))"
    using assms(2) unfolding mem_dir_entries .
  ultimately show "i \<in> set ids" "q = d @ [sst_file_name i]" using assms(3) by blast+
qed

definition found_in :: "(u64 \<Rightarrow> sstable) \<Rightarrow> path list \<Rightarrow> (u64 \<times> sstable) list" where
  "found_in tab qs = List.map_filter (\<lambda>q. map_option (\<lambda>i. (i, tab i)) (sstable_id_from_path q)) qs"

lemma found_in_set:
  assumes "dir_holds P w d ids ess"
  shows "set (found_in tab (dir_entries w d)) = (\<lambda>i. (i, tab i)) ` set ids"
proof (intro set_eqI iffI)
  fix x assume "x \<in> set (found_in tab (dir_entries w d))"
  then obtain q i where "q \<in> set (dir_entries w d)" "sstable_id_from_path q = Some i" "x = (i, tab i)"
    by (auto simp: found_in_def List.map_filter_def)
  with dir_holds_entry [OF assms] show "x \<in> (\<lambda>i. (i, tab i)) ` set ids" by blast
next
  fix x assume "x \<in> (\<lambda>i. (i, tab i)) ` set ids"
  then obtain i where i: "i \<in> set ids" "x = (i, tab i)" by blast
  then obtain n where "n < length ids" "i = ids ! n" by (auto simp: in_set_conv_nth)
  moreover have "list_all2 (\<lambda>i es. bt_sorted es \<and> table_fits P es
          \<and> file_of w (d @ [sst_file_name i]) = Some (sst_image P es)) ids ess"
    using assms by (simp add: dir_holds_def)
  ultimately have "d @ [sst_file_name i] \<in> set (dir_entries w d)"
    by (simp add: mem_dir_entries list_all2_conv_all_nth)
  then show "x \<in> set (found_in tab (dir_entries w d))"
    using i(2) unfolding found_in_def List.map_filter_def
    by (auto intro!: image_eqI [of _ _ "d @ [sst_file_name i]"])
qed

lemma found_in_distinct:
  assumes "dir_holds P w d ids ess"
  shows "distinct (map fst (found_in tab (dir_entries w d)))"
proof -
  have fst: "map fst (found_in tab qs) = map (the \<circ> sstable_id_from_path) (filter (\<lambda>q. sstable_id_from_path q \<noteq> None) qs)" for qs
    by (induction qs) (auto simp: found_in_def List.map_filter_simps)
  have "inj_on (the \<circ> sstable_id_from_path) {q \<in> set (dir_entries w d). sstable_id_from_path q \<noteq> None}"
  proof (rule inj_onI)
    fix q r
    assume q: "q \<in> {q \<in> set (dir_entries w d). sstable_id_from_path q \<noteq> None}"
      and r: "r \<in> {q \<in> set (dir_entries w d). sstable_id_from_path q \<noteq> None}"
      and "(the \<circ> sstable_id_from_path) q = (the \<circ> sstable_id_from_path) r"
    then obtain i where "sstable_id_from_path q = Some i" "sstable_id_from_path r = Some i" by auto
    with q r dir_holds_entry(2) [OF assms] show "q = r" by (metis (no_types, lifting) mem_Collect_eq)
  qed
  moreover have "distinct (dir_entries w d)"
    using assms by (intro distinct_dir_entries) (simp add: dir_holds_def)
  ultimately show ?thesis by (simp add: fst distinct_map)
qed

lemma load_sstables_ok:
  assumes "quiet w" and "dir_holds P w (st_dir s) ids ess" and "dir_exists w (st_dir s)"
  shows "\<exists>n ts i. load_sstables (s, w) = (Ok (), (s\<lparr>next_sstable_id := i, st_sstables := ts\<rparr>, later n w))
    \<and> list_all2 (represents P w) ts ess \<and> map sst_path ts = map (\<lambda>i. st_dir s @ [sst_file_name i]) ids
    \<and> (\<forall>j \<in> set ids. j < i) \<and> (\<forall>n. (\<forall>j \<in> set ids. j < n) \<and> 0 < n \<longrightarrow> i \<le> n)"
proof -
  let ?d = "st_dir s"
  define ts where "ts = map2 (\<lambda>i es. table_of P (?d @ [sst_file_name i]) es) ids ess"
  note T = dir_holds_tables [OF assms(2), folded ts_def]
  have desc: "sorted_wrt (>) ids" and fit: "list_all (\<lambda>i. unat i + 1 < 2 ^ 64) ids"
    and files: "list_all2 (\<lambda>i es. bt_sorted es \<and> table_fits P es
          \<and> file_of w (?d @ [sst_file_name i]) = Some (sst_image P es)) ids ess"
    using assms(2) by (simp_all add: dir_holds_def)
  define tab where "tab i = the (map_of (zip ids ts) i)" for i
  define found where "found = found_in tab (dir_entries w ?d)"
  have lents: "length ts = length ids" using T(3) by (simp add: ts_def)
  have dist: "distinct ids" using desc by (induction ids) auto
  have nth: "tab (ids ! n) = ts ! n" if "n < length ids" for n
    using that dist lents by (simp add: tab_def map_of_zip_nth)
  have tabs: "\<exists>es. file_of w q = Some (sst_image P es) \<and> table_fits P es \<and> tab i = table_of P q es"
    if "q \<in> set (dir_entries w ?d)" "sstable_id_from_path q = Some i" for q i
  proof -
    have "i \<in> set ids" and q: "q = ?d @ [sst_file_name i]" using dir_holds_entry [OF assms(2) that] by blast+
    then obtain n where "n < length ids" "i = ids ! n" by (auto simp: in_set_conv_nth)
    with files T(3) nth [of n] show ?thesis
      by (intro exI [of _ "ess ! n"]) (auto simp: list_all2_conv_all_nth ts_def q)
  qed
  then obtain n where n: "open_found (dir_entries w ?d) (later 1 w) = (Ok found, later n (later 1 w))"
    using open_found_ok [of "later 1 w" "dir_entries w ?d" P tab] assms(1)
    by (auto simp: found_def found_in_def)
  have "zip ids ts = map (\<lambda>i. (i, tab i)) ids"
    using lents nth by (intro nth_equalityI) simp_all
  then have pairs: "set found = set (zip ids ts)"
    using found_in_set [OF assms(2), of tab] by (simp add: found_def)
  then have sort: "map snd (sort_key (\<lambda>(i, t). - uint i) found) = ts"
    using sorted_ids_unique [of "zip ids ts" found] T(4,5) desc found_in_distinct [OF assms(2), of tab]
    by (simp add: found_def)
  have "\<forall>(i, t) \<in> set found. unat i + 1 < 2 ^ 64"
    using fit pairs by (auto simp: list_all_iff dest!: set_zip_leftD)
  then have "\<forall>j \<in> set ids. j < next_id_after found"
    using next_id_above pairs \<open>zip ids ts = map (\<lambda>i. (i, tab i)) ids\<close> by force
  moreover have "next_id_after found \<le> n" if "\<forall>j \<in> set ids. j < n" "0 < n" for n
    using next_id_least [OF _ that(2)] that(1) pairs by (auto dest!: set_zip_leftD)
  moreover have "fs_read_dir ?d w = (Ok (dir_entries w ?d), later 1 w)"
    using assms(1,3) by (simp add: fs_read_dir_def syscall_quiet)
  ultimately show ?thesis
    using n sort T(1,2)
    by (intro exI [of _ "n + 1"] exI [of _ ts] exI [of _ "next_id_after found"])
      (simp add: load_sstables_def bindA_def onW_def updS_def)
qed

section \<open>The invariant of an open store\<close>

text \<open>
  A store in memory agrees with its directory: it holds the tables of the directory, the
  memtable is what the log says, the log ends in a commit, the next table id is unused, and
  the lock is held.
\<close>

definition engine :: "prost \<Rightarrow> world \<Rightarrow> store \<Rightarrow> u64 list \<Rightarrow> entries list \<Rightarrow> wal_entry list \<Rightarrow> bool" where
  "engine P w s ids ess log \<longleftrightarrow>
     dir_holds P w (st_dir s) ids ess \<and> dir_ready w (st_dir s)
     \<and> list_all2 (represents P w) (st_sstables s) ess
     \<and> map sst_path (st_sstables s) = map (\<lambda>i. st_dir s @ [sst_file_name i]) ids
     \<and> (\<forall>i \<in> set ids. i < next_sstable_id s)
     \<and> wal_path (st_wal s) = st_dir s @ [''wal.log''] \<and> wal_holds (st_wal s) w (frames P log)
     \<and> length (frames P log) < 2 ^ 62 \<and> list_all (log_ok P) log
     \<and> committed (is_commit P) log = log
     \<and> st_data s = log_data P log \<and> memtable_bytes s = footprints (st_data s)
     \<and> st_lock s = Some (st_dir s @ [''LOCK'']) \<and> st_dir s @ [''LOCK''] \<in> set (w_locks w)
     \<and> st_dir s @ [''LOCK''] \<notin> set (w_dirs w)"

lemma engine_mem_inv: "engine P w s ids ess log \<Longrightarrow> mem_inv s"
  by (simp add: engine_def mem_inv_def log_data_sorted)

lemma torn_Nil [simp]: "torn []"
  by (simp add: torn_def)

lemma dir_ready_no_file: "dir_ready w d \<Longrightarrow> q \<in> set (ancestors d) \<Longrightarrow> file_of w q = None"
  by (simp add: dir_ready_def)

lemma engine_on_disk:
  assumes "engine P w s ids ess log"
  shows "on_disk P w (st_dir s) ids ess log"
proof -
  have "log_holds P w (st_dir s) log"
    unfolding log_holds_def using assms
    by (intro conjI exI [of _ log] exI [of _ "[]"]) (auto simp: engine_def wal_holds_def)
  moreover have "st_dir s @ [''wal.log''] \<notin> set (w_dirs w)"
    using assms by (auto simp: engine_def wal_holds_def writable_at_def)
  ultimately show ?thesis
    using assms dir_ready_no_file [of w "st_dir s"] by (simp add: engine_def on_disk_def)
qed

section \<open>Opening a directory\<close>

lemma ancestors_length: "q \<in> set (ancestors d) \<Longrightarrow> length q \<le> length d"
  by (auto simp: ancestors_def)

lemma distinct_ancestors: "distinct (ancestors d)"
  by (auto simp: ancestors_def distinct_map inj_on_def dest!: arg_cong [of _ _ length])

lemma create_dir_all_ok:
  assumes "quiet w" and "\<forall>q \<in> set (ancestors d). file_of w q = None"
  shows "\<exists>w'. fs_create_dir_all d w = (Ok (), w') \<and> quiet w' \<and> dir_ready w' d
    \<and> w_files w' = w_files w \<and> w_locks w' = w_locks w \<and> (fs_wf w \<longrightarrow> fs_wf w')
    \<and> set (w_dirs w') = set (w_dirs w) \<union> set (ancestors d)"
proof -
  define w' where "w' = (later 1 w)\<lparr>w_dirs := w_dirs w @ filter (\<lambda>q. q \<notin> set (w_dirs w)) (ancestors d)\<rparr>"
  have f: "file_of w' = file_of w" by (simp add: file_of_def fun_eq_iff w'_def)
  have dirs: "w_dirs w' = w_dirs w @ filter (\<lambda>q. q \<notin> set (w_dirs w)) (ancestors d)"
    "w_files w' = w_files w" "w_locks w' = w_locks w" by (simp_all add: w'_def)
  have "fs_create_dir_all d w = (Ok (), w')"
    using assms by (simp add: fs_create_dir_all_def make_dirs_def w'_def)
  moreover have "quiet w'" using assms(1) by (simp add: quiet_def later_def w'_def)
  moreover have "dir_ready w' d" using assms(2) by (auto simp: dir_ready_def f dirs)
  moreover have "fs_wf w'" if "fs_wf w"
    using that assms(2) distinct_ancestors [of d] by (auto simp: fs_wf_def f dirs)
  ultimately show ?thesis using dirs by auto
qed

lemma child_not_ancestor: "q \<noteq> [] \<Longrightarrow> butlast q = d \<Longrightarrow> q \<notin> set (ancestors d)"
  using not_own_ancestor [of q] by auto

lemma dir_holds_mkdir:
  assumes "dir_holds P w d ids ess" and "w_files w' = w_files w" and "fs_wf w'"
    and "set (w_dirs w') = set (w_dirs w) \<union> set (ancestors d)"
  shows "dir_holds P w' d ids ess"
  using assms(2,4) by (intro dir_holds_cong [OF assms(1,3)]) (simp add: child_not_ancestor file_of_def)

lemma represents_touches:
  assumes "list_all2 (represents P w) ts ess" and "touches p w w'" and "p \<notin> sst_path ` set ts"
  shows "list_all2 (represents P w') ts ess"
  using assms(1,3)
proof (induction ts arbitrary: ess)
  case (Cons t ts)
  have "file_of w' (sst_path t) = file_of w (sst_path t)"
    using assms(2) Cons.prems(2) by (auto simp: touches_def)
  with Cons show ?case
    by (auto simp: list_all2_Cons1 intro: represents_world)
qed simp

definition lock_world :: "path \<Rightarrow> world \<Rightarrow> world" where
  "lock_world p w = later 1 (w\<lparr>w_locks := p # w_locks w\<rparr>)"

lemma lock_world_simps [simp]:
  "quiet w \<Longrightarrow> quiet (lock_world p w)" "w_files (lock_world p w) = w_files w"
  "w_dirs (lock_world p w) = w_dirs w" "w_locks (lock_world p w) = p # w_locks w"
  "file_of (lock_world p w) = file_of w" "contents (lock_world p w) = contents w"
  "dir_ready (lock_world p w) d = dir_ready w d" "fs_wf (lock_world p w) = fs_wf w"
  by (auto simp: lock_world_def quiet_def later_def file_of_def contents_def dir_ready_def fs_wf_def fun_eq_iff)

lemma fs_flock_free: "quiet w \<Longrightarrow> p \<notin> set (w_locks w) \<Longrightarrow> fs_flock p w = (Ok True, lock_world p w)"
  by (simp add: fs_flock_def lock_world_def)

lemma fs_wf_later [simp]: "fs_wf (later n w) = fs_wf w"
  by (simp add: fs_wf_def)

lemma dir_holds_later: "dir_holds P (later n w) d ids ess = dir_holds P w d ids ess"
  by (simp add: dir_holds_def)

lemma frames_committed_le: "length (frames P (committed c es)) \<le> length (frames P es)"
proof -
  obtain rest where "es = committed c es @ rest" using committed_prefix by blast
  from arg_cong [OF this, of "\<lambda>es. length (frames P es)"] show ?thesis by simp
qed

lemma dir_holds_locked: "dir_holds P (lock_world p w) d ids ess = dir_holds P w d ids ess"
  by (simp add: dir_holds_def)

lemma replayed_fresh:
  assumes "st_data s = []" and "memtable_bytes s = 0"
  shows "st_data (replayed P log s) = log_data P log"
    and "memtable_bytes (replayed P log s) = footprints (log_data P log)"
proof -
  have "mem_inv (insert_all (log_ops P log) s)"
    using assms by (intro mem_inv_insert_all) (simp add: mem_inv_def)
  then show "st_data (replayed P log s) = log_data P log"
    "memtable_bytes (replayed P log s) = footprints (log_data P log)"
    using assms(1) by (simp_all add: replayed_def log_data_def mem_inv_def)
qed

context prost_codec
begin

text \<open>Loading and replaying, in a world where the directory is in place and locked.\<close>

lemma load_and_replay_ok:
  assumes "quiet w" and "dir_holds P w d ids ess" and "dir_ready w d"
    and "d @ [''wal.log''] \<notin> set (w_dirs w)" and "log_holds P w d log"
    and "d @ [''LOCK''] \<in> set (w_locks w)" and "d @ [''LOCK''] \<notin> set (w_dirs w)"
  defines "s0 \<equiv> fresh_store d \<lparr>wal_path = d @ [''wal.log''], wal_file = None\<rparr> (d @ [''LOCK''])"
  shows "\<exists>s w'. bindA load_sstables (\<lambda>_. replay_wal P) (s0, w) = (Ok (), (s, w'))
    \<and> engine P w' s ids ess log \<and> quiet w' \<and> st_dir s = d \<and> st_sequence s = log_sequence 0 log
    \<and> memtable_max_bytes s = DEFAULT_MEMTABLE_MAX_BYTES
    \<and> (\<forall>n. (\<forall>j \<in> set ids. j < n) \<and> 0 < n \<longrightarrow> next_sstable_id s \<le> n)"
proof -
  let ?l = "\<lparr>wal_path = d @ [''wal.log''], wal_file = None\<rparr>"
  obtain es rest where log: "contents w (d @ [''wal.log'']) = frames P es @ rest" "torn rest"
      "length (frames P es) < 2 ^ 62" "committed (is_commit P) es = log" "list_all (log_ok P) log"
    using assms(5) by (auto simp: log_holds_def)
  obtain n ts i where load: "load_sstables (s0, w) =
        (Ok (), (s0\<lparr>next_sstable_id := i, st_sstables := ts\<rparr>, later n w))"
      and ts: "list_all2 (represents P w) ts ess" "map sst_path ts = map (\<lambda>i. d @ [sst_file_name i]) ids"
      and i: "\<forall>j \<in> set ids. j < i" "\<forall>n. (\<forall>j \<in> set ids. j < n) \<and> 0 < n \<longrightarrow> i \<le> n"
    using load_sstables_ok [OF assms(1), of P s0 ids ess] assms(2,3) dir_ready_exists [OF assms(3)]
    by (auto simp: s0_def fresh_store_def)
  have "wal_holds ?l (later n w) (frames P es @ rest)"
    using assms(3,4) log(1) by (auto simp: wal_holds_def writable_at_def contents_def path_parent_def dir_ready_def)
  then obtain l w' where rec: "wal_read_for_recovery P (?l, later n w) = (Ok log, (l, w'))"
      "touches (d @ [''wal.log'']) (later n w) w'" "wal_path l = d @ [''wal.log'']" "wal_holds l w' (frames P log)"
    using wal_recovery_ok [of "later n w" ?l es rest] assms(1) log by auto
  have comm: "committed (is_commit P) log = log" using log(4) by auto
  let ?s = "replayed P log (s0\<lparr>next_sstable_id := i, st_sstables := ts, st_wal := l\<rparr>)"
  have run: "bindA load_sstables (\<lambda>_. replay_wal P) (s0, w) = (Ok (), (?s, w'))"
    using rec(1) replay_loop_committed [OF log(5) comm]
    by (simp add: bindA_def load replay_wal_def on_wal_def onS_def) (simp add: s0_def fresh_store_def)
  have t: "touches (d @ [''wal.log'']) w w'"
    using rec(2) touches_later touches_trans by blast
  have "dir_holds P w' d ids ess" using dir_holds_touches [OF assms(2) t assms(4)] by simp
  moreover have "dir_ready w' d"
    using touches_dir_ready [OF t] assms(3) child_not_ancestor [of "d @ [''wal.log'']" d] by simp
  moreover have "list_all2 (represents P w') ts ess"
    using represents_touches [OF ts(1) t log_is_no_table [OF ts(2)]] .
  moreover have "length (frames P log) < 2 ^ 62"
    using frames_committed_le [of P "is_commit P" es] log(3,4) by simp
  moreover have "st_data ?s = log_data P log" "memtable_bytes ?s = footprints (log_data P log)"
    by (rule replayed_fresh; simp add: s0_def fresh_store_def)+
  moreover have "w_locks w' = w_locks w" "w_dirs w' = w_dirs w" using t by (simp_all add: touches_def)
  ultimately have "engine P w' ?s ids ess log"
    using ts i rec(3,4) log(5) comm assms(6,7)
    by (simp add: engine_def replayed_def s0_def fresh_store_def)
  moreover have "st_dir ?s = d" "st_sequence ?s = log_sequence 0 log"
    "memtable_max_bytes ?s = DEFAULT_MEMTABLE_MAX_BYTES" "next_sstable_id ?s = i"
    by (simp_all add: replayed_def s0_def fresh_store_def)
  moreover have "quiet w'" using touches_quiet t assms(1) by blast
  ultimately show ?thesis using run i(2) by (intro exI [of _ ?s] exI [of _ w']) simp
qed

theorem open_path_ok:
  assumes "quiet w" and "on_disk P w d ids ess log" and "d @ [''LOCK''] \<notin> set (w_locks w)"
  shows "\<exists>s w'. open_path P d w = (Ok s, w') \<and> engine P w' s ids ess log \<and> quiet w'
    \<and> st_dir s = d \<and> st_sequence s = log_sequence 0 log
    \<and> memtable_max_bytes s = DEFAULT_MEMTABLE_MAX_BYTES
    \<and> (\<forall>n. (\<forall>j \<in> set ids. j < n) \<and> 0 < n \<longrightarrow> next_sstable_id s \<le> n)"
proof -
  let ?lock = "d @ [''LOCK'']" and ?wal = "d @ [''wal.log'']"
  have disk: "dir_holds P w d ids ess" "log_holds P w d log" "?wal \<notin> set (w_dirs w)"
    "?lock \<notin> set (w_dirs w)" "\<forall>q \<in> set (ancestors d). file_of w q = None" "fs_wf w"
    using assms(2) by (simp_all add: on_disk_def dir_holds_def)
  from create_dir_all_ok [OF assms(1) disk(5)] obtain w1
    where w1: "fs_create_dir_all d w = (Ok (), w1)" "quiet w1" "dir_ready w1 d" "w_files w1 = w_files w"
      "w_locks w1 = w_locks w" "fs_wf w1" "set (w_dirs w1) = set (w_dirs w) \<union> set (ancestors d)"
    using disk(6) by blast
  have child: "d @ [x] \<in> set (w_dirs w1) \<longleftrightarrow> d @ [x] \<in> set (w_dirs w)" for x
    using child_not_ancestor [of "d @ [x]" d] by (simp add: w1(7))
  have "writable_at w1 ?lock"
    using w1(3) disk(4) child by (auto simp: writable_at_def path_parent_def)
  then obtain w2 where w2: "fs_open True False ?lock w1 = (Ok (), w2)"
    using open_append_quiet [OF w1(2)] by blast
  have t: "touches ?lock w1 w2" using fs_open_append_any(1) [OF w2] .
  let ?w = "lock_world ?lock w2"
  have w2': "quiet w2" "w_locks w2 = w_locks w" "w_dirs w2 = w_dirs w1"
    using touches_quiet [OF t w1(2)] t w1(5) by (simp_all add: touches_def)
  have "dir_holds P w2 d ids ess"
    using dir_holds_touches [OF dir_holds_mkdir [OF disk(1) w1(4,6,7)] t] disk(4) child by simp
  then have dh: "dir_holds P (later 1 ?w) d ids ess"
    by (simp only: dir_holds_later dir_holds_locked)
  have ready: "dir_ready ?w d"
    using touches_dir_ready [OF t] w1(3) child_not_ancestor [of ?lock d] by simp
  have "contents w2 ?wal = contents w ?wal"
    using t w1(4) by (simp add: touches_def contents_def file_of_def)
  then have log: "log_holds P (later 1 ?w) d log"
    using disk(2) by (simp add: log_holds_def contents_def)
  have "wal_with_path ?wal ?w = (Ok \<lparr>wal_path = ?wal, wal_file = None\<rparr>, later 1 ?w)"
    using create_dir_ready [OF _ ready] w2'(1) by (simp add: wal_with_path_def path_parent_def)
  moreover have "fs_flock ?lock w2 = (Ok True, ?w)"
    using fs_flock_free [OF w2'(1)] assms(3) w2'(2) by simp
  moreover obtain s w' where "bindA load_sstables (\<lambda>_. replay_wal P)
        (fresh_store d \<lparr>wal_path = ?wal, wal_file = None\<rparr> ?lock, later 1 ?w) = (Ok (), (s, w'))"
      "engine P w' s ids ess log" "quiet w'" "st_dir s = d" "st_sequence s = log_sequence 0 log"
      "memtable_max_bytes s = DEFAULT_MEMTABLE_MAX_BYTES"
      "\<forall>n. (\<forall>j \<in> set ids. j < n) \<and> 0 < n \<longrightarrow> next_sstable_id s \<le> n"
    using load_and_replay_ok [OF _ dh _ _ log] w2' ready disk(3,4) child by (auto simp: dir_ready_def)
  ultimately show ?thesis
    using w1(1) w2 by (simp add: open_path_def bindA_def Let_def)
qed

end

end
