(* ===== verification/Ferrum_Engine.thy ===== *)
theory Ferrum_Engine
  imports Ferrum_Recovery
begin

text \<open>
  Correctness of the engine, \<open>ferrumdb-core/src/store.rs\<close>, against the map a client sees:
  \<open>models P w s m\<close> says that the store \<open>s\<close> in the world \<open>w\<close> satisfies its invariant and
  represents the map \<open>m\<close> from keys to values. Reads return what \<open>m\<close> says, writes update it,
  flush and compaction leave it alone, and reopening the directory gives it back.
\<close>

section \<open>The map a store represents\<close>

definition view :: "entries \<Rightarrow> entries list \<Rightarrow> bytes \<Rightarrow> db_value option" where
  "view data ess k = value_of_entry (map_of (data @ concat ess) k)"

definition models :: "prost \<Rightarrow> world \<Rightarrow> store \<Rightarrow> (bytes \<Rightarrow> db_value option) \<Rightarrow> bool" where
  "models P w s m \<longleftrightarrow> (\<exists>ids ess log. engine P w s ids ess log \<and> m = view (st_data s) ess)"

lemma modelsI: "engine P w s ids ess log \<Longrightarrow> models P w s (view (st_data s) ess)"
  by (auto simp: models_def)

lemma modelsE:
  assumes "models P w s m"
  obtains ids ess log where "engine P w s ids ess log" and "m = view (st_data s) ess"
  using assms by (auto simp: models_def)

lemma wal_holds_later [simp]: "wal_holds l (later n w) bs = wal_holds l w bs"
  by (simp add: wal_holds_def contents_def)

lemma dir_ready_later [simp]: "dir_ready (later n w) d = dir_ready w d"
  by (simp add: dir_ready_def)

lemma represents_later_fun: "represents P (later n w) = represents P w"
  by (simp add: fun_eq_iff)

lemma engine_later [simp]: "engine P (later n w) s ids ess log = engine P w s ids ess log"
  by (simp add: engine_def dir_holds_later represents_later_fun)

lemma engine_cache:
  assumes "engine P w s ids ess log" and "list_all2 (represents P w) ts ess"
    and "map sst_path ts = map sst_path (st_sstables s)"
  shows "engine P w (s\<lparr>st_sstables := ts\<rparr>) ids ess log"
  using assms by (simp add: engine_def)

text \<open>Two tables that stand for the same file differ in their block caches only.\<close>

lemma represents_same:
  assumes "represents P w t es" and "represents P w' u es" and "sst_path t = sst_path u"
  shows "t\<lparr>sst_cache := c\<rparr> = u\<lparr>sst_cache := c\<rparr>"
proof -
  have "t\<lparr>sst_cache := cache_new BLOCK_CACHE_CAP\<rparr> = table_of P (sst_path t) es"
    "u\<lparr>sst_cache := cache_new BLOCK_CACHE_CAP\<rparr> = table_of P (sst_path u) es"
    by (rule assms(1,2) [unfolded represents_def, THEN conjunct2, THEN conjunct2, THEN conjunct2, THEN conjunct1])+
  then have "t\<lparr>sst_cache := cache_new BLOCK_CACHE_CAP\<rparr> = u\<lparr>sst_cache := cache_new BLOCK_CACHE_CAP\<rparr>"
    unfolding assms(3) by (rule trans [OF _ sym])
  from arg_cong [OF this, of "sst_cache_update (\<lambda>_. c)"] show ?thesis by simp
qed

lemma tables_same:
  assumes "list_all2 (represents P w) ts ess" and "list_all2 (represents P w') us ess" and "map sst_path ts = map sst_path us"
  shows "map (\<lambda>t. t\<lparr>sst_cache := c\<rparr>) ts = map (\<lambda>t. t\<lparr>sst_cache := c\<rparr>) us"
  using assms
proof (induction ts arbitrary: us ess)
  case (Cons t ts)
  from Cons.prems obtain u us' es ess' where u: "us = u # us'" "represents P w t es" "represents P w' u es"
    "list_all2 (represents P w) ts ess'" "list_all2 (represents P w') us' ess'" "sst_path t = sst_path u"
    "map sst_path ts = map sst_path us'" by (auto simp: list_all2_Cons1)
  have "t\<lparr>sst_cache := c\<rparr> = u\<lparr>sst_cache := c\<rparr>" using represents_same [OF u(2,3,6)] .
  with Cons.IH [OF u(4,5,7)] show ?case by (simp only: u(1) list.map)
qed simp

section \<open>Point reads\<close>

lemma value_of_entry_cases: "value_of_entry e = (case e of Some (Value v) \<Rightarrow> Some v | _ \<Rightarrow> None)"
  by (cases e rule: value_of_entry.cases) auto

context prost_codec
begin

lemma get_value_engine:
  assumes "quiet w" and "engine P w s ids ess log"
  shows "\<exists>ts n. get_value P key (s, w) =
      (Ok (view (st_data s) ess key), (s\<lparr>st_sstables := ts\<rparr>, later n w))
    \<and> engine P w (s\<lparr>st_sstables := ts\<rparr>) ids ess log"
proof (cases "map_of (st_data s) key")
  case (Some e)
  then show ?thesis
    using assms(2)
    by (intro exI [of _ "st_sstables s"] exI [of _ 0])
      (cases e; simp add: get_value_def view_def map_add_def)
next
  case None
  have "list_all2 (represents P w) (st_sstables s) ess" using assms(2) by (simp add: engine_def)
  from layers.lookup_layers_ok [OF assms(1) this, of key] obtain ts n
    where "lookup_layers (sst_get P key) (st_sstables s) w = (Ok (map_of (concat ess) key), (ts, later n w))"
      "list_all2 (represents P w) ts ess" "map sst_path ts = map sst_path (st_sstables s)" by blast
  with None assms(2) show ?thesis
    by (intro exI [of _ ts] exI [of _ n])
      (simp add: get_value_def view_def map_add_def engine_cache split: option.splits)
qed

end

section \<open>Writing a batch to the log\<close>

text \<open>
  A single write and a transaction take the same path: append one entry per operation, write
  the commit marker, apply the operations to the memtable, and flush when it is full.
\<close>

definition log_batch :: "prost \<Rightarrow> (bytes \<times> db_value option) list \<Rightarrow> unit store_act" where
  "log_batch P ps =
     bindA (append_pending P ps) (\<lambda>_ (s, w). on_wal (wal_write_commit P (st_sequence s)) (s, w))"

definition write_batch :: "prost \<Rightarrow> (bytes \<times> db_value option) list \<Rightarrow> unit store_act" where
  "write_batch P ps =
     bindA (log_batch P ps) (\<lambda>_.
     bindA (updS (fold pending_apply ps)) (\<lambda>_.
     maybe_flush P))"

lemma bindA_assoc: "bindA (bindA m f) g = bindA m (\<lambda>x. bindA (f x) g)"
  by (auto simp: bindA_def fun_eq_iff split: prod.splits outcome.splits)

lemma tx_commit_batch:
  "tx_pending t \<noteq> [] \<Longrightarrow> tx_commit P t w = write_batch P (tx_pending t) (tx_store t, w)"
  by (simp add: tx_commit_def write_batch_def log_batch_def bindA_assoc)

lemma set_value_batch:
  "set_value P k v sw = bindA (write_batch P [(k, Some v)]) (\<lambda>_. returnA ''Inserted value'') sw"
  by (cases sw)
    (auto simp: set_value_def write_batch_def log_batch_def bindA_def updS_def pending_entry_def
      pending_apply_def on_wal_def Let_def split: prod.splits outcome.splits)

lemma delete_value_batch:
  "delete_value P k sw = bindA (write_batch P [(k, None)]) (\<lambda>_. returnA ''Deleted value'') sw"
  by (cases sw)
    (auto simp: delete_value_def write_batch_def log_batch_def bindA_def updS_def pending_entry_def
      pending_apply_def on_wal_def Let_def split: prod.splits outcome.splits)

fun batch_entries :: "u64 \<Rightarrow> (bytes \<times> db_value option) list \<Rightarrow> wal_entry list" where
  "batch_entries seq [] = []"
| "batch_entries seq ((k, val) # ps) = pending_entry k val (seq + 1) # batch_entries (seq + 1) ps"

definition batch_log :: "u64 \<Rightarrow> (bytes \<times> db_value option) list \<Rightarrow> wal_entry list" where
  "batch_log seq ps = batch_entries seq ps @ [commit_entry (seq + of_nat (length ps))]"

definition pending_ops :: "(bytes \<times> db_value option) list \<Rightarrow> entries" where
  "pending_ops ps = map (\<lambda>(k, val). (k, case val of Some v \<Rightarrow> Value v | None \<Rightarrow> Tombstone)) ps"

lemma fold_pending_apply: "fold pending_apply ps = insert_all (pending_ops ps)"
  by (induction ps) (auto simp: pending_ops_def pending_apply_def fun_eq_iff split: option.splits)

lemma take_min_length: "take (min n (length xs)) xs = take n xs"
  by (simp add: min_def)

lemma append_pending_any:
  assumes "append_pending P ps (s, w) = (r, (s', w'))" and "wal_holds (st_wal s) w bs"
  shows "touches (wal_path (st_wal s)) w w' \<and> r \<noteq> Panic
    \<and> s' = s\<lparr>st_wal := st_wal s', st_sequence := st_sequence s'\<rparr>
    \<and> wal_path (st_wal s') = wal_path (st_wal s)
    \<and> (\<exists>n. wal_holds (st_wal s') w' (bs @ take n (frames P (batch_entries (st_sequence s) ps)))
         \<and> (r = Ok () \<longrightarrow> length (frames P (batch_entries (st_sequence s) ps)) \<le> n
              \<and> st_sequence s' = st_sequence s + of_nat (length ps)))"
  using assms
proof (induction ps arbitrary: s w bs)
  case Nil
  then show ?case by auto
next
  case (Cons p ps)
  obtain k val where p: "p = (k, val)" by force
  let ?e = "pending_entry k val (st_sequence s + 1)"
  obtain r1 l1 w1 where o1: "wal_append P ?e (st_wal s, w) = (r1, (l1, w1))" using prod_cases3 by blast
  from wal_append_any [OF this Cons.prems(2)] obtain n where
    n: "touches (wal_path (st_wal s)) w w1" "wal_path l1 = wal_path (st_wal s)" "r1 \<noteq> Panic"
      "wal_holds l1 w1 (bs @ take n (frame P ?e))" "r1 = Ok () \<longrightarrow> length (frame P ?e) \<le> n" by blast
  let ?s1 = "s\<lparr>st_sequence := st_sequence s + 1, st_wal := l1\<rparr>"
  show ?case
  proof (cases r1)
    case (Ok u)
    then have run: "append_pending P ps (?s1, w1) = (r, (s', w'))"
      using Cons.prems(1) by (simp add: p bindA_def updS_def on_wal_def o1)
    have "wal_holds (st_wal ?s1) w1 (bs @ frame P ?e)" using n(4,5) Ok by simp
    from Cons.IH [OF run this] obtain m where
      m: "touches (wal_path l1) w1 w'" "r \<noteq> Panic" "s' = s\<lparr>st_wal := st_wal s', st_sequence := st_sequence s'\<rparr>"
        "wal_path (st_wal s') = wal_path l1"
        "wal_holds (st_wal s') w' ((bs @ frame P ?e) @ take m (frames P (batch_entries (st_sequence s + 1) ps)))"
        "r = Ok () \<longrightarrow> length (frames P (batch_entries (st_sequence s + 1) ps)) \<le> m
          \<and> st_sequence s' = st_sequence s + 1 + of_nat (length ps)"
      by auto
    then show ?thesis
      using n(1,2) touches_trans
      by (intro conjI exI [of _ "length (frame P ?e) + m"]) (auto simp: p)
  next
    case (Err x)
    then have "r = Err x" "s' = ?s1" "w' = w1"
      using Cons.prems(1) by (auto simp: p bindA_def updS_def on_wal_def o1)
    with n show ?thesis
      by (intro conjI exI [of _ "min n (length (frame P ?e))"]) (auto simp: p take_min_length)
  next
    case Panic
    with n show ?thesis by simp
  qed
qed

lemma log_batch_any:
  assumes "log_batch P ps (s, w) = (r, (s', w'))" and "wal_holds (st_wal s) w bs"
  defines "new \<equiv> frames P (batch_log (st_sequence s) ps)"
  shows "touches (wal_path (st_wal s)) w w' \<and> r \<noteq> Panic
    \<and> s' = s\<lparr>st_wal := st_wal s', st_sequence := st_sequence s'\<rparr>
    \<and> wal_path (st_wal s') = wal_path (st_wal s)
    \<and> (\<exists>n. wal_holds (st_wal s') w' (bs @ take n new) \<and> (r = Ok () \<longrightarrow> length new \<le> n))"
proof -
  let ?old = "frames P (batch_entries (st_sequence s) ps)"
  obtain r1 s1 w1 where o1: "append_pending P ps (s, w) = (r1, (s1, w1))" using prod_cases3 by blast
  from append_pending_any [OF this assms(2)] obtain n where
    n: "touches (wal_path (st_wal s)) w w1" "r1 \<noteq> Panic"
      "s1 = s\<lparr>st_wal := st_wal s1, st_sequence := st_sequence s1\<rparr>" "wal_path (st_wal s1) = wal_path (st_wal s)"
      "wal_holds (st_wal s1) w1 (bs @ take n ?old)"
      "r1 = Ok () \<longrightarrow> length ?old \<le> n \<and> st_sequence s1 = st_sequence s + of_nat (length ps)" by blast
  show ?thesis
  proof (cases r1)
    case (Ok u)
    let ?c = "frame P (commit_entry (st_sequence s1))"
    obtain r2 l2 w2 where o2: "wal_write_commit P (st_sequence s1) (st_wal s1, w1) = (r2, (l2, w2))"
      using prod_cases3 by blast
    have run: "r = r2" "s' = s1\<lparr>st_wal := l2\<rparr>" "w' = w2"
      using assms(1) by (simp_all add: log_batch_def bindA_def o1 Ok on_wal_def o2)
    have new: "new = ?old @ ?c" using n(6) Ok by (simp add: new_def batch_log_def)
    have "wal_holds (st_wal s1) w1 (bs @ ?old)" using n(5,6) Ok by simp
    from wal_write_commit_any [OF o2 this] obtain m where
      m: "touches (wal_path (st_wal s1)) w1 w2" "wal_path l2 = wal_path (st_wal s1)" "r2 \<noteq> Panic"
        "wal_holds l2 w2 ((bs @ ?old) @ take m ?c)" "r2 = Ok () \<longrightarrow> length ?c \<le> m" by blast
    have "touches (wal_path (st_wal s)) w w'" using n(1,4) m(1) run(3) touches_trans by metis
    moreover have "s' = s\<lparr>st_wal := st_wal s', st_sequence := st_sequence s'\<rparr>"
      using run(2) n(3) by (metis store.update_convs(4,5) store.surjective store.select_convs(4,5))
    ultimately show ?thesis
      using m n(4) run new by (intro conjI exI [of _ "length ?old + m"]) auto
  next
    case (Err x)
    then have "r = Err x" "s' = s1" "w' = w1"
      using assms(1) by (auto simp: log_batch_def bindA_def o1)
    with n show ?thesis
      by (intro conjI exI [of _ "min n (length ?old)"]) (auto simp: new_def batch_log_def take_min_length)
  next
    case Panic
    with n show ?thesis by simp
  qed
qed

text \<open>Without faults the whole batch reaches the log.\<close>

lemma append_pending_ok:
  assumes "quiet w" and "wal_holds (st_wal s) w bs"
  shows "\<exists>s' w'. append_pending P ps (s, w) = (Ok (), (s', w'))"
  using assms
proof (induction ps arbitrary: s w bs)
  case (Cons p ps)
  obtain k val where p: "p = (k, val)" by force
  let ?e = "pending_entry k val (st_sequence s + 1)"
  obtain l1 w1 where o1: "wal_append P ?e (st_wal s, w) = (Ok (), (l1, w1))"
      "touches (wal_path (st_wal s)) w w1" "wal_holds l1 w1 (bs @ frame P ?e)"
    using wal_append_ok [OF Cons.prems] by blast
  have "quiet w1" using touches_quiet o1(2) Cons.prems(1) by blast
  then obtain s' w' where "append_pending P ps (s\<lparr>st_sequence := st_sequence s + 1, st_wal := l1\<rparr>, w1) = (Ok (), (s', w'))"
    using Cons.IH [of w1 "s\<lparr>st_sequence := st_sequence s + 1, st_wal := l1\<rparr>" "bs @ frame P ?e"] o1(3) by auto
  then show ?case by (simp add: p bindA_def updS_def on_wal_def o1(1))
qed simp

lemma log_batch_ok:
  assumes "quiet w" and "wal_holds (st_wal s) w bs"
  shows "\<exists>s' w'. log_batch P ps (s, w) = (Ok (), (s', w')) \<and> quiet w'
    \<and> touches (wal_path (st_wal s)) w w'
    \<and> s' = s\<lparr>st_wal := st_wal s', st_sequence := st_sequence s'\<rparr>
    \<and> wal_path (st_wal s') = wal_path (st_wal s)
    \<and> wal_holds (st_wal s') w' (bs @ frames P (batch_log (st_sequence s) ps))"
proof -
  obtain s1 w1 where o1: "append_pending P ps (s, w) = (Ok (), (s1, w1))"
    using append_pending_ok [OF assms] by blast
  from append_pending_any [OF this assms(2)] obtain bs1
    where "touches (wal_path (st_wal s)) w w1" "wal_holds (st_wal s1) w1 bs1" by blast
  moreover from this(1) have q1: "quiet w1" using touches_quiet assms(1) by blast
  ultimately obtain l2 w2 where o2: "wal_write_commit P (st_sequence s1) (st_wal s1, w1) = (Ok (), (l2, w2))"
    using wal_write_commit_ok by blast
  then have run: "log_batch P ps (s, w) = (Ok (), (s1\<lparr>st_wal := l2\<rparr>, w2))"
    by (simp add: log_batch_def bindA_def o1 on_wal_def)
  note any = log_batch_any [OF run assms(2)]
  then have "quiet w2" using touches_quiet assms(1) by blast
  with run any show ?thesis by (intro exI [of _ "s1\<lparr>st_wal := l2\<rparr>"] exI [of _ w2]) auto
qed

context prost_codec
begin

lemma pending_entry_facts:
  "log_op P (pending_entry k val n) = [(k, case val of Some v \<Rightarrow> Value v | None \<Rightarrow> Tombstone)]"
  "log_ok P (pending_entry k val n)" "\<not> is_commit P (pending_entry k val n)"
  by (auto simp: pending_entry_def create_put_entry_def create_delete_entry_def log_op_def log_ok_def
      is_commit_def entry_operation_def simp del: operation_code.simps split: option.splits)

lemma commit_entry_facts:
  "is_commit P (commit_entry n)" "log_op P (commit_entry n) = []" "log_ok P (commit_entry n)"
  by (simp_all add: commit_entry_def is_commit_def log_op_def log_ok_def entry_operation_def
      del: operation_code.simps)

lemma batch_entries_facts:
  "log_ops P (batch_entries n ps) = pending_ops ps"
  "list_all (log_ok P) (batch_entries n ps)" "\<forall>e \<in> set (batch_entries n ps). \<not> is_commit P e"
  by (induction n ps rule: batch_entries.induct) (auto simp: pending_ops_def pending_entry_facts)

lemma batch_log_facts:
  "log_ops P (batch_log n ps) = pending_ops ps" "list_all (log_ok P) (batch_log n ps)"
  "committed (is_commit P) (log @ batch_log n ps) = log @ batch_log n ps"
  by (simp_all add: batch_log_def batch_entries_facts commit_entry_facts committed_eq_iff)

lemma log_data_batch:
  "log_data P (log @ batch_log n ps) = fold (\<lambda>(k, e). bt_insert k e) (pending_ops ps) (log_data P log)"
  by (simp add: log_data_def batch_log_facts)

lemma recovered_batch:
  assumes "committed (is_commit P) old = old" and "length (frames P (old @ batch_log seq ps)) < 2 ^ 62"
    and "length (frames P old) \<le> n"
  shows "recovered P (take n (frames P (old @ batch_log seq ps))) =
    Ok (if length (frames P (old @ batch_log seq ps)) \<le> n then old @ batch_log seq ps else old)"
  using log.batch_atomic [OF assms(1) batch_entries_facts(3) commit_entry_facts(1), of seq ps
      "seq + of_nat (length ps)" n] assms(2,3)
  by (simp add: batch_log_def frames_def)

text \<open>The invariant after a batch was logged and applied.\<close>

lemma engine_batch:
  assumes "engine P w s ids ess log" and "touches (wal_path (st_wal s)) w w'"
    and "wal_path l = wal_path (st_wal s)" and "wal_holds l w' (frames P (log @ batch_log n ps))"
    and "length (frames P (log @ batch_log n ps)) < 2 ^ 62"
  shows "engine P w' (insert_all (pending_ops ps) (s\<lparr>st_wal := l, st_sequence := q\<rparr>)) ids ess (log @ batch_log n ps)"
proof -
  let ?p = "st_dir s @ [''wal.log'']"
  note E = assms(1) [unfolded engine_def]
  have t: "touches ?p w w'" using assms(2) E by simp
  have p: "?p \<notin> set (w_dirs w)" using E by (auto simp: wal_holds_def writable_at_def)
  have "dir_holds P w' (st_dir s) ids ess" using dir_holds_touches [OF _ t p] E by simp
  moreover have "dir_ready w' (st_dir s)"
    using touches_dir_ready [OF t] child_not_ancestor [of ?p "st_dir s"] E by simp
  moreover have "list_all2 (represents P w') (st_sstables s) ess"
    using represents_touches [OF _ t log_is_no_table] E by blast
  moreover have "w_locks w' = w_locks w" "w_dirs w' = w_dirs w" using t by (simp_all add: touches_def)
  moreover have "mem_inv (insert_all (pending_ops ps) (s\<lparr>st_wal := l, st_sequence := q\<rparr>))"
    using engine_mem_inv [OF assms(1)] by (intro mem_inv_insert_all) (simp add: mem_inv_def)
  ultimately show ?thesis
    using E assms(3,4,5) unfolding engine_def
    by (simp add: batch_log_facts log_data_batch mem_inv_def)
qed

end

text \<open>What a batch does to the map.\<close>

definition apply_batch :: "(bytes \<times> db_value option) list \<Rightarrow> (bytes \<Rightarrow> db_value option) \<Rightarrow> bytes \<Rightarrow> db_value option" where
  "apply_batch ps m k = (case map_of ps k of None \<Rightarrow> m k | Some val \<Rightarrow> val)"

lemma map_of_pending_ops:
  "map_of (pending_ops ps) k = map_option (\<lambda>val. case val of Some v \<Rightarrow> Value v | None \<Rightarrow> Tombstone) (map_of ps k)"
  by (induction ps) (auto simp: pending_ops_def)

lemma view_batch:
  assumes "bt_sorted data" and "bt_sorted ps"
  shows "view (fold (\<lambda>(k, e). bt_insert k e) (pending_ops ps) data) ess = apply_batch ps (view data ess)"
proof -
  have "bt_sorted (pending_ops ps)"
    using assms(2) by (simp add: bt_sorted_def pending_ops_def comp_def case_prod_beta)
  then show ?thesis
    using fold_bt_insert(2) [OF assms(1)]
    by (auto simp: view_def apply_batch_def fun_eq_iff map_add_def map_of_pending_ops split: option.splits)
qed

section \<open>Sizes\<close>

text \<open>
  The bytes a store has on record: its memtable as records, and its table files. \<open>room\<close> says
  that they, and \<open>c\<close> bytes more, stay within what one table file and the log can hold, and
  that table ids do not run out.
\<close>

definition stored_bytes :: "prost \<Rightarrow> world \<Rightarrow> store \<Rightarrow> nat" where
  "stored_bytes P w s =
     length (block_bytes P (st_data s)) + sum_list (map (\<lambda>t. length (contents w (sst_path t))) (st_sstables s))"

definition room :: "prost \<Rightarrow> world \<Rightarrow> store \<Rightarrow> nat \<Rightarrow> bool" where
  "room P w s c \<longleftrightarrow>
     4 * (stored_bytes P w s + c) + 100 < 2 ^ 32
     \<and> length (contents w (wal_path (st_wal s))) + c < 2 ^ 62
     \<and> unat (next_sstable_id s) + 2 < 2 ^ 64"

lemma block_bytes_le_image: "length (block_bytes P es) \<le> length (sst_image P es)"
  using length_data_region_ge [of P "chunks P [] es"] by (simp add: length_sst_image concat_chunks)

lemma tables_bytes:
  assumes "list_all2 (represents P w) ts ess"
  shows "length (block_bytes P (concat ess)) \<le> sum_list (map (\<lambda>t. length (contents w (sst_path t))) ts)"
  using assms
proof (induction ts arbitrary: ess)
  case (Cons t ts)
  from Cons.prems obtain es ess' where ess: "ess = es # ess'" "represents P w t es" "list_all2 (represents P w) ts ess'"
    by (auto simp: list_all2_Cons1)
  have "length (block_bytes P es) \<le> length (contents w (sst_path t))"
    using ess(2) block_bytes_le_image [of P es] by (simp add: represents_def contents_def)
  with Cons.IH [OF ess(3)] show ?case by (simp add: ess(1))
qed simp

lemma length_block_bytes: "length (block_bytes P es) = sum_list (map (\<lambda>r. length (record_bytes P r)) es)"
  by (induction es) simp_all

lemma block_bytes_subset:
  assumes "distinct xs" and "set xs \<subseteq> set ys"
  shows "length (block_bytes P xs) \<le> length (block_bytes P ys)"
proof -
  let ?f = "\<lambda>r. length (record_bytes P r)"
  have "sum_list (map ?f xs) = sum ?f (set xs)" using assms(1) by (rule sum_list_distinct_conv_sum_set)
  also have "\<dots> \<le> sum ?f (set ys)" using assms(2) by (intro sum_mono2) auto
  also have "\<dots> = sum_list (map ?f (remdups ys))" by (simp add: sum_list_distinct_conv_sum_set)
  also have "\<dots> \<le> sum_list (map ?f ys)"
  proof (induction ys)
    case (Cons y ys)
    then show ?case by auto
  qed simp
  finally show ?thesis by (simp add: length_block_bytes)
qed

lemma distinct_of_keys: "bt_sorted m \<Longrightarrow> distinct m"
  by (simp add: distinct_map bt_sorted_distinct [unfolded distinct_map])

lemma block_bytes_inserts:
  assumes "bt_sorted m"
  shows "length (block_bytes P (fold (\<lambda>(k, e). bt_insert k e) es m))
    \<le> length (block_bytes P m) + length (block_bytes P es)"
  using block_bytes_subset [of "fold (\<lambda>(k, e). bt_insert k e) es m" "es @ m" P] set_fold_bt_insert [of es m]
    distinct_of_keys [OF btree.invar_inserts [OF assms, of es]] by simp

lemma stored_bytes_engine:
  assumes "engine P w s ids ess log"
  shows "length (block_bytes P (st_data s @ concat ess)) \<le> stored_bytes P w s"
  using tables_bytes [of P w "st_sstables s" ess] assms by (simp add: engine_def stored_bytes_def)

text \<open>
  The same with the sizes counted: \<open>sized P w s m b l n\<close> says that the records of the store take at
  most \<open>b\<close> bytes, its log at most \<open>l\<close>, and that its next table id is at most \<open>n\<close>. Within
  \<open>capacity b l n\<close> no operation fails for lack of room.
\<close>

definition sized :: "prost \<Rightarrow> world \<Rightarrow> store \<Rightarrow> (bytes \<Rightarrow> db_value option) \<Rightarrow> nat \<Rightarrow> nat \<Rightarrow> nat \<Rightarrow> bool" where
  "sized P w s m b l n \<longleftrightarrow>
     (\<exists>ids ess log. engine P w s ids ess log \<and> m = view (st_data s) ess
        \<and> length (block_bytes P (st_data s @ concat ess)) \<le> b \<and> length (frames P log) \<le> l
        \<and> unat (next_sstable_id s) \<le> n)"

definition capacity :: "nat \<Rightarrow> nat \<Rightarrow> nat \<Rightarrow> bool" where
  "capacity b l n \<longleftrightarrow> 4 * b + 100 < 2 ^ 32 \<and> l < 2 ^ 62 \<and> n + 2 < 2 ^ 64"

lemma sizedI:
  assumes "engine P w s ids ess log" and "length (block_bytes P (st_data s @ concat ess)) \<le> b"
    and "length (frames P log) \<le> l" and "unat (next_sstable_id s) \<le> n" and "view (st_data s) ess = m"
  shows "sized P w s m b l n"
  using assms by (auto simp: sized_def)

lemma sizedE:
  assumes "sized P w s m b l n"
  obtains ids ess log where "engine P w s ids ess log" and "m = view (st_data s) ess"
    and "length (block_bytes P (st_data s @ concat ess)) \<le> b" and "length (frames P log) \<le> l"
    and "unat (next_sstable_id s) \<le> n"
  using assms by (auto simp: sized_def)

lemma sized_models: "sized P w s m b l n \<Longrightarrow> models P w s m"
  by (auto simp: sized_def models_def)

lemma sized_mono: "sized P w s m b l n \<Longrightarrow> b \<le> b' \<Longrightarrow> l \<le> l' \<Longrightarrow> n \<le> n' \<Longrightarrow> sized P w s m b' l' n'"
  unfolding sized_def by (blast intro: le_trans)

lemma capacity_mono: "capacity b' l' n' \<Longrightarrow> b \<le> b' \<Longrightarrow> l \<le> l' \<Longrightarrow> n \<le> n' \<Longrightarrow> capacity b l n"
  by (simp add: capacity_def)

lemma sized_later [simp]: "sized P (later k w) s m b l n = sized P w s m b l n"
  by (simp add: sized_def)

lemma engine_wal_contents:
  "engine P w s ids ess log \<Longrightarrow> contents w (wal_path (st_wal s)) = frames P log"
  by (auto simp: engine_def wal_holds_def)

lemma models_sized:
  assumes "models P w s m"
  shows "sized P w s m (stored_bytes P w s) (length (contents w (wal_path (st_wal s)))) (unat (next_sstable_id s))"
proof -
  obtain ids ess log where e: "engine P w s ids ess log" "m = view (st_data s) ess"
    using assms by (rule modelsE)
  then show ?thesis
    using stored_bytes_engine [OF e(1)] engine_wal_contents [OF e(1)] by (intro sizedI [OF e(1)]) simp_all
qed

lemma room_capacity:
  "room P w s c \<longleftrightarrow> capacity (stored_bytes P w s + c) (length (contents w (wal_path (st_wal s))) + c) (unat (next_sstable_id s))"
  by (simp add: room_def capacity_def)

context prost_codec
begin

lemma get_value_sized:
  assumes "quiet w" and "sized P w s m b l n"
  shows "\<exists>s' w'. get_value P key (s, w) = (Ok (m key), (s', w')) \<and> quiet w' \<and> sized P w' s' m b l n"
  using assms(2)
proof (rule sizedE)
  fix ids ess log
  assume e: "engine P w s ids ess log" "m = view (st_data s) ess"
    "length (block_bytes P (st_data s @ concat ess)) \<le> b" "length (frames P log) \<le> l" "unat (next_sstable_id s) \<le> n"
  obtain ts k where g: "get_value P key (s, w) = (Ok (m key), (s\<lparr>st_sstables := ts\<rparr>, later k w))"
      "engine P w (s\<lparr>st_sstables := ts\<rparr>) ids ess log"
    using get_value_engine [OF assms(1) e(1), of key] e(2) by blast
  have "sized P w (s\<lparr>st_sstables := ts\<rparr>) m b l n" using e by (intro sizedI [OF g(2)]) simp_all
  with g(1) assms(1) show ?thesis by auto
qed

lemma get_value_models:
  assumes "quiet w" and "models P w s m"
  shows "\<exists>s' w'. get_value P key (s, w) = (Ok (m key), (s', w')) \<and> quiet w' \<and> models P w' s' m"
  using get_value_sized [OF assms(1) models_sized [OF assms(2)]] sized_models by blast

lemma get_value_still:
  assumes "quiet w" and "models P w s m"
  shows "\<exists>ts n. get_value P key (s, w) = (Ok (m key), (s\<lparr>st_sstables := ts\<rparr>, later n w))
    \<and> models P (later n w) (s\<lparr>st_sstables := ts\<rparr>) m
    \<and> map (\<lambda>t. t\<lparr>sst_cache := c\<rparr>) ts = map (\<lambda>t. t\<lparr>sst_cache := c\<rparr>) (st_sstables s)"
proof -
  obtain ids ess log where e: "engine P w s ids ess log" "m = view (st_data s) ess" using assms(2) by (rule modelsE)
  from get_value_engine [OF assms(1) e(1), of key] obtain ts n where
    g: "get_value P key (s, w) = (Ok (m key), (s\<lparr>st_sstables := ts\<rparr>, later n w))"
      "engine P w (s\<lparr>st_sstables := ts\<rparr>) ids ess log" using e(2) by blast
  have "map (\<lambda>t. t\<lparr>sst_cache := c\<rparr>) ts = map (\<lambda>t. t\<lparr>sst_cache := c\<rparr>) (st_sstables s)"
    using e(1) g(2) by (intro tables_same [of P w _ ess w]) (simp_all add: engine_def)
  moreover have "models P (later n w) (s\<lparr>st_sstables := ts\<rparr>) m"
    using g(2) e(2) modelsI [of P "later n w" "s\<lparr>st_sstables := ts\<rparr>" ids ess log] by simp
  ultimately show ?thesis using g(1) by blast
qed

end

end
