(* ===== verification/Ferrum_Flush.thy ===== *)
theory Ferrum_Flush
  imports Ferrum_Engine
begin

text \<open>
  Flush and compaction keep the invariant of the store and the map it represents:
  \<open>flush\<close>, \<open>maybe_flush\<close>, \<open>maybe_compact\<close> and \<open>compact\<close> of \<open>ferrumdb-core/src/store.rs\<close>.
\<close>

section \<open>Adding and removing tables of a directory\<close>

lemma dir_holds_parts:
  assumes "dir_holds P w d ids ess"
  shows "fs_wf w" and "sorted_wrt (>) ids" and "list_all (\<lambda>i. unat i + 1 < 2 ^ 64) ids"
    and "list_all2 (\<lambda>i es. bt_sorted es \<and> table_fits P es
          \<and> file_of w (d @ [sst_file_name i]) = Some (sst_image P es)) ids ess"
    and "q \<noteq> [] \<Longrightarrow> butlast q = d \<Longrightarrow> file_of w q \<noteq> None \<or> q \<in> set (w_dirs w) \<Longrightarrow>
          sstable_id_from_path q = Some i \<Longrightarrow> i \<in> set ids \<and> q = d @ [sst_file_name i]"
proof -
  show "fs_wf w" "sorted_wrt (>) ids" "list_all (\<lambda>i. unat i + 1 < 2 ^ 64) ids"
    "list_all2 (\<lambda>i es. bt_sorted es \<and> table_fits P es
          \<and> file_of w (d @ [sst_file_name i]) = Some (sst_image P es)) ids ess"
    using assms by (simp_all add: dir_holds_def)
  show "i \<in> set ids \<and> q = d @ [sst_file_name i]"
    if "q \<noteq> []" "butlast q = d" "file_of w q \<noteq> None \<or> q \<in> set (w_dirs w)"
      "sstable_id_from_path q = Some i"
    using dir_holds_entry [OF assms, of q i] that by (simp add: mem_dir_entries)
qed

lemma dir_holds_add:
  assumes "dir_holds P w d ids ess" and "\<forall>i \<in> set ids. i < n" and "unat n + 1 < 2 ^ 64"
    and "bt_sorted es" and "table_fits P es" and "touches (d @ [sst_file_name n]) w w'"
    and "file_of w' (d @ [sst_file_name n]) = Some (sst_image P es)"
    and "d @ [sst_file_name n] \<notin> set (w_dirs w)"
  shows "dir_holds P w' d (n # ids) (es # ess)"
proof -
  note D = dir_holds_parts [OF assms(1)]
  have files: "file_of w' q = file_of w q" if "q \<noteq> d @ [sst_file_name n]" for q
    using that assms(6) by (simp add: touches_def)
  have dirs: "w_dirs w' = w_dirs w" using assms(6) by (simp add: touches_def)
  have "fs_wf w'" using touches_wf [OF assms(6) D(1) assms(8)] .
  moreover have "sorted_wrt (>) (n # ids)" using D(2) assms(2) by simp
  moreover have "list_all (\<lambda>i. unat i + 1 < 2 ^ 64) (n # ids)" using D(3) assms(3) by simp
  moreover have "list_all2 (\<lambda>i es. bt_sorted es \<and> table_fits P es
          \<and> file_of w' (d @ [sst_file_name i]) = Some (sst_image P es)) (n # ids) (es # ess)"
  proof -
    have "list_all2 (\<lambda>i es. bt_sorted es \<and> table_fits P es
          \<and> file_of w' (d @ [sst_file_name i]) = Some (sst_image P es)) ids ess"
      using D(4) assms(2)
      by (auto simp: list_all2_conv_all_nth) (metis files last_snoc less_irrefl nth_mem sst_file_name_inj)
    then show ?thesis using assms(4,5,7) by simp
  qed
  moreover have "i \<in> set (n # ids) \<and> q = d @ [sst_file_name i]"
    if "q \<noteq> [] \<and> butlast q = d \<and> (file_of w' q \<noteq> None \<or> q \<in> set (w_dirs w')) \<and> sstable_id_from_path q = Some i" for q i
  proof (cases "q = d @ [sst_file_name n]")
    case True
    then show ?thesis using that by simp
  next
    case False
    then show ?thesis using that D(5) [of q i] files dirs by auto
  qed
  ultimately show ?thesis unfolding dir_holds_def by blast
qed

lemma dir_holds_remove:
  assumes "dir_holds P w d (ids1 @ i # ids2) (ess1 @ es # ess2)" and "length ids1 = length ess1"
  shows "dir_holds P (del_file (d @ [sst_file_name i]) w) d (ids1 @ ids2) (ess1 @ ess2)"
proof -
  note D = dir_holds_parts [OF assms(1)]
  let ?p = "d @ [sst_file_name i]"
  have "fs_wf (del_file ?p w)"
    using D(1) by (auto simp: fs_wf_def) (auto simp: del_file_def distinct_delete)
  moreover have "sorted_wrt (>) (ids1 @ ids2)" using D(2) by (auto simp: sorted_wrt_append)
  moreover have "list_all (\<lambda>i. unat i + 1 < 2 ^ 64) (ids1 @ ids2)" using D(3) by simp
  moreover have "list_all2 (\<lambda>i es. bt_sorted es \<and> table_fits P es
          \<and> file_of (del_file ?p w) (d @ [sst_file_name i]) = Some (sst_image P es)) (ids1 @ ids2) (ess1 @ ess2)"
  proof -
    have "i \<notin> set (ids1 @ ids2)" using D(2) by (auto simp: sorted_wrt_append)
    moreover have "list_all2 (\<lambda>i es. bt_sorted es \<and> table_fits P es
          \<and> file_of w (d @ [sst_file_name i]) = Some (sst_image P es)) (ids1 @ ids2) (ess1 @ ess2)"
      using D(4) assms(2) by (auto simp: list_all2_append)
    ultimately show ?thesis
      by (auto simp: list_all2_conv_all_nth sst_file_name_inj) (metis nth_mem set_append UnE length_append)+
  qed
  moreover have "j \<in> set (ids1 @ ids2) \<and> q = d @ [sst_file_name j]"
    if "q \<noteq> [] \<and> butlast q = d \<and> (file_of (del_file ?p w) q \<noteq> None \<or> q \<in> set (w_dirs (del_file ?p w)))
      \<and> sstable_id_from_path q = Some j" for q j
  proof -
    have p: "?p \<notin> set (w_dirs w)"
      using D(1,4) assms(2) by (auto simp: fs_wf_def list_all2_append)
    have "j \<in> set (ids1 @ i # ids2) \<and> q = d @ [sst_file_name j]"
      using D(5) [of q j] that by (auto split: if_splits)
    moreover have "j \<noteq> i" using that p calculation by (auto split: if_splits)
    ultimately show ?thesis by auto
  qed
  ultimately show ?thesis unfolding dir_holds_def by blast
qed

lemma remove_files_ok:
  assumes "quiet w" and "dir_holds P w d (ids1 @ ids2) (ess1 @ ess2)" and "length ids1 = length ess1"
  defines "w' \<equiv> remove_files (map (\<lambda>i. d @ [sst_file_name i]) ids2) w"
  shows "quiet w' \<and> dir_holds P w' d ids1 ess1 \<and> w_dirs w' = w_dirs w \<and> w_locks w' = w_locks w
    \<and> (\<forall>q. q \<notin> (\<lambda>i. d @ [sst_file_name i]) ` set ids2 \<longrightarrow> file_of w' q = file_of w q)"
  using assms(1,2) unfolding w'_def
proof (induction ids2 arbitrary: w ess2)
  case Nil
  then have "ess2 = []" using assms(3) dir_holds_tables(3) [OF Nil(2)] by simp
  with Nil show ?case by simp
next
  case (Cons i ids2)
  from dir_holds_tables(3) [OF Cons.prems(2)] assms(3) obtain es ess3 where ess: "ess2 = es # ess3"
    by (cases ess2) auto
  let ?p = "d @ [sst_file_name i]"
  have "file_of w ?p = Some (sst_image P es)"
    using dir_holds_parts(4) [OF Cons.prems(2)] assms(3) by (simp add: ess list_all2_append)
  then have rm: "fs_remove_file ?p w = (Ok (), later 1 (del_file ?p w))"
    using Cons.prems(1) by (rule fs_remove_file_quiet [rotated])
  have "dir_holds P (later 1 (del_file ?p w)) d (ids1 @ ids2) (ess1 @ ess3)"
    using dir_holds_remove [of P w d ids1 i ids2 ess1 es ess3] Cons.prems(2) assms(3) ess
    by (simp only: dir_holds_later)
  from Cons.IH [OF _ this] Cons.prems(1) show ?case by (auto simp: rm)
qed

section \<open>Writing the next table\<close>

text \<open>The path of the next table is free, and writing it adds a table in front.\<close>

lemma next_table_free:
  assumes "engine P w s ids ess log"
  shows "st_dir s @ [sst_file_name (next_sstable_id s)] \<notin> set (w_dirs w)"
    and "writable_at w (st_dir s @ [sst_file_name (next_sstable_id s)])"
proof -
  let ?p = "st_dir s @ [sst_file_name (next_sstable_id s)]"
  have D: "dir_holds P w (st_dir s) ids ess" "dir_ready w (st_dir s)" "\<forall>i \<in> set ids. i < next_sstable_id s"
    using assms by (simp_all add: engine_def)
  show "?p \<notin> set (w_dirs w)"
  proof
    assume "?p \<in> set (w_dirs w)"
    then have "next_sstable_id s \<in> set ids"
      using dir_holds_parts(5) [OF D(1), of ?p "next_sstable_id s"] by simp
    with D(3) show False by auto
  qed
  then show "writable_at w ?p"
    using D(2) by (simp add: writable_at_def path_parent_def sst_file_name_def)
qed

lemma sst_path_fresh:
  assumes "map sst_path ts = map (\<lambda>i. d @ [sst_file_name i]) ids" and "\<forall>i \<in> set ids. i < n"
  shows "d @ [sst_file_name n] \<notin> sst_path ` set ts"
  using arg_cong [OF assms(1), of set] assms(2) by (auto simp: sst_file_name_inj)

lemma table_added:
  assumes "engine P w s ids ess log" and "bt_sorted es" and "table_fits P es"
    and "unat (next_sstable_id s) + 1 < 2 ^ 64"
  defines "p \<equiv> st_dir s @ [sst_file_name (next_sstable_id s)]"
  assumes "touches p w w'" and "file_of w' p = Some (sst_image P es)"
  shows "dir_holds P w' (st_dir s) (next_sstable_id s # ids) (es # ess)"
    and "list_all2 (represents P w') (table_of P p es # st_sstables s) (es # ess)"
    and "dir_ready w' (st_dir s)" and "wal_holds (st_wal s) w' (frames P log)"
proof -
  have E: "dir_holds P w (st_dir s) ids ess" "dir_ready w (st_dir s)" "\<forall>i \<in> set ids. i < next_sstable_id s"
    "list_all2 (represents P w) (st_sstables s) ess" "wal_path (st_wal s) = st_dir s @ [''wal.log'']"
    "map sst_path (st_sstables s) = map (\<lambda>i. st_dir s @ [sst_file_name i]) ids" "wal_holds (st_wal s) w (frames P log)"
    using assms(1) by (simp_all add: engine_def)
  note t = assms(6) and img = assms(7)
  show ready: "dir_ready w' (st_dir s)"
    using touches_dir_ready [OF t] E(2) child_not_ancestor [of p "st_dir s"] by (simp add: p_def)
  show "dir_holds P w' (st_dir s) (next_sstable_id s # ids) (es # ess)"
    using dir_holds_add [OF E(1,3) assms(4,2,3)] t img next_table_free(1) [OF assms(1)] by (simp add: p_def)
  have "list_all2 (represents P w') (st_sstables s) ess"
    using represents_touches [OF E(4) t] sst_path_fresh [OF E(6,3)] by (simp add: p_def)
  then show "list_all2 (represents P w') (table_of P p es # st_sstables s) (es # ess)"
    using represents_table_of [OF assms(2,3) img] by simp
  show "wal_holds (st_wal s) w' (frames P log)"
    using E(5,7) t ready by (auto simp: wal_holds_def contents_def writable_at_def touches_def p_def)
qed

lemma add_table:
  assumes "quiet w" and "engine P w s ids ess log" and "bt_sorted es" and "table_fits P es"
    and "unat (next_sstable_id s) + 1 < 2 ^ 64"
  defines "p \<equiv> st_dir s @ [sst_file_name (next_sstable_id s)]"
  shows "\<exists>w'. sst_flush P p es w = (Ok (table_of P p es), w') \<and> quiet w' \<and> touches p w w'
    \<and> file_of w' p = Some (sst_image P es)"
proof -
  define w' where "w' = later 4 (put_file p (sst_image P es) w)"
  have t: "touches p w w'" using touches_trans [OF touches_put_file touches_later] by (simp add: w'_def)
  have "sst_flush P p es w = (Ok (table_of P p es), w')"
    using sst_flush_ok [OF assms(1) next_table_free(2) [OF assms(2)], of es P] table_fits_bounds(4) [OF assms(4)]
    by (simp add: w'_def p_def)
  moreover have "quiet w'" using touches_quiet [OF t assms(1)] .
  ultimately show ?thesis using t by (auto simp: w'_def)
qed

section \<open>Flush\<close>

definition flush_table :: "prost \<Rightarrow> unit store_act" where
  "flush_table P = (\<lambda>(s, w).
     bindA (onW (sst_flush P (path_join (st_dir s) (sst_file_name (next_sstable_id s))) (st_data s))) (\<lambda>sst.
     bindA (updS (\<lambda>s. s\<lparr>next_sstable_id := next_sstable_id s + 1,
                        st_sstables := sst # st_sstables s, st_data := [], memtable_bytes := 0\<rparr>)) (\<lambda>_.
     on_wal wal_clear)) (s, w))"

lemma flush_split:
  "st_data s \<noteq> [] \<Longrightarrow> flush P (s, w) = bindA (flush_table P) (\<lambda>_. maybe_compact P) (s, w)"
  by (simp add: flush_def flush_table_def bindA_def split: prod.splits outcome.splits)

lemma flush_table_adds:
  assumes "flush_table P (s, w) = (Ok (), (s', w'))"
  shows "\<exists>t. st_sstables s' = t # st_sstables s"
proof -
  obtain r1 w1 where t: "sst_flush P (st_dir s @ [sst_file_name (next_sstable_id s)]) (st_data s) w = (r1, w1)" by fastforce
  show ?thesis
    using assms by (cases r1) (auto simp: flush_table_def bindA_def onW_def t updS_def on_wal_def split: prod.splits outcome.splits)
qed

text \<open>The invariant after the new table is in place and the log is empty.\<close>

lemma engine_flushed:
  assumes "engine P w s ids ess log" and "table_fits P (st_data s)" and "unat (next_sstable_id s) + 1 < 2 ^ 64"
  defines "p \<equiv> st_dir s @ [sst_file_name (next_sstable_id s)]"
  assumes "touches p w w1" and "file_of w1 p = Some (sst_image P (st_data s))"
    and "touches (wal_path (st_wal s)) w1 w2" and "wal_path l = wal_path (st_wal s)" and "wal_holds l w2 []"
  shows "engine P w2 (s\<lparr>next_sstable_id := next_sstable_id s + 1,
      st_sstables := table_of P p (st_data s) # st_sstables s, st_data := [], memtable_bytes := 0, st_wal := l\<rparr>)
    (next_sstable_id s # ids) (st_data s # ess) []"
proof -
  let ?d = "st_dir s"
  have sorted: "bt_sorted (st_data s)" using engine_mem_inv [OF assms(1)] by (simp add: mem_inv_def)
  note w1 = table_added [OF assms(1) sorted assms(2,3,5,6) [unfolded p_def]]
  have E: "wal_path (st_wal s) = ?d @ [''wal.log'']" "st_lock s = Some (?d @ [''LOCK''])"
    "?d @ [''LOCK''] \<in> set (w_locks w)" "?d @ [''LOCK''] \<notin> set (w_dirs w)" "\<forall>i \<in> set ids. i < next_sstable_id s"
    "map sst_path (st_sstables s) = map (\<lambda>i. ?d @ [sst_file_name i]) ids"
    using assms(1) by (simp_all add: engine_def)
  have t: "touches (?d @ [''wal.log'']) w1 w2" using assms(7) E(1) by simp
  have "?d @ [''wal.log''] \<notin> set (w_dirs w1)" using w1(4) E(1) by (auto simp: wal_holds_def writable_at_def)
  then have dh: "dir_holds P w2 ?d (next_sstable_id s # ids) (st_data s # ess)"
    using dir_holds_touches [OF w1(1) t] by simp
  have ready: "dir_ready w2 ?d"
    using touches_dir_ready [OF t] w1(3) child_not_ancestor [of "?d @ [''wal.log'']" ?d] by simp
  have paths: "map sst_path (table_of P p (st_data s) # st_sstables s)
      = map (\<lambda>i. ?d @ [sst_file_name i]) (next_sstable_id s # ids)"
    using E(6) by (simp add: table_of_def p_def)
  have reps: "list_all2 (represents P w2) (table_of P p (st_data s) # st_sstables s) (st_data s # ess)"
    using represents_touches [OF w1(2) t log_is_no_table [OF paths [unfolded p_def]]] by (simp only: p_def)
  have locks: "w_locks w2 = w_locks w" "w_dirs w2 = w_dirs w" using t assms(5) by (simp_all add: touches_def)
  have "\<forall>i \<in> set (next_sstable_id s # ids). i < next_sstable_id s + 1"
    using E(5) word_less_add_one [OF assms(3)] by (auto intro: less_trans)
  then show ?thesis
    using dh ready reps paths assms(8,9) E(1,2,3,4) locks unfolding engine_def by (simp add: log_data_def)
qed

lemma flush_table_ok:
  assumes "quiet w" and "engine P w s ids ess log" and "table_fits P (st_data s)"
    and "unat (next_sstable_id s) + 1 < 2 ^ 64"
  shows "\<exists>s' w'. flush_table P (s, w) = (Ok (), (s', w')) \<and> quiet w'
    \<and> engine P w' s' (next_sstable_id s # ids) (st_data s # ess) [] \<and> st_data s' = []
    \<and> next_sstable_id s' = next_sstable_id s + 1"
proof -
  let ?p = "st_dir s @ [sst_file_name (next_sstable_id s)]"
  have sorted: "bt_sorted (st_data s)" using engine_mem_inv [OF assms(2)] by (simp add: mem_inv_def)
  from add_table [OF assms(1,2) sorted assms(3,4)] obtain w1 where
    w1: "sst_flush P ?p (st_data s) w = (Ok (table_of P ?p (st_data s)), w1)" "quiet w1" "touches ?p w w1"
      "file_of w1 ?p = Some (sst_image P (st_data s))" by blast
  have "wal_holds (st_wal s) w1 (frames P log)" using table_added(4) [OF assms(2) sorted assms(3,4) w1(3,4)] .
  from wal_clear_ok [OF w1(2) this] obtain l w2 where
    w2: "wal_clear (st_wal s, w1) = (Ok (), (l, w2))" "touches (wal_path (st_wal s)) w1 w2"
      "wal_path l = wal_path (st_wal s)" "wal_holds l w2 []" by blast
  note eng = engine_flushed [OF assms(2,3,4) w1(3,4) w2(2,3,4)]
  moreover have "quiet w2" using touches_quiet [OF w2(2) w1(2)] .
  ultimately show ?thesis
    using w1(1) w2(1) by (simp add: flush_table_def bindA_def onW_def updS_def on_wal_def)
qed

lemma view_flush: "view [] (data # ess) = view data ess"
  by (simp add: view_def fun_eq_iff)

section \<open>Compaction\<close>

lemma map_of_live:
  assumes "bt_sorted m"
  shows "map_of (filter (\<lambda>(k, e). is_value e) m) k =
    (case map_of m k of Some (Value v) \<Rightarrow> Some (Value v) | _ \<Rightarrow> None)"
  using assms
proof (induction m)
  case (Cons p m)
  obtain a e where p: "p = (a, e)" by force
  have "map_of m a = None" using Cons.prems by (force simp: p map_of_eq_None_iff)
  with Cons show ?case by (cases e) (auto simp: p is_value_def split: option.splits entry.splits)
qed simp

lemma view_compact:
  assumes "bt_sorted m" and "map_of m = map_of (concat ess)"
  shows "view data [filter (\<lambda>(k, e). is_value e) m] = view data ess"
    and "filter (\<lambda>(k, e). is_value e) m = [] \<Longrightarrow> view data [] = view data ess"
proof -
  have live: "value_of_entry (map_of (filter (\<lambda>(k, e). is_value e) m) k) = value_of_entry (map_of (concat ess) k)" for k
    using map_of_live [OF assms(1), of k] assms(2)
    by (auto simp: value_of_entry_cases split: option.splits entry.splits)
  show "view data [filter (\<lambda>(k, e). is_value e) m] = view data ess"
  proof
    show "view data [filter (\<lambda>(k, e). is_value e) m] k = view data ess k" for k
      using live [of k] by (cases "map_of data k") (simp_all add: view_def map_add_def split: option.splits)
  qed
  show "view data [] = view data ess" if "filter (\<lambda>(k, e). is_value e) m = []"
  proof
    show "view data [] k = view data ess k" for k
      using live [of k] that by (cases "map_of data k") (simp_all add: view_def map_add_def split: option.splits)
  qed
qed

text \<open>Replacing all tables of a store by the tables \<open>ts\<close> that are now in the directory.\<close>

lemma engine_replace_tables:
  assumes "engine P w s ids ess log" and "dir_holds P w' (st_dir s) ids' ess'"
    and "list_all2 (represents P w') ts ess'" and "map sst_path ts = map (\<lambda>i. st_dir s @ [sst_file_name i]) ids'"
    and "\<forall>i \<in> set ids'. i < n" and "w_dirs w' = w_dirs w" and "w_locks w' = w_locks w"
    and "\<And>q. q \<in> insert (st_dir s @ [''wal.log'']) (set (ancestors (st_dir s))) \<Longrightarrow> file_of w' q = file_of w q"
  shows "engine P w' (s\<lparr>next_sstable_id := n, st_sstables := ts\<rparr>) ids' ess' log"
proof -
  have E: "dir_ready w (st_dir s)" "wal_holds (st_wal s) w (frames P log)"
    "wal_path (st_wal s) = st_dir s @ [''wal.log'']"
    using assms(1) by (simp_all add: engine_def)
  have ready: "dir_ready w' (st_dir s)"
    using E(1) assms(6,8) by (auto simp: dir_ready_def)
  moreover have "wal_holds (st_wal s) w' (frames P log)"
    using E(2,3) ready assms(6,8) by (auto simp: wal_holds_def contents_def writable_at_def)
  ultimately show ?thesis
    using assms unfolding engine_def by simp
qed

context prost_codec
begin

lemma merge_tables:
  assumes "quiet w" and "list_all2 (represents P w) ts ess"
  shows "\<exists>m n. merge_layers (read_all_entries P) (\<lambda>_. False) (\<lambda>_. True) (rev ts) [] w = (Ok m, later n w)
    \<and> bt_sorted m \<and> map_of m = map_of (concat ess) \<and> set m \<subseteq> set (concat ess)"
proof -
  have "list_all2 (represents P w) (rev ts) (rev ess)" using assms(2) by simp
  from layers.merge_layers_ok [OF assms(1) this, of "[]" "\<lambda>_. False" "\<lambda>_. True"] obtain m w'
    where "merge_layers (read_all_entries P) (\<lambda>_. False) (\<lambda>_. True) (rev ts) [] w = (Ok m, w')"
      "\<exists>n. w' = later n w" "bt_sorted m" "map_of m = map_of (concat ess) |` {k. True}"
      "set m \<subseteq> set (concat (rev ess))" by auto
  then show ?thesis by (auto simp: restrict_map_def)
qed

lemma write_merged_ok:
  assumes "quiet w" and "engine P w s ids ess log" and "bt_sorted es" and "table_fits P es"
    and "unat (next_sstable_id s) + 1 < 2 ^ 64"
  shows "\<exists>s' w'. bindA (write_merged P es) (\<lambda>_ (s', w). (Ok (), (s', remove_files (map sst_path (st_sstables s)) w))) (s, w)
      = (Ok (), (s', w')) \<and> quiet w' \<and> st_data s' = st_data s
    \<and> unat (next_sstable_id s') \<le> unat (next_sstable_id s) + 1
    \<and> (if es = [] then engine P w' s' [] [] log else engine P w' s' [next_sstable_id s] [es] log)"
proof -
  let ?d = "st_dir s" let ?p = "?d @ [sst_file_name (next_sstable_id s)]"
  have E: "dir_holds P w ?d ids ess" "map sst_path (st_sstables s) = map (\<lambda>i. ?d @ [sst_file_name i]) ids"
    "\<forall>i \<in> set ids. i < next_sstable_id s" using assms(2) by (simp_all add: engine_def)
  have others: "q \<notin> (\<lambda>i. ?d @ [sst_file_name i]) ` A \<and> q \<noteq> ?p"
    if "q \<in> insert (?d @ [''wal.log'']) (set (ancestors ?d))" for q A
    using that child_not_ancestor [of "?d @ [_]" ?d] by auto
  show ?thesis
  proof (cases "es = []")
    case True
    let ?w = "remove_files (map (\<lambda>i. ?d @ [sst_file_name i]) ids) w"
    note R = remove_files_ok [OF assms(1), of P ?d "[]" ids "[]" ess]
    have "engine P ?w (s\<lparr>next_sstable_id := next_sstable_id s, st_sstables := []\<rparr>) [] [] log"
      using R E(1) others by (intro engine_replace_tables [OF assms(2)]) simp_all
    with R E(1,2) True show ?thesis by (simp add: write_merged_def bindA_def updS_def)
  next
    case False
    from add_table [OF assms] obtain w1 where
      w1: "sst_flush P ?p es w = (Ok (table_of P ?p es), w1)" "quiet w1" "touches ?p w w1"
        "file_of w1 ?p = Some (sst_image P es)" by blast
    note A = table_added(1,2) [OF assms(2-5) w1(3,4)]
    let ?w = "remove_files (map (\<lambda>i. ?d @ [sst_file_name i]) ids) w1"
    let ?s = "s\<lparr>next_sstable_id := next_sstable_id s + 1, st_sstables := [table_of P ?p es]\<rparr>"
    have R: "quiet ?w" "dir_holds P ?w ?d [next_sstable_id s] [es]" "w_dirs ?w = w_dirs w1" "w_locks ?w = w_locks w1"
      "\<And>q. q \<notin> (\<lambda>i. ?d @ [sst_file_name i]) ` set ids \<Longrightarrow> file_of ?w q = file_of w1 q"
      using remove_files_ok [OF w1(2), of P ?d "[next_sstable_id s]" ids "[es]" ess] A(1) by simp_all
    have T: "w_dirs w1 = w_dirs w" "w_locks w1 = w_locks w" "\<And>q. q \<noteq> ?p \<Longrightarrow> file_of w1 q = file_of w q"
      using w1(3) by (simp_all add: touches_def)
    have "file_of ?w ?p = file_of w1 ?p" using E(3) by (intro R(5)) (auto simp: sst_file_name_inj)
    then have "list_all2 (represents P ?w) [table_of P ?p es] [es]"
      using A(2) by (auto intro: represents_world simp: table_of_def)
    moreover have "\<forall>i \<in> set [next_sstable_id s]. i < next_sstable_id s + 1"
      using word_less_add_one [OF assms(5)] by simp
    moreover have "map sst_path [table_of P ?p es] = map (\<lambda>i. ?d @ [sst_file_name i]) [next_sstable_id s]"
      by (simp add: table_of_def)
    moreover have "file_of ?w q = file_of w q"
      if "q \<in> insert (?d @ [''wal.log'']) (set (ancestors ?d))" for q
      using R(5) T(3) others [OF that] by metis
    ultimately have "engine P ?w ?s [next_sstable_id s] [es] log"
      using R T by (intro engine_replace_tables [OF assms(2)]) simp_all
    moreover have "unat (next_sstable_id s + 1) \<le> unat (next_sstable_id s) + 1"
      using assms(5) by (simp add: unat_word_ariths)
    ultimately show ?thesis
      using R(1) w1(1) E(2) False by (simp add: write_merged_def bindA_def updS_def onW_def)
  qed
qed

lemma compact_engine:
  assumes "quiet w" and "engine P w s ids ess log"
    and "4 * length (block_bytes P (concat ess)) + 100 < 2 ^ 32" and "unat (next_sstable_id s) + 1 < 2 ^ 64"
  shows "\<exists>s' w' ids' ess'. compact P (s, w) = (Ok (), (s', w')) \<and> quiet w' \<and> engine P w' s' ids' ess' log
    \<and> st_data s' = st_data s \<and> view (st_data s) ess' = view (st_data s) ess \<and> length ess' \<le> 1
    \<and> (2 \<le> length ess \<longrightarrow> list_all (list_all (\<lambda>(k, e). is_value e)) ess')
    \<and> length (block_bytes P (concat ess')) \<le> length (block_bytes P (concat ess))
    \<and> unat (next_sstable_id s') \<le> unat (next_sstable_id s) + 1"
proof (cases "length (st_sstables s) < 2")
  case True
  moreover have "length (st_sstables s) = length ess"
    using assms(2) by (auto simp: engine_def dest: list_all2_lengthD)
  ultimately show ?thesis
    using assms(1,2) by (intro exI [of _ s] exI [of _ w] exI [of _ ids] exI [of _ ess]) (simp add: compact_def)
next
  case False
  have reps: "list_all2 (represents P w) (st_sstables s) ess" using assms(2) by (simp add: engine_def)
  from merge_tables [OF assms(1) reps] obtain m n where
    m: "merge_layers (read_all_entries P) (\<lambda>_. False) (\<lambda>_. True) (rev (st_sstables s)) [] w = (Ok m, later n w)"
      "bt_sorted m" "map_of m = map_of (concat ess)" "set m \<subseteq> set (concat ess)" by blast
  let ?es = "filter (\<lambda>(k, e). is_value e) m"
  have sorted: "bt_sorted ?es" using m(2) by (rule bt_sorted_filter)
  have small: "length (block_bytes P ?es) \<le> length (block_bytes P (concat ess))"
    using m(4) by (intro block_bytes_subset distinct_of_keys sorted) auto
  then have fits: "table_fits P ?es" using assms(3) by (intro table_fits_size) simp
  obtain s' w' where run: "bindA (write_merged P ?es) (\<lambda>_ (s', w). (Ok (), (s', remove_files (map sst_path (st_sstables s)) w))) (s, later n w)
      = (Ok (), (s', w'))" "quiet w'" "st_data s' = st_data s" "unat (next_sstable_id s') \<le> unat (next_sstable_id s) + 1"
      "if ?es = [] then engine P w' s' [] [] log else engine P w' s' [next_sstable_id s] [?es] log"
    using write_merged_ok [of "later n w" s ids ess log ?es] assms(1,2,4) sorted fits by auto
  have "compact P (s, w) = (Ok (), (s', w'))"
    using False run(1) by (simp add: compact_def bindA_def onW_def m(1) Let_def)
  moreover obtain ids' where "engine P w' s' ids' (if ?es = [] then [] else [?es]) log"
    using run(5) by (cases "?es = []") auto
  moreover have "view (st_data s) (if ?es = [] then [] else [?es]) = view (st_data s) ess"
    using view_compact [OF m(2,3), of "st_data s"] by (cases "?es = []") simp_all
  ultimately show ?thesis
    using run(2-4) small
    by (intro exI [of _ s'] exI [of _ w'] exI [of _ ids'] exI [of _ "if ?es = [] then [] else [?es]"])
      (simp add: list_all_iff)
qed

lemma maybe_compact_engine:
  assumes "quiet w" and "engine P w s ids ess log"
    and "4 * length (block_bytes P (concat ess)) + 100 < 2 ^ 32" and "unat (next_sstable_id s) + 1 < 2 ^ 64"
  shows "\<exists>s' w' ids' ess'. maybe_compact P (s, w) = (Ok (), (s', w')) \<and> quiet w' \<and> engine P w' s' ids' ess' log
    \<and> st_data s' = st_data s \<and> view (st_data s) ess' = view (st_data s) ess \<and> length ess' \<le> MAX_SSTABLES
    \<and> length (block_bytes P (concat ess')) \<le> length (block_bytes P (concat ess))
    \<and> unat (next_sstable_id s') \<le> unat (next_sstable_id s) + 1"
proof (cases "MAX_SSTABLES < length (st_sstables s)")
  case True
  then show ?thesis
    using compact_engine [OF assms] by (fastforce simp: maybe_compact_def MAX_SSTABLES_def)
next
  case False
  moreover have "length (st_sstables s) = length ess"
    using assms(2) by (auto simp: engine_def dest: list_all2_lengthD)
  ultimately show ?thesis
    using assms(1,2)
    by (intro exI [of _ s] exI [of _ w] exI [of _ ids] exI [of _ ess]) (simp add: maybe_compact_def)
qed

lemma flush_engine:
  assumes "quiet w" and "engine P w s ids ess log" and "st_data s \<noteq> []"
    and "4 * length (block_bytes P (st_data s @ concat ess)) + 100 < 2 ^ 32" and "unat (next_sstable_id s) + 2 < 2 ^ 64"
  shows "\<exists>s' w' ids' ess'. flush P (s, w) = (Ok (), (s', w')) \<and> quiet w' \<and> engine P w' s' ids' ess' []
    \<and> st_data s' = [] \<and> view [] ess' = view (st_data s) ess \<and> length ess' \<le> MAX_SSTABLES
    \<and> length (block_bytes P (concat ess')) \<le> length (block_bytes P (st_data s @ concat ess))
    \<and> unat (next_sstable_id s') \<le> unat (next_sstable_id s) + 2"
proof -
  have "table_fits P (st_data s)" using assms(4) by (intro table_fits_size) simp
  from flush_table_ok [OF assms(1,2) this] assms(5) obtain s1 w1 where
    f: "flush_table P (s, w) = (Ok (), (s1, w1))" "quiet w1"
      "engine P w1 s1 (next_sstable_id s # ids) (st_data s # ess) []" "st_data s1 = []"
      "next_sstable_id s1 = next_sstable_id s + 1" by auto
  have id_s1: "unat (next_sstable_id s1) = unat (next_sstable_id s) + 1"
    using assms(5) by (simp add: f(5) unat_word_ariths)
  with assms(5) have id1: "unat (next_sstable_id s1) + 1 < 2 ^ 64" by simp
  have "4 * length (block_bytes P (concat (st_data s # ess))) + 100 < 2 ^ 32" using assms(4) by simp
  from maybe_compact_engine [OF f(2,3) this id1] obtain s' w' ids' ess' where
    c: "maybe_compact P (s1, w1) = (Ok (), (s', w'))" "quiet w'" "engine P w' s' ids' ess' []"
      "st_data s' = []" "view [] ess' = view [] (st_data s # ess)" "length ess' \<le> MAX_SSTABLES"
      "length (block_bytes P (concat ess')) \<le> length (block_bytes P (concat (st_data s # ess)))"
      "unat (next_sstable_id s') \<le> unat (next_sstable_id s1) + 1"
    using f(4) by auto
  then show ?thesis
    using f(1) flush_split [OF assms(3)] id_s1
    by (intro exI [of _ s'] exI [of _ w'] exI [of _ ids'] exI [of _ ess']) (simp add: bindA_def view_flush)
qed

text \<open>The three operations with their sizes: records are never duplicated, and one or two ids are used.\<close>

lemma flush_sized:
  assumes "quiet w" and "sized P w s m b l n" and "capacity b l n"
  shows "\<exists>s' w'. flush P (s, w) = (Ok (), (s', w')) \<and> quiet w' \<and> sized P w' s' m b l (n + 2) \<and> st_data s' = []"
proof (cases "st_data s = []")
  case True
  then show ?thesis
    using assms sized_mono [OF assms(2), of b l "n + 2"] by (intro exI [of _ s] exI [of _ w]) (simp add: flush_def)
next
  case False
  obtain ids ess log where e: "engine P w s ids ess log" "m = view (st_data s) ess"
    "length (block_bytes P (st_data s @ concat ess)) \<le> b" "unat (next_sstable_id s) \<le> n"
    using assms(2) by (rule sizedE)
  have "4 * length (block_bytes P (st_data s @ concat ess)) + 100 < 2 ^ 32" "unat (next_sstable_id s) + 2 < 2 ^ 64"
    using e(3,4) assms(3) by (simp_all add: capacity_def)
  from flush_engine [OF assms(1) e(1) False this] obtain s' w' ids' ess' where
    f: "flush P (s, w) = (Ok (), (s', w'))" "quiet w'" "engine P w' s' ids' ess' []" "st_data s' = []"
      "view [] ess' = view (st_data s) ess"
      "length (block_bytes P (concat ess')) \<le> length (block_bytes P (st_data s @ concat ess))"
      "unat (next_sstable_id s') \<le> unat (next_sstable_id s) + 2" by blast
  then have "sized P w' s' m b l (n + 2)" using e(2-4) by (intro sizedI [OF f(3)]) simp_all
  with f(1,2,4) show ?thesis by blast
qed

lemma maybe_flush_sized:
  assumes "quiet w" and "sized P w s m b l n" and "capacity b l n"
  shows "\<exists>s' w'. maybe_flush P (s, w) = (Ok (), (s', w')) \<and> quiet w' \<and> sized P w' s' m b l (n + 2)"
proof (cases "memtable_max_bytes s \<le> memtable_bytes s")
  case True
  with flush_sized [OF assms] show ?thesis by (auto simp: maybe_flush_def)
next
  case False
  then show ?thesis
    using assms(1) sized_mono [OF assms(2), of b l "n + 2"] by (simp add: maybe_flush_def)
qed

lemma compact_sized:
  assumes "quiet w" and "sized P w s m b l n" and "capacity b l n"
  shows "\<exists>s' w'. compact P (s, w) = (Ok (), (s', w')) \<and> quiet w' \<and> sized P w' s' m b l (n + 1)
    \<and> st_data s' = st_data s \<and> length (st_sstables s') \<le> 1"
proof -
  obtain ids ess log where e: "engine P w s ids ess log" "m = view (st_data s) ess"
    "length (block_bytes P (st_data s @ concat ess)) \<le> b" "length (frames P log) \<le> l" "unat (next_sstable_id s) \<le> n"
    using assms(2) by (rule sizedE)
  have "4 * length (block_bytes P (concat ess)) + 100 < 2 ^ 32" "unat (next_sstable_id s) + 1 < 2 ^ 64"
    using assms(3) e(3,5) by (simp_all add: capacity_def)
  from compact_engine [OF assms(1) e(1) this] obtain s' w' ids' ess' where
    c: "compact P (s, w) = (Ok (), (s', w'))" "quiet w'" "engine P w' s' ids' ess' log"
      "st_data s' = st_data s" "view (st_data s) ess' = view (st_data s) ess" "length ess' \<le> 1"
      "length (block_bytes P (concat ess')) \<le> length (block_bytes P (concat ess))"
      "unat (next_sstable_id s') \<le> unat (next_sstable_id s) + 1" by blast
  moreover have "sized P w' s' m b l (n + 1)" using c(4,5,7,8) e(2-5) by (intro sizedI [OF c(3)]) simp_all
  moreover have "length (st_sstables s') = length ess'"
    using c(3) by (auto simp: engine_def dest: list_all2_lengthD)
  ultimately show ?thesis by auto
qed

text \<open>What a flush leaves in the store: the memtable as a new table in front, or the result of a compaction.\<close>

lemma flush_tables:
  assumes "quiet w" and "engine P w s ids ess log" and "st_data s \<noteq> []"
    and "4 * length (block_bytes P (st_data s @ concat ess)) + 100 < 2 ^ 32" and "unat (next_sstable_id s) + 2 < 2 ^ 64"
    and "flush P (s, w) = (Ok (), (s', w'))"
  shows "contents w' (wal_path (st_wal s')) = []"
    and "length (st_sstables s) < MAX_SSTABLES \<Longrightarrow> \<exists>t. st_sstables s' = t # st_sstables s \<and> represents P w' t (st_data s)"
    and "MAX_SSTABLES \<le> length (st_sstables s) \<Longrightarrow> length (st_sstables s') \<le> 1"
proof -
  have "table_fits P (st_data s)" using assms(4) by (intro table_fits_size) simp
  from flush_table_ok [OF assms(1,2) this] assms(5) obtain s1 w1 where
    f: "flush_table P (s, w) = (Ok (), (s1, w1))" "quiet w1"
      "engine P w1 s1 (next_sstable_id s # ids) (st_data s # ess) []"
      "next_sstable_id s1 = next_sstable_id s + 1" by auto
  from flush_table_adds [OF f(1)] obtain t where t: "st_sstables s1 = t # st_sstables s" ..
  then have rep: "represents P w1 t (st_data s)" using f(3) by (simp add: engine_def)
  have mc: "maybe_compact P (s1, w1) = (Ok (), (s', w'))"
    using assms(6) f(1) flush_split [OF assms(3)] by (simp add: bindA_def)
  show "\<exists>t. st_sstables s' = t # st_sstables s \<and> represents P w' t (st_data s)" if "length (st_sstables s) < MAX_SSTABLES"
    using mc that t rep by (auto simp: maybe_compact_def)
  show "contents w' (wal_path (st_wal s')) = []"
    using flush_engine [OF assms(1-5)] assms(6) engine_wal_contents by fastforce
  show "length (st_sstables s') \<le> 1" if "MAX_SSTABLES \<le> length (st_sstables s)"
  proof -
    have "unat (next_sstable_id s1) + 1 < 2 ^ 64" using assms(5) by (simp add: f(4) unat_word_ariths)
    moreover have "4 * length (block_bytes P (concat (st_data s # ess))) + 100 < 2 ^ 32" using assms(4) by simp
    ultimately obtain s2 w2 ids2 ess2 where c: "compact P (s1, w1) = (Ok (), (s2, w2))" "engine P w2 s2 ids2 ess2 []" "length ess2 \<le> 1"
      using compact_engine [OF f(2,3)] by blast
    then show ?thesis using mc that t by (auto simp: maybe_compact_def engine_def dest: list_all2_lengthD)
  qed
qed

lemma flush_models:
  assumes "quiet w" and "models P w s m" and "room P w s 0"
  shows "\<exists>s' w'. flush P (s, w) = (Ok (), (s', w')) \<and> quiet w' \<and> models P w' s' m \<and> st_data s' = []
    \<and> (if st_data s = [] then s' = s \<and> w' = w
       else contents w' (wal_path (st_wal s')) = []
         \<and> (if length (st_sstables s) < MAX_SSTABLES
             then \<exists>t. st_sstables s' = t # st_sstables s \<and> represents P w' t (st_data s)
             else length (st_sstables s') \<le> 1))"
proof -
  obtain s' w' where f: "flush P (s, w) = (Ok (), (s', w'))" "quiet w'" "models P w' s' m" "st_data s' = []"
    using flush_sized [OF assms(1) models_sized [OF assms(2)]] assms(3) sized_models by (simp add: room_capacity) blast
  obtain ids ess log where e: "engine P w s ids ess log" using assms(2) by (rule modelsE)
  have size: "4 * length (block_bytes P (st_data s @ concat ess)) + 100 < 2 ^ 32" "unat (next_sstable_id s) + 2 < 2 ^ 64"
    using assms(3) stored_bytes_engine [OF e] by (simp_all add: room_def)
  show ?thesis
  proof (cases "st_data s = []")
    case True
    with f show ?thesis by (intro exI [of _ s'] exI [of _ w']) (simp add: flush_def)
  next
    case False
    from flush_tables [OF assms(1) e False size f(1)] f False show ?thesis
      by (intro exI [of _ s'] exI [of _ w']) (simp add: linorder_not_less)
  qed
qed

lemma compact_models:
  assumes "quiet w" and "models P w s m" and "room P w s 0"
  shows "\<exists>s' w'. compact P (s, w) = (Ok (), (s', w')) \<and> quiet w' \<and> models P w' s' m
    \<and> st_data s' = st_data s \<and> length (st_sstables s') \<le> 1"
  using compact_sized [OF assms(1) models_sized [OF assms(2)]] assms(3) sized_models by (simp add: room_capacity) blast

end

end
