(* ===== verification/Ferrum_Ops.thy ===== *)
theory Ferrum_Ops
  imports Ferrum_Flush
begin

text \<open>
  The operations a client calls on a store, against the map it represents: writes and
  deletes, scans, and transactions of \<open>ferrumdb-core/src/store.rs\<close>, in a world without I/O
  faults. What survives a fault is the subject of \<open>Ferrum_Crash\<close>.
\<close>

section \<open>Writes\<close>

definition batch_cost :: "prost \<Rightarrow> store \<Rightarrow> (bytes \<times> db_value option) list \<Rightarrow> nat" where
  "batch_cost P s ps =
     length (block_bytes P (pending_ops ps)) + length (frames P (batch_log (st_sequence s) ps))"

lemma stored_bytes_touches:
  assumes "engine P w s ids ess log" and "touches (wal_path (st_wal s)) w w'"
  shows "sum_list (map (\<lambda>t. length (contents w' (sst_path t))) (st_sstables s))
    = sum_list (map (\<lambda>t. length (contents w (sst_path t))) (st_sstables s))"
proof -
  have "contents w' (sst_path t) = contents w (sst_path t)" if "t \<in> set (st_sstables s)" for t
  proof -
    have "wal_path (st_wal s) \<notin> sst_path ` set (st_sstables s)"
      using log_is_no_table [of "st_sstables s" "st_dir s" ids] assms(1) by (simp add: engine_def)
    then have "sst_path t \<noteq> wal_path (st_wal s)" using that by (metis imageI)
    with assms(2) show ?thesis by (simp add: touches_def contents_def)
  qed
  then show ?thesis by (intro arg_cong [of _ _ sum_list]) simp
qed

context prost_codec
begin

text \<open>The state after a batch is in the log and in the memtable.\<close>

lemma batch_engine:
  assumes "engine P w s ids ess log" and "bt_sorted ps"
    and "length (frames P log) + length (frames P (batch_log (st_sequence s) ps)) < 2 ^ 62"
    and "touches (wal_path (st_wal s)) w w1" and "s1 = s\<lparr>st_wal := st_wal s1, st_sequence := st_sequence s1\<rparr>"
    and "wal_path (st_wal s1) = wal_path (st_wal s)"
    and "wal_holds (st_wal s1) w1 (frames P log @ frames P (batch_log (st_sequence s) ps))"
  defines "s2 \<equiv> insert_all (pending_ops ps) s1"
  shows "engine P w1 s2 ids ess (log @ batch_log (st_sequence s) ps)"
    and "length (block_bytes P (st_data s2)) \<le> length (block_bytes P (st_data s)) + length (block_bytes P (pending_ops ps))"
    and "view (st_data s2) ess = apply_batch ps (view (st_data s) ess)"
    and "st_dir s2 = st_dir s" and "st_sstables s2 = st_sstables s" and "next_sstable_id s2 = next_sstable_id s"
proof -
  let ?b = "batch_log (st_sequence s) ps"
  have len: "length (frames P (log @ ?b)) < 2 ^ 62" using assms(3) by simp
  show eng: "engine P w1 s2 ids ess (log @ ?b)"
    using engine_batch [OF assms(1,4,6), of "st_sequence s" ps "st_sequence s1"] assms(7) len
    by (simp add: s2_def flip: assms(5))
  have sorted: "bt_sorted (st_data s)" using engine_mem_inv [OF assms(1)] by (simp add: mem_inv_def)
  have s1: "st_data s1 = st_data s" "st_sstables s1 = st_sstables s" "next_sstable_id s1 = next_sstable_id s"
    "st_dir s1 = st_dir s" by (subst assms(5), simp)+
  show "length (block_bytes P (st_data s2)) \<le> length (block_bytes P (st_data s)) + length (block_bytes P (pending_ops ps))"
    using block_bytes_inserts [OF sorted, of P "pending_ops ps"] by (simp add: s1 s2_def)
  show "view (st_data s2) ess = apply_batch ps (view (st_data s) ess)"
    using view_batch [OF sorted assms(2)] by (simp add: s1 s2_def)
  show "st_dir s2 = st_dir s" and "st_sstables s2 = st_sstables s" and "next_sstable_id s2 = next_sstable_id s"
    by (simp_all add: s1 s2_def)
qed

lemma batch_applied:
  assumes "engine P w s ids ess log" and "bt_sorted ps" and "room P w s (batch_cost P s ps)"
    and "touches (wal_path (st_wal s)) w w1" and "s1 = s\<lparr>st_wal := st_wal s1, st_sequence := st_sequence s1\<rparr>"
    and "wal_path (st_wal s1) = wal_path (st_wal s)"
    and "wal_holds (st_wal s1) w1 (frames P log @ frames P (batch_log (st_sequence s) ps))"
  defines "s2 \<equiv> insert_all (pending_ops ps) s1"
  shows "engine P w1 s2 ids ess (log @ batch_log (st_sequence s) ps)" and "room P w1 s2 0"
    and "view (st_data s2) ess = apply_batch ps (view (st_data s) ess)"
    and "st_dir s2 = st_dir s" and "st_sstables s2 = st_sstables s"
proof -
  have len: "length (frames P log) + length (frames P (batch_log (st_sequence s) ps)) < 2 ^ 62"
    using assms(3) engine_wal_contents [OF assms(1)] by (simp add: room_def batch_cost_def)
  note B = batch_engine [OF assms(1,2) len assms(4-7), folded s2_def]
  show "engine P w1 s2 ids ess (log @ batch_log (st_sequence s) ps)"
    "view (st_data s2) ess = apply_batch ps (view (st_data s) ess)" "st_dir s2 = st_dir s" "st_sstables s2 = st_sstables s"
    using B by simp_all
  have "stored_bytes P w1 s2 \<le> stored_bytes P w s + length (block_bytes P (pending_ops ps))"
    using B(2) stored_bytes_touches [OF assms(1,4)] by (simp add: stored_bytes_def B(5))
  moreover have "length (contents w1 (wal_path (st_wal s2))) < 2 ^ 62"
    using engine_wal_contents [OF B(1)] len by simp
  ultimately show "room P w1 s2 0" using assms(3) by (simp add: room_def batch_cost_def B(6))
qed

lemma write_batch_sized:
  assumes "quiet w" and "sized P w s m b l n" and "bt_sorted ps" and "batch_cost P s ps \<le> c"
    and "capacity (b + c) (l + c) n"
  shows "\<exists>s' w'. write_batch P ps (s, w) = (Ok (), (s', w')) \<and> quiet w'
    \<and> sized P w' s' (apply_batch ps m) (b + c) (l + c) (n + 2)"
proof -
  obtain ids ess log where e: "engine P w s ids ess log" "m = view (st_data s) ess"
    "length (block_bytes P (st_data s @ concat ess)) \<le> b" "length (frames P log) \<le> l" "unat (next_sstable_id s) \<le> n"
    using assms(2) by (rule sizedE)
  have "wal_holds (st_wal s) w (frames P log)" using e(1) by (simp add: engine_def)
  from log_batch_ok [OF assms(1) this, of P ps] obtain s1 w1 where
    g: "log_batch P ps (s, w) = (Ok (), (s1, w1))" "quiet w1" "touches (wal_path (st_wal s)) w w1"
      "s1 = s\<lparr>st_wal := st_wal s1, st_sequence := st_sequence s1\<rparr>" "wal_path (st_wal s1) = wal_path (st_wal s)"
      "wal_holds (st_wal s1) w1 (frames P log @ frames P (batch_log (st_sequence s) ps))" by blast
  have "length (frames P log) + length (frames P (batch_log (st_sequence s) ps)) < 2 ^ 62"
    using assms(4,5) e(4) by (simp add: capacity_def batch_cost_def)
  note B = batch_engine [OF e(1) assms(3) this g(3-6)]
  have "sized P w1 (insert_all (pending_ops ps) s1) (apply_batch ps m) (b + c) (l + c) n"
    using B(2,3,6) e(2-5) assms(4) by (intro sizedI [OF B(1)]) (simp_all add: batch_cost_def)
  from maybe_flush_sized [OF g(2) this assms(5)] g(1) show ?thesis
    by (auto simp: write_batch_def bindA_def updS_def fold_pending_apply)
qed

lemma apply_batch_single: "apply_batch [(k, v)] m = m(k := v)"
  by (auto simp: apply_batch_def)

lemma set_value_sized:
  assumes "quiet w" and "sized P w s m b l n" and "batch_cost P s [(k, Some v)] \<le> c" and "capacity (b + c) (l + c) n"
  shows "\<exists>s' w'. set_value P k v (s, w) = (Ok ''Inserted value'', (s', w')) \<and> quiet w'
    \<and> sized P w' s' (m(k \<mapsto> v)) (b + c) (l + c) (n + 2)"
  using write_batch_sized [OF assms(1,2) _ assms(3,4)] by (auto simp: set_value_batch bindA_def apply_batch_single)

lemma delete_value_sized:
  assumes "quiet w" and "sized P w s m b l n" and "batch_cost P s [(k, None)] \<le> c" and "capacity (b + c) (l + c) n"
  shows "\<exists>s' w'. delete_value P k (s, w) = (Ok ''Deleted value'', (s', w')) \<and> quiet w'
    \<and> sized P w' s' (m(k := None)) (b + c) (l + c) (n + 2)"
  using write_batch_sized [OF assms(1,2) _ assms(3,4)] by (auto simp: delete_value_batch bindA_def apply_batch_single)

lemma set_value_models:
  assumes "quiet w" and "models P w s m" and "room P w s (batch_cost P s [(k, Some v)])"
  shows "\<exists>s' w'. set_value P k v (s, w) = (Ok ''Inserted value'', (s', w')) \<and> quiet w' \<and> models P w' s' (m(k \<mapsto> v))"
  using set_value_sized [OF assms(1) models_sized [OF assms(2)] order_refl] assms(3) sized_models
  by (simp add: room_capacity) blast

lemma delete_value_models:
  assumes "quiet w" and "models P w s m" and "room P w s (batch_cost P s [(k, None)])"
  shows "\<exists>s' w'. delete_value P k (s, w) = (Ok ''Deleted value'', (s', w')) \<and> quiet w' \<and> models P w' s' (m(k := None))"
  using delete_value_sized [OF assms(1) models_sized [OF assms(2)] order_refl] assms(3) sized_models
  by (simp add: room_capacity) blast

end

section \<open>Scans\<close>

lemma map_of_live_pairs: "bt_sorted m \<Longrightarrow> map_of (live_pairs m) k = value_of_entry (map_of m k)"
proof (induction m)
  case (Cons p m)
  obtain a e where p: "p = (a, e)" by force
  have "map_of m a = None" using Cons.prems by (force simp: p map_of_eq_None_iff)
  with Cons show ?case by (cases e) (auto simp: p live_pairs_def List.map_filter_simps)
qed (simp add: live_pairs_def List.map_filter_simps)

lemma keys_live_pairs: "fst ` set (live_pairs m) \<subseteq> fst ` set m"
  by (force simp: live_pairs_def List.map_filter_def split: entry.splits)

lemma bt_sorted_live_pairs: "bt_sorted m \<Longrightarrow> bt_sorted (live_pairs m)"
proof (induction m)
  case (Cons p m)
  obtain a e where p: "p = (a, e)" by force
  have "\<forall>x \<in> fst ` set (live_pairs m). a < x"
    using Cons.prems keys_live_pairs [of m] unfolding p bt_sorted_Cons by blast
  with Cons show ?case by (cases e) (simp_all add: p live_pairs_def List.map_filter_simps)
qed (simp add: live_pairs_def List.map_filter_simps)

lemma range_overlaps_complete:
  assumes "mn \<le> k" and "k \<le> mx" and "in_bounds k lo hi"
  shows "range_overlaps mn mx lo hi"
  using assms
  by (cases lo; cases hi) (auto simp: range_overlaps_def in_bounds_def not_less not_le)

lemma scan_skips_sound:
  assumes "scan_skips lo hi t" and "represents P w t es" and "(k, e) \<in> set es"
  shows "\<not> in_bounds k lo hi"
proof
  assume "in_bounds k lo hi"
  moreover obtain mn mx where r: "key_range t = Some (mn, mx)" "\<not> range_overlaps mn mx lo hi"
    using assms(1) by (auto simp: scan_skips_def split: option.splits)
  moreover have "mn \<le> k" "k \<le> mx" using key_range_covers [OF assms(2) r(1) assms(3)] by simp_all
  ultimately show False using range_overlaps_complete by blast
qed

context prost_codec
begin

lemma scan_range_engine:
  assumes "quiet w" and "engine P w s ids ess log" and "st_data s = [] \<or> \<not> range_panics lo hi"
  shows "\<exists>ps n. scan_range P lo hi (s, w) = (Ok ps, (s, later n w)) \<and> bt_sorted ps
    \<and> (\<forall>k. map_of ps k = (if in_bounds k lo hi then view (st_data s) ess k else None))"
proof -
  have "list_all2 (represents P w) (rev (st_sstables s)) (rev ess)" using assms(2) by (simp add: engine_def)
  moreover have "\<forall>t es k e. scan_skips lo hi t \<longrightarrow> represents P w t es \<longrightarrow> (k, e) \<in> set es \<longrightarrow> \<not> in_bounds k lo hi"
    using scan_skips_sound by blast
  ultimately obtain m n where
    m: "merge_layers (read_all_entries P) (scan_skips lo hi) (\<lambda>k. in_bounds k lo hi) (rev (st_sstables s)) [] w
        = (Ok m, later n w)" "bt_sorted m" "map_of m = map_of (concat ess) |` {k. in_bounds k lo hi}"
    using layers.merge_layers_ok [OF assms(1), of "rev (st_sstables s)" "rev ess" "[]" "scan_skips lo hi"
        "\<lambda>k. in_bounds k lo hi"] by auto
  let ?mem = "filter (\<lambda>(k, e). in_bounds k lo hi) (st_data s)"
  let ?all = "fold (\<lambda>(k, e). bt_insert k e) ?mem m"
  have "bt_sorted ?mem" using engine_mem_inv [OF assms(2)] by (simp add: mem_inv_def bt_sorted_filter)
  note F = fold_bt_insert [OF m(2) this]
  have "bt_range lo hi (st_data s) = Ok ?mem" using assms(3) by (auto simp: bt_range_def)
  then have "scan_range P lo hi (s, w) = (Ok (live_pairs ?all), (s, later n w))"
    using m(1) by (simp add: scan_range_def bindA_def onW_def)
  moreover have "map_of (live_pairs ?all) k = (if in_bounds k lo hi then view (st_data s) ess k else None)" for k
    unfolding map_of_live_pairs [OF F(1)] F(2) m(3) map_of_filter_key
    by (simp add: view_def map_add_def restrict_map_def split: option.splits)
  ultimately show ?thesis using bt_sorted_live_pairs [OF F(1)] by blast
qed

lemma scan_range_sized:
  assumes "quiet w" and "sized P w s m b l n" and "st_data s = [] \<or> \<not> range_panics lo hi"
  shows "\<exists>ps w'. scan_range P lo hi (s, w) = (Ok ps, (s, w')) \<and> quiet w' \<and> sized P w' s m b l n \<and> bt_sorted ps
    \<and> (\<forall>k. map_of ps k = (if in_bounds k lo hi then m k else None))"
proof -
  obtain ids ess log where e: "engine P w s ids ess log" "m = view (st_data s) ess"
    using assms(2) by (rule sizedE)
  from scan_range_engine [OF assms(1) e(1) assms(3)] obtain ps k where
    s: "scan_range P lo hi (s, w) = (Ok ps, (s, later k w))" "bt_sorted ps"
      "\<forall>k. map_of ps k = (if in_bounds k lo hi then m k else None)"
    unfolding e(2) by blast
  then show ?thesis using assms(1,2) by (intro exI [of _ ps] exI [of _ "later k w"]) simp
qed

lemma scan_range_models:
  assumes "quiet w" and "models P w s m" and "st_data s = [] \<or> \<not> range_panics lo hi"
  shows "\<exists>ps w'. scan_range P lo hi (s, w) = (Ok ps, (s, w')) \<and> quiet w' \<and> models P w' s m \<and> bt_sorted ps
    \<and> (\<forall>k. map_of ps k = (if in_bounds k lo hi then m k else None))"
  using scan_range_sized [OF assms(1) models_sized [OF assms(2)] assms(3)] sized_models by blast

lemma scan_range_panics:
  assumes "quiet w" and "engine P w s ids ess log" and "st_data s \<noteq> []" and "range_panics lo hi"
  shows "fst (scan_range P lo hi (s, w)) = Panic"
proof -
  have "list_all2 (represents P w) (rev (st_sstables s)) (rev ess)" using assms(2) by (simp add: engine_def)
  moreover have "\<forall>t es k e. scan_skips lo hi t \<longrightarrow> represents P w t es \<longrightarrow> (k, e) \<in> set es \<longrightarrow> \<not> in_bounds k lo hi"
    using scan_skips_sound by blast
  ultimately obtain m w' where
    "merge_layers (read_all_entries P) (scan_skips lo hi) (\<lambda>k. in_bounds k lo hi) (rev (st_sstables s)) [] w = (Ok m, w')"
    using layers.merge_layers_ok [OF assms(1), of "rev (st_sstables s)" "rev ess" "[]" "scan_skips lo hi"
        "\<lambda>k. in_bounds k lo hi"] by auto
  then show ?thesis using assms(3,4) by (simp add: scan_range_def bindA_def onW_def bt_range_def)
qed

end

section \<open>Transactions\<close>

datatype tx_op = TxSet bytes db_value | TxDelete bytes

fun tx_step :: "tx_op \<Rightarrow> transaction \<Rightarrow> transaction" where
  "tx_step (TxSet k v) t = tx_set_value k v t"
| "tx_step (TxDelete k) t = tx_delete_value k t"

fun op_effect :: "tx_op \<Rightarrow> (bytes \<Rightarrow> db_value option) \<Rightarrow> bytes \<Rightarrow> db_value option" where
  "op_effect (TxSet k v) m = m(k \<mapsto> v)"
| "op_effect (TxDelete k) m = m(k := None)"

lemma tx_step_fields:
  "tx_store (tx_step op t) = tx_store t"
  "bt_sorted (tx_pending t) \<Longrightarrow> bt_sorted (tx_pending (tx_step op t))"
  by (cases op; simp add: tx_set_value_def tx_delete_value_def bt_sorted_insert)+

lemma tx_steps:
  "tx_store (fold tx_step ops t) = tx_store t"
  "bt_sorted (tx_pending t) \<Longrightarrow> bt_sorted (tx_pending (fold tx_step ops t))"
  by (induction ops arbitrary: t) (simp_all add: tx_step_fields)

lemma tx_step_batch: "apply_batch (tx_pending (tx_step op t)) m = op_effect op (apply_batch (tx_pending t) m)"
  by (cases op) (auto simp: apply_batch_def tx_set_value_def tx_delete_value_def map_of_bt_insert fun_eq_iff)

lemma tx_steps_batch:
  "apply_batch (tx_pending (fold tx_step ops t)) m = fold op_effect ops (apply_batch (tx_pending t) m)"
  by (induction ops arbitrary: t) (simp_all add: tx_step_batch)

lemma begin_transaction_simps [simp]:
  "tx_store (begin_transaction s) = s" "tx_pending (begin_transaction s) = []"
  by (simp_all add: begin_transaction_def)

lemma apply_batch_Nil [simp]: "apply_batch [] m = m"
  by (simp add: apply_batch_def fun_eq_iff)

context prost_codec
begin

lemma tx_get_value_models:
  assumes "quiet w" and "models P w (tx_store t) m"
  shows "\<exists>t' w'. tx_get_value P key (t, w) = (Ok (apply_batch (tx_pending t) m key), (t', w'))
    \<and> quiet w' \<and> models P w' (tx_store t') m \<and> tx_pending t' = tx_pending t"
proof (cases "map_of (tx_pending t) key")
  case None
  obtain s' w' where "get_value P key (tx_store t, w) = (Ok (m key), (s', w'))" "quiet w'" "models P w' s' m"
    using get_value_models [OF assms, of key] by blast
  with None show ?thesis by (simp add: tx_get_value_def apply_batch_def)
next
  case (Some val)
  then show ?thesis
    using assms by (intro exI [of _ t] exI [of _ w]) (cases val; simp add: tx_get_value_def apply_batch_def)
qed

lemma tx_commit_sized:
  assumes "quiet w" and "sized P w (tx_store t) m b l n" and "bt_sorted (tx_pending t)"
    and "batch_cost P (tx_store t) (tx_pending t) \<le> c" and "capacity (b + c) (l + c) n"
  shows "\<exists>s' w'. tx_commit P t w = (Ok (), (s', w')) \<and> quiet w'
    \<and> sized P w' s' (apply_batch (tx_pending t) m) (b + c) (l + c) (n + 2)"
proof (cases "tx_pending t = []")
  case True
  with assms(1) sized_mono [OF assms(2)] show ?thesis by (simp add: tx_commit_def)
next
  case False
  with write_batch_sized [OF assms] show ?thesis by (simp add: tx_commit_batch)
qed

lemma tx_commit_models:
  assumes "quiet w" and "models P w (tx_store t) m" and "bt_sorted (tx_pending t)"
    and "room P w (tx_store t) (batch_cost P (tx_store t) (tx_pending t))"
  shows "\<exists>s' w'. tx_commit P t w = (Ok (), (s', w')) \<and> quiet w' \<and> models P w' s' (apply_batch (tx_pending t) m)"
  using tx_commit_sized [OF assms(1) models_sized [OF assms(2)] assms(3) order_refl] assms(4) sized_models
  by (simp add: room_capacity) blast

end

end
