(* ===== verification/Ferrum_Keeps.thy ===== *)
theory Ferrum_Keeps
  imports Ferrum_Ops
begin

text \<open>
  Invariants of a store and its world that hold whatever fails. An action keeps an invariant when
  its final state satisfies it, with an error or a panic as well; the locale \<open>store_invariant\<close> asks
  for this of the steps an operation is made of (the log, a new table file, lookups, the reads of
  a merge, the removal of files), and gives it for every operation of the store.
\<close>

section \<open>Actions that keep an invariant\<close>

definition keeps :: "('s \<Rightarrow> bool) \<Rightarrow> ('s, 'a) act \<Rightarrow> bool" where
  "keeps I m \<longleftrightarrow> (\<forall>s. I s \<longrightarrow> I (snd (m s)))"

lemma keepsI [intro?]: "(\<And>s. I s \<Longrightarrow> I (snd (m s))) \<Longrightarrow> keeps I m"
  by (simp add: keeps_def)

lemma keepsD: "keeps I m \<Longrightarrow> I s \<Longrightarrow> I (snd (m s))"
  by (simp add: keeps_def)

named_theorems keeps_intros

lemma keeps_pure [keeps_intros]:
  "keeps I (returnA x)" "keeps I (failA e)" "keeps I panicA" "keeps I (liftO r)"
  "keeps I (Pair r)"
  by (simp_all add: keeps_def returnA_def failA_def panicA_def liftO_def)

lemma snd_bindA:
  "I (snd (m s)) \<Longrightarrow> (\<And>x. keeps I (f x)) \<Longrightarrow> I (snd (bindA m f s))"
  by (auto simp: bindA_def keeps_def split: prod.splits outcome.splits)

lemma keeps_bindA [keeps_intros]:
  "keeps I m \<Longrightarrow> (\<And>x. keeps I (f x)) \<Longrightarrow> keeps I (bindA m f)"
  by (blast intro: keepsI snd_bindA dest: keepsD)

lemma keeps_if [keeps_intros]:
  "(b \<Longrightarrow> keeps I m) \<Longrightarrow> (\<not> b \<Longrightarrow> keeps I n) \<Longrightarrow> keeps I (if b then m else n)"
  by simp

lemma keeps_option [keeps_intros]:
  "keeps I m \<Longrightarrow> (\<And>x. y = Some x \<Longrightarrow> keeps I (f x)) \<Longrightarrow> keeps I (case y of None \<Rightarrow> m | Some x \<Rightarrow> f x)"
  by (cases y) simp_all

lemma keeps_prod [keeps_intros]:
  "(\<And>a b. x = (a, b) \<Longrightarrow> keeps I (f a b)) \<Longrightarrow> keeps I (case x of (a, b) \<Rightarrow> f a b)"
  by (cases x) simp

lemma keeps_Let [keeps_intros]: "keeps I (f x) \<Longrightarrow> keeps I (let y = x in f y)"
  by simp

lemma snd_if: "(b \<Longrightarrow> I (snd x)) \<Longrightarrow> (\<not> b \<Longrightarrow> I (snd y)) \<Longrightarrow> I (snd (if b then x else y))"
  by simp

lemma keeps_plain: "(\<And>s. I s \<Longrightarrow> I (f s)) \<Longrightarrow> keeps I (\<lambda>s. (r, f s))"
  by (simp add: keeps_def)

text \<open>An action on the world, run next to a state of which the invariant asks something else.\<close>

definition beside :: "('x \<Rightarrow> bool) \<Rightarrow> ('w \<Rightarrow> bool) \<Rightarrow> 'x \<times> 'w \<Rightarrow> bool" where
  "beside A I = (\<lambda>(x, w). A x \<and> I w)"

lemma beside_simp [simp]: "beside A I (x, w) \<longleftrightarrow> A x \<and> I w"
  by (simp add: beside_def)

lemma keeps_onW [keeps_intros]: "keeps I m \<Longrightarrow> keeps (beside A I) (onW m)"
  by (auto simp: keeps_def onW_def split: prod.splits)

lemma keeps_split:
  "(\<And>x w. A x \<Longrightarrow> I w \<Longrightarrow> beside A I (snd (f x w))) \<Longrightarrow> keeps (beside A I) (\<lambda>(x, w). f x w)"
  by (auto simp: keeps_def)

lemma bindA_updS: "bindA (updS f) g (s, w) = g () (f s, w)"
  by (simp add: bindA_def updS_def)

section \<open>Invariants of the store\<close>

locale store_invariant =
  fixes P :: prost and A :: "store \<Rightarrow> bool" and I :: "world \<Rightarrow> bool"
  assumes sequence: "A s \<Longrightarrow> A (s\<lparr>st_sequence := n\<rparr>)"
    and insert: "A s \<Longrightarrow> A (memtable_insert k e s)"
    and append: "keeps (beside A I) (on_wal (wal_append P we))"
    and commit: "keeps (beside A I) (on_wal (wal_write_commit P n))"
    and clear: "keeps (beside A I) (on_wal wal_clear)"
    and recovery: "keeps (beside A I) (on_wal (wal_read_for_recovery P))"
    and load: "keeps (beside A I) load_sstables"
    and new_table: "A s \<Longrightarrow> I w \<Longrightarrow>
      sst_flush P (st_dir s @ [sst_file_name (next_sstable_id s)]) es w = (r, w') \<Longrightarrow>
      I w' \<and> (\<forall>t. r = Ok t \<longrightarrow>
        A (s\<lparr>next_sstable_id := next_sstable_id s + 1, st_sstables := t # st_sstables s, st_data := [], memtable_bytes := 0\<rparr>)
        \<and> A (s\<lparr>next_sstable_id := next_sstable_id s + 1, st_sstables := [t]\<rparr>))"
    and no_tables: "A s \<Longrightarrow> A (s\<lparr>st_sstables := []\<rparr>)"
    and merge: "keeps I (merge_layers (read_all_entries P) skip keep ts merged)"
    and remove: "A s \<Longrightarrow> I w \<Longrightarrow> I (remove_files (map sst_path (st_sstables s)) w)"
    and lookup: "A s \<Longrightarrow> I w \<Longrightarrow> lookup_layers (sst_get P key) (st_sstables s) w = (found, (ts, w')) \<Longrightarrow>
      A (s\<lparr>st_sstables := ts\<rparr>) \<and> I w'"
begin

abbreviation inv :: "store \<times> world \<Rightarrow> bool" where
  "inv \<equiv> beside A I"

lemma updS: "(\<And>s. A s \<Longrightarrow> A (f s)) \<Longrightarrow> keeps inv (updS f)"
  by (auto simp: keeps_def updS_def)

lemma state: "(\<And>s. A s \<Longrightarrow> keeps inv (f s)) \<Longrightarrow> keeps inv (\<lambda>(s, w). f s (s, w))"
  by (auto simp: keeps_def)

lemma pending: "A s \<Longrightarrow> A (fold pending_apply ps s)"
  by (induction ps arbitrary: s) (auto simp: pending_apply_def insert split: option.split)

lemma with_table:
  assumes "A s" and "I w"
    and rest: "\<And>t w'. I w' \<Longrightarrow> A (s\<lparr>next_sstable_id := next_sstable_id s + 1, st_sstables := t # st_sstables s,
        st_data := [], memtable_bytes := 0\<rparr>) \<Longrightarrow>
      A (s\<lparr>next_sstable_id := next_sstable_id s + 1, st_sstables := [t]\<rparr>) \<Longrightarrow> inv (snd (f t (s, w')))"
  shows "inv (snd (bindA (onW (sst_flush P (st_dir s @ [sst_file_name (next_sstable_id s)]) es)) f (s, w)))"
proof -
  obtain r w' where run: "sst_flush P (st_dir s @ [sst_file_name (next_sstable_id s)]) es w = (r, w')" by fastforce
  from new_table [OF assms(1,2) run] rest [of w'] assms(1) show ?thesis
    by (cases r) (simp_all del: beside_simp add: bindA_def onW_def run, simp_all)
qed

lemma write_merged: "keeps inv (write_merged P merged)"
  unfolding write_merged_def
proof (intro keeps_if updS no_tables keeps_split, goal_cases)
  case (2 s w)
  show ?case unfolding path_join_sst by (rule with_table [OF 2(2,3)]) (simp add: updS_def)
qed

lemma compact: "keeps inv (compact P)"
  unfolding compact_def Let_def
proof (rule keeps_split, goal_cases)
  case (1 s w)
  have "keeps inv (\<lambda>(s', w). (Ok (), (s', remove_files (map sst_path (st_sstables s)) w)))"
    using remove [OF 1(1)] by (auto simp: keeps_def)
  note rest = keeps_bindA [OF write_merged this]
  show ?case
    using 1 by - (rule snd_if [where I = inv], simp, rule keepsD, intro keeps_bindA keeps_onW rest merge, simp)
qed

lemma maybe_compact: "keeps inv (maybe_compact P)"
  unfolding maybe_compact_def
  by (rule keeps_split, rule snd_if [where I = inv]) (auto intro: keepsD [OF compact])

lemma flush: "keeps inv (flush P)"
  unfolding flush_def
proof (rule keeps_split, goal_cases)
  case (1 s w)
  have rest: "keeps inv (bindA (on_wal wal_clear) (\<lambda>_. maybe_compact P))" by (intro keeps_bindA clear maybe_compact)
  show ?case
    unfolding path_join_sst
    by (rule snd_if [where I = inv], simp add: 1, rule with_table [OF 1])
      (simp del: beside_simp add: bindA_updS, rule keepsD [OF rest], simp)
qed

lemma maybe_flush: "keeps inv (maybe_flush P)"
  unfolding maybe_flush_def
  by (rule keeps_split, rule snd_if [where I = inv]) (auto intro: keepsD [OF flush])

lemma set_value: "keeps inv (set_value P k v)"
  unfolding set_value_def Let_def
  by (intro keeps_bindA state updS sequence append commit insert maybe_flush keeps_pure)

lemma delete_value: "keeps inv (delete_value P k)"
  unfolding delete_value_def Let_def
  by (intro keeps_bindA state updS sequence append commit insert maybe_flush keeps_pure)

lemma append_pending: "keeps inv (append_pending P ps)"
proof (induction ps)
  case (Cons p ps)
  then show ?case
    by (cases p) (auto intro!: keeps_bindA state updS sequence append simp del: beside_simp)
qed (simp add: keeps_pure)

lemma tx_commit: "A (tx_store t) \<Longrightarrow> I w \<Longrightarrow> inv (snd (tx_commit P t w))"
proof -
  have "keeps inv (bindA (append_pending P ps) (\<lambda>_.
        bindA (\<lambda>(s, w). on_wal (wal_write_commit P (st_sequence s)) (s, w)) (\<lambda>_.
        bindA (updS (fold pending_apply ps)) (\<lambda>_. maybe_flush P))))" for ps
    by (intro keeps_bindA state append_pending commit updS pending maybe_flush)
  from keepsD [OF this, of "(tx_store t, w)"] show "A (tx_store t) \<Longrightarrow> I w \<Longrightarrow> inv (snd (tx_commit P t w))"
    by (simp add: tx_commit_def)
qed

lemma scan_range: "keeps inv (scan_range P lo hi)"
  unfolding scan_range_def by (intro state keeps_bindA keeps_onW merge keeps_pure)

lemma get_value: "keeps inv (get_value P key)"
  unfolding get_value_def
proof (rule keeps_split, goal_cases)
  case (1 s w)
  obtain r ts w' where l: "lookup_layers (sst_get P key) (st_sstables s) w = (r, (ts, w'))" using prod_cases3 by blast
  from lookup [OF 1 l] 1 show ?case by (simp add: l split: option.split entry.split)
qed

lemma replay_entry: "keeps A (replay_entry P we)"
  unfolding replay_entry_def
  by (intro keeps_bindA keeps_plain) (auto intro!: keeps_intros keeps_plain sequence insert split: operation.split)

lemma replay_entries: "keeps A (replay_entries P es)"
  by (induction es) (auto intro!: keeps_bindA keeps_pure replay_entry)

lemma replay_loop: "keeps A (replay_loop P es0 es)"
proof (induction es arbitrary: es0)
  case (Cons e es)
  have "keeps A (bindA (replay_entries P es0) (\<lambda>_.
      bindA (\<lambda>s. (Ok (), s\<lparr>st_sequence := max (st_sequence s) (we_sequence e)\<rparr>)) (\<lambda>_. replay_loop P [] es)))"
    by (intro keeps_bindA replay_entries keeps_plain Cons.IH sequence)
  with Cons.IH show ?case by (auto split: operation.split)
qed (simp add: keeps_pure)

lemma onS: "keeps A m \<Longrightarrow> keeps inv (onS m)"
  by (auto simp: keeps_def onS_def split: prod.splits)

lemma replay_wal: "keeps inv (replay_wal P)"
  unfolding replay_wal_def by (intro keeps_bindA recovery onS replay_loop)

lemma load_and_replay: "keeps inv (bindA load_sstables (\<lambda>_. replay_wal P))"
  by (intro keeps_bindA load replay_wal)

end

end
