(* ===== verification/Ferrum_Frame.thy ===== *)
theory Ferrum_Frame
  imports Ferrum_Ops Ferrum_Keeps "HOL-Library.Sublist"
begin

text \<open>
  What an operation leaves alone, under every schedule of faults: a table engine writes below
  its own directory only, and it neither takes nor releases locks after it was opened. The
  invariant \<open>within d w0\<close> collects this for worlds, \<open>stays d w0\<close> for a store and its world; the
  locale \<open>store_invariant\<close>, interpreted here for it, gives every operation of the store.
\<close>

section \<open>Below a directory\<close>

definition within :: "path \<Rightarrow> world \<Rightarrow> world \<Rightarrow> bool" where
  "within d w w' \<longleftrightarrow>
     (\<forall>q. \<not> in_tree d q \<longrightarrow> file_of w' q = file_of w q)
     \<and> set (w_dirs w) \<subseteq> set (w_dirs w') \<and> set (w_dirs w') \<subseteq> set (w_dirs w) \<union> set (ancestors d)
     \<and> w_locks w' = w_locks w \<and> w_faults w' = w_faults w \<and> w_clock w \<le> w_clock w'
     \<and> (fs_wf w \<longrightarrow> fs_wf w')"

lemma within_refl [simp]: "within d w w"
  by (simp add: within_def)

lemma within_trans [trans]: "within d w w' \<Longrightarrow> within d w' w'' \<Longrightarrow> within d w w''"
  by (auto simp: within_def)

lemma within_quiet: "within d w w' \<Longrightarrow> quiet w \<Longrightarrow> quiet w'"
  by (auto simp: within_def quiet_def)

lemma in_tree_append [simp]: "in_tree d (d @ q)" "in_tree d d"
  by (simp_all add: in_tree_def)

lemma within_later [simp]: "within d w0 (later n w)" if "within d w0 w"
  using that by (auto simp: within_def fs_wf_def later_def file_of_def)

lemma within_put_file:
  assumes "within d w0 w" and "in_tree d p" and "fs_wf w \<Longrightarrow> p \<notin> set (w_dirs w)"
  shows "within d w0 (put_file p bs w)"
proof -
  have "fs_wf w \<Longrightarrow> fs_wf (put_file p bs w)"
    using touches_wf [OF touches_put_file] assms(3) by blast
  then show ?thesis using assms by (auto simp: within_def)
qed

lemma within_del_file:
  assumes "within d w0 w" and "in_tree d p"
  shows "within d w0 (del_file p w)"
proof -
  have "fs_wf w \<Longrightarrow> fs_wf (del_file p w)"
    using touches_del_file [of p w] by (auto simp: fs_wf_def touches_def)
  then show ?thesis using assms by (auto simp: within_def)
qed

lemma existing_not_dir: "fs_wf w \<Longrightarrow> file_of w p = Some c \<Longrightarrow> p \<notin> set (w_dirs w)"
  by (auto simp: fs_wf_def)

lemma within_append_file:
  "within d w0 w \<Longrightarrow> in_tree d p \<Longrightarrow> within d w0 (append_file p bs w)"
  by (auto simp: append_file_def existing_not_dir intro: within_put_file split: option.splits)

lemma within_make_dirs:
  assumes "within d w0 w" and "set qs \<subseteq> set (ancestors d)" and "distinct qs"
    and "\<forall>q \<in> set qs. file_of w q = None"
  shows "within d w0 (make_dirs qs w)"
proof -
  have f: "file_of (make_dirs qs w) = file_of w" by (simp add: make_dirs_def file_of_def fun_eq_iff)
  have "fs_wf w \<Longrightarrow> fs_wf (make_dirs qs w)"
    using assms(3,4) by (auto simp: fs_wf_def f) (auto simp: make_dirs_def)
  then show ?thesis using assms(1,2) by (auto simp: within_def f) (auto simp: make_dirs_def)
qed

lemma keeps_syscall: "keeps (within d w0) m \<Longrightarrow> keeps (within d w0) (syscall m)"
  by (auto simp: keeps_def syscall_def split: fault.splits)

lemma keeps_mkdir [keeps_intros]: "keeps (within d w0) (fs_create_dir_all d)"
proof
  fix w assume w: "within d w0 w"
  let ?qs = "\<lambda>n. takeWhile (\<lambda>q. file_of w q = None) (take n (ancestors d))"
  have "within d w0 (make_dirs (?qs n) (later 1 w))" for n
    using w distinct_ancestors [of d]
    by (intro within_make_dirs) (auto dest!: set_takeWhileD in_set_takeD)
  moreover have "within d w0 (make_dirs (ancestors d) (later 1 w))" if "\<forall>q \<in> set (ancestors d). file_of w q = None"
    using w that distinct_ancestors [of d] by (intro within_make_dirs) auto
  ultimately show "within d w0 (snd (fs_create_dir_all d w))"
    using w by (auto simp: fs_create_dir_all_def split: fault.splits)
qed

lemma keeps_fs_open [keeps_intros]:
  "in_tree d p \<Longrightarrow> keeps (within d w0) (fs_open cr tr p)"
  "keeps (within d w0) (fs_open False False p)"
  by (auto simp: fs_open_def keeps_def dir_exists_def existing_not_dir
      intro!: keepsD [OF keeps_syscall] within_put_file split: option.splits)

lemma keeps_reads [keeps_intros]:
  "keeps (within d w0) (fs_sync_all p)" "keeps (within d w0) (fs_exists p)"
  "keeps (within d w0) (fs_metadata_len p)" "keeps (within d w0) (fs_seek p off)"
  "keeps (within d w0) (fs_read_exact p off len)" "keeps (within d w0) (fs_read_to_end p)"
  "keeps (within d w0) (fs_read_dir p)" "keeps (within d w0) (fs_dir_entry p)"
  by (auto simp: keeps_def syscall_def fs_sync_all_def fs_exists_def fs_metadata_len_def fs_seek_def
      fs_read_exact_def fs_read_to_end_def fs_read_dir_def fs_dir_entry_def split: fault.splits option.splits)

lemma keeps_writes [keeps_intros]:
  assumes "in_tree d p"
  shows "keeps (within d w0) (fs_write_all p bs)" "keeps (within d w0) (fs_set_len p n)"
    "keeps (within d w0) (fs_remove_file p)"
  using assms
  by (auto simp: keeps_def syscall_def fs_write_all_def fs_set_len_def fs_remove_file_def existing_not_dir
      intro!: within_append_file within_put_file within_del_file within_later
      simp del: later_simps split: fault.splits option.splits)

section \<open>Tables and the log\<close>

lemma keeps_read_block [keeps_intros]: "keeps (within d w0) (read_block_from_disk p ie)"
  unfolding read_block_from_disk_def by (intro keeps_intros)

lemma keeps_sst_open [keeps_intros]: "keeps (within d w0) (sst_open p)"
  unfolding sst_open_def Let_def by (intro keeps_intros)

lemma keeps_read_blocks [keeps_intros]: "keeps (within d w0) (read_blocks P p ies)"
  by (induction ies) (auto intro!: keeps_intros)

lemma keeps_read_all [keeps_intros]: "keeps (within d w0) (read_all_entries P t)"
  unfolding read_all_entries_def by (intro keeps_intros)

lemma keeps_sst_flush [keeps_intros]:
  "path_parent p = Some d \<Longrightarrow> in_tree d p \<Longrightarrow> keeps (within d w0) (sst_flush P p es)"
  unfolding sst_flush_def by (auto intro!: keeps_intros)

lemma keeps_open_found [keeps_intros]: "keeps (within d w0) (open_found qs)"
  by (induction qs) (auto intro!: keeps_intros)

lemma keeps_merge_layers [keeps_intros]:
  "keeps (within d w0) (merge_layers (read_all_entries P) skip keep ts merged)"
  by (induction ts arbitrary: merged) (auto intro!: keeps_intros)

lemma keeps_cached_block [keeps_intros]:
  "keeps (beside (\<lambda>t. sst_path t = p) (within d w0)) (cached_block ie)"
  unfolding cached_block_def
proof (rule keeps_split, goal_cases)
  case (1 t w)
  let ?fill = "\<lambda>records (t :: sstable, w). (Ok records, (t\<lparr>sst_cache := cache_put (ie_block_offset ie) records (sst_cache t)\<rparr>, w))"
  have "keeps (beside (\<lambda>t. sst_path t = p) (within d w0))
      (bindA (onW (fs_open False False p)) (\<lambda>_. bindA (onW (read_block_from_disk p ie)) ?fill))"
    by (intro keeps_bindA keeps_onW keeps_intros keeps_split) simp
  from keepsD [OF this] 1 show ?case by (simp split: prod.split option.split)
qed

lemma keeps_sst_get [keeps_intros]:
  "keeps (beside (\<lambda>t. sst_path t = p) (within d w0)) (sst_get P key)"
  unfolding sst_get_def
proof (rule keeps_split, goal_cases)
  case (1 t w)
  note if_rule = snd_if [where I = "beside (\<lambda>t. sst_path t = p) (within d w0)"]
  show ?case
    using 1 by - (rule if_rule, simp, rule if_rule, simp, rule keepsD, intro keeps_intros, simp)
qed

text \<open>The log of a directory: its handle, once open, is at its path.\<close>

definition wal_tidy :: "path \<Rightarrow> wal \<Rightarrow> bool" where
  "wal_tidy d l \<longleftrightarrow> wal_path l = d @ [''wal.log''] \<and> wal_file l \<in> {None, Some (wal_path l)}"

lemma wal_tidy_path: "wal_tidy d l \<Longrightarrow> wal_path l = d @ [''wal.log'']"
  by (simp add: wal_tidy_def)

lemma wal_tidy_reset [simp]: "wal_path l = d @ [''wal.log''] \<Longrightarrow> wal_tidy d (l\<lparr>wal_file := None\<rparr>)"
  by (simp add: wal_tidy_def)

lemma wal_writer_tidy:
  assumes "wal_tidy d l" and "within d w0 w" and "wal_writer (l, w) = (r, (l', w'))"
  shows "wal_tidy d l' \<and> within d w0 w' \<and> (\<forall>h. r = Ok h \<longrightarrow> h = d @ [''wal.log''])"
proof (cases "wal_file l")
  case None
  obtain r1 w1 where o: "fs_open True False (d @ [''wal.log'']) w = (r1, w1)" by fastforce
  have "within d w0 w1"
    using keepsD [OF keeps_fs_open(1), of d "d @ [''wal.log'']" w0 w True False] assms(2) o by simp
  with assms(1,3) o None show ?thesis
    by (cases r1) (auto simp: wal_writer_def bindA_def onW_def wal_tidy_def)
next
  case (Some h)
  with assms show ?thesis by (auto simp: wal_writer_def wal_tidy_def)
qed

lemma keeps_with_writer:
  assumes "keeps (beside (wal_tidy d) (within d w0)) (f (d @ [''wal.log'']))"
  shows "keeps (beside (wal_tidy d) (within d w0)) (bindA wal_writer f)"
proof
  fix lw assume I: "beside (wal_tidy d) (within d w0) lw"
  obtain l w r l' w' where run: "lw = (l, w)" "wal_writer (l, w) = (r, (l', w'))" by (metis prod.exhaust)
  from wal_writer_tidy [OF _ _ run(2), of d w0] I run(1) keepsD [OF assms, of "(l', w')"] run(2)
  show "beside (wal_tidy d) (within d w0) (snd (bindA wal_writer f lw))"
    by (cases r) (simp_all add: bindA_def)
qed

lemma keeps_wal_append [keeps_intros]: "keeps (beside (wal_tidy d) (within d w0)) (wal_append P e)"
  unfolding wal_append_def Let_def by (intro keeps_with_writer keeps_intros) simp

lemma keeps_wal_commit [keeps_intros]: "keeps (beside (wal_tidy d) (within d w0)) (wal_write_commit P seq)"
  unfolding wal_write_commit_def Let_def by (intro keeps_with_writer keeps_intros) simp

lemma keeps_wal_read_file [keeps_intros]: "keeps (within d w0) (wal_read_file p)"
  unfolding wal_read_file_def by (intro keeps_intros)

lemma keeps_wal_clear [keeps_intros]: "keeps (beside (wal_tidy d) (within d w0)) wal_clear"
  unfolding wal_clear_def
proof (rule keeps_split, goal_cases)
  case (1 l w)
  show ?case
    unfolding wal_tidy_path [OF 1(1)] using 1
    by (intro keepsD [of "beside (wal_tidy d) (within d w0)"] keeps_intros) (simp_all add: wal_tidy_path)
qed

lemma keeps_wal_recovery [keeps_intros]:
  "keeps (beside (wal_tidy d) (within d w0)) (wal_read_for_recovery P)"
  unfolding wal_read_for_recovery_def
proof (rule keeps_split, goal_cases)
  case (1 l w)
  let ?p = "d @ [''wal.log'']"
  have cut: "keeps (beside (wal_tidy d) (within d w0))
      (bindA (onW (fs_open False False ?p)) (\<lambda>_. bindA (onW (fs_set_len ?p n)) (\<lambda>_.
       bindA (onW (fs_sync_all ?p)) (\<lambda>_ (l, w). (Ok (), (l\<lparr>wal_file := None\<rparr>, w))))))" for n
    by (intro keeps_bindA keeps_onW keeps_intros keeps_split) (simp_all add: wal_tidy_path)
  show ?case
    unfolding wal_tidy_path [OF 1(1)] by (rule keepsD, intro cut keeps_intros) (simp add: 1)
qed

section \<open>The store\<close>

definition tidy :: "path \<Rightarrow> store \<Rightarrow> bool" where
  "tidy d s \<longleftrightarrow>
     st_dir s = d \<and> wal_tidy d (st_wal s) \<and> st_lock s = Some (d @ [''LOCK''])
     \<and> (\<forall>t \<in> set (st_sstables s). in_tree d (sst_path t))"

abbreviation stays :: "path \<Rightarrow> world \<Rightarrow> store \<times> world \<Rightarrow> bool" where
  "stays d w0 \<equiv> beside (tidy d) (within d w0)"

lemma tidy_simps [simp]:
  "tidy d (s\<lparr>st_data := a\<rparr>) = tidy d s" "tidy d (s\<lparr>memtable_bytes := n\<rparr>) = tidy d s"
  "tidy d (s\<lparr>memtable_max_bytes := n\<rparr>) = tidy d s" "tidy d (s\<lparr>st_sequence := n\<rparr>) = tidy d s"
  "tidy d (s\<lparr>next_sstable_id := n\<rparr>) = tidy d s" "tidy d (memtable_insert k e s) = tidy d s"
  by (simp_all add: tidy_def memtable_insert_def Let_def split: option.splits)

lemma tidy_dir: "tidy d s \<Longrightarrow> st_dir s = d"
  by (simp add: tidy_def)

lemma tidy_insert_all [simp]: "tidy d (insert_all ops s) = tidy d s"
  by (induction ops arbitrary: s) (simp_all add: case_prod_beta)

lemma keeps_on_wal [keeps_intros]:
  assumes "keeps (beside (wal_tidy d) (within d w0)) m"
  shows "keeps (stays d w0) (on_wal m)"
  unfolding on_wal_def
proof (rule keeps_split)
  fix s w assume "tidy d s" and "within d w0 w"
  moreover obtain r l w' where run: "m (st_wal s, w) = (r, (l, w'))" using prod_cases3 by blast
  ultimately have "wal_tidy d l \<and> within d w0 w'"
    using keepsD [OF assms, of "(st_wal s, w)"] by (simp add: tidy_def)
  with \<open>tidy d s\<close> show "stays d w0 (snd (case m (st_wal s, w) of (r, l, w') \<Rightarrow> (r, s\<lparr>st_wal := l\<rparr>, w')))"
    by (simp add: run tidy_def)
qed

lemma keeps_remove_files: "list_all (in_tree d) ps \<Longrightarrow> within d w0 w \<Longrightarrow> within d w0 (remove_files ps w)"
  by (induction ps arbitrary: w) (auto intro!: keepsD [OF keeps_writes(3)])

lemma sst_path_flush: "sst_flush P p es w = (Ok t, w') \<Longrightarrow> sst_path t = p"
  by (auto simp: sst_flush_def flush_build_def bindA_def liftO_def returnA_def Let_def bindO_def
      split: prod.splits outcome.splits option.splits)

lemma table_path_parent: "path_parent (d @ [sst_file_name i]) = Some d"
  using sst_file_name_no_slash [of i] by (auto simp: path_parent_def)

lemma lookup_layers_any:
  assumes "within d w0 w" and "lookup_layers (sst_get P key) ts w = (r, (ts', w'))"
  shows "map sst_path ts' = map sst_path ts \<and> within d w0 w'"
  using assms
proof (induction ts arbitrary: w r ts' w')
  case (Cons t ts)
  obtain r1 t1 w1 where g: "sst_get P key (t, w) = (r1, (t1, w1))" using prod_cases3 by blast
  have t1: "sst_path t1 = sst_path t \<and> within d w0 w1"
    using keepsD [OF keeps_sst_get, of "sst_path t" d w0 "(t, w)" P key] Cons.prems(1) by (simp add: g)
  obtain r2 ts2 w2 where l: "lookup_layers (sst_get P key) ts w1 = (r2, (ts2, w2))" using prod_cases3 by blast
  from Cons.IH [OF _ l] t1 Cons.prems(2) show ?case
    by (auto simp: g l split: outcome.splits option.splits)
qed simp

lemma in_tree_butlast: "q \<noteq> [] \<Longrightarrow> in_tree (butlast q) q"
  by (simp add: in_tree_def butlast_conv_take)

lemma read_dir_in_tree: "fs_read_dir d w = (Ok qs, w') \<Longrightarrow> list_all (in_tree d) qs"
  using in_tree_butlast
  by (auto simp: fs_read_dir_def syscall_def dir_entries_def list_all_iff split: fault.splits if_splits)

lemma sst_open_path: "sst_open p w = (Ok t, w') \<Longrightarrow> sst_path t = p"
  by (auto simp: sst_open_def bindA_def liftO_def returnA_def failA_def panicA_def Let_def
      split: prod.splits outcome.splits if_splits)

lemma fs_dir_entry_path: "fs_dir_entry q w = (Ok p, w') \<Longrightarrow> p = q"
  by (auto simp: fs_dir_entry_def syscall_def split: fault.splits)

lemma open_found_paths:
  "open_found qs w = (Ok found, w') \<Longrightarrow> list_all Q qs \<Longrightarrow> list_all (\<lambda>(i, t). Q (sst_path t)) found"
proof (induction qs arbitrary: w w' found)
  case (Cons q qs)
  obtain p w1 where p: "fs_dir_entry q w = (Ok p, w1)" "p = q"
    using Cons.prems(1) fs_dir_entry_path by (auto simp: bindA_def split: prod.splits outcome.splits)
  show ?case
  proof (cases "sstable_id_from_path p")
    case None
    then show ?thesis using Cons p by (simp add: bindA_def)
  next
    case (Some i)
    obtain t w2 rest w3 where "sst_open p w1 = (Ok t, w2)" "open_found qs w2 = (Ok rest, w3)" "found = (i, t) # rest"
      using Cons.prems(1) p Some by (auto simp: bindA_def returnA_def split: prod.splits outcome.splits)
    with Cons.IH Cons.prems(2) p(2) sst_open_path [of p w1 t w2] show ?thesis by auto
  qed
qed (simp add: returnA_def)

lemma keeps_load_sstables [keeps_intros]: "keeps (stays d w0) load_sstables"
  unfolding load_sstables_def
proof (rule keeps_split, goal_cases)
  case (1 s w)
  obtain r w1 where rd: "fs_read_dir d w = (r, w1)" by fastforce
  have w1: "within d w0 w1" using keepsD [OF keeps_reads(7), of d w0 w d] 1(2) rd by simp
  show ?case
  proof (cases r)
    case (Ok qs)
    obtain r2 w2 where f: "open_found qs w1 = (r2, w2)" by fastforce
    have "within d w0 w2" using keepsD [OF keeps_open_found, of d w0 w1 qs] w1 f by simp
    moreover have "r2 = Ok found \<Longrightarrow> list_all (\<lambda>(i, t). in_tree d (sst_path t)) found" for found
      using open_found_paths [of qs w1 found w2 "in_tree d"] f read_dir_in_tree [of d w qs w1] rd Ok by simp
    ultimately show ?thesis
      using 1(1) by (cases r2) (auto simp: tidy_dir [OF 1(1)] rd Ok bindA_def onW_def f updS_def tidy_def list_all_iff)
  qed (use 1 w1 in \<open>simp_all add: tidy_dir [OF 1(1)] rd\<close>)
qed

lemma tidy_tables:
  assumes "tidy d s" and "map sst_path ts = map sst_path (st_sstables s)"
  shows "tidy d (s\<lparr>st_sstables := ts\<rparr>)"
proof -
  have "sst_path ` set ts = sst_path ` set (st_sstables s)" using arg_cong [OF assms(2), of set] by (simp only: list.set_map)
  then have "\<forall>p \<in> sst_path ` set ts. in_tree d p" using assms(1) by (simp add: tidy_def)
  then show ?thesis using assms(1) by (simp add: tidy_def)
qed

text \<open>Every operation of the store stays below the directory of its table.\<close>

interpretation confine: store_invariant P "tidy d" "within d w0" for P d w0
proof (unfold_locales, goal_cases)
  case (8 s w es r w')
  have "within d w0 (snd (sst_flush P (d @ [sst_file_name (next_sstable_id s)]) es w))"
    by (rule keepsD [OF keeps_sst_flush [OF table_path_parent in_tree_append(1)] 8(2)])
  then have w': "within d w0 w'" using 8(1,3) by (simp add: tidy_dir)
  have "r = Ok t \<Longrightarrow> in_tree d (sst_path t)" for t using 8 sst_path_flush [of P _ es w t w'] by (simp add: tidy_dir)
  with w' 8(1) show ?case by (auto simp: tidy_def)
next
  case (11 s w)
  then show ?case by (intro keeps_remove_files) (auto simp: tidy_def list_all_iff)
next
  case (12 s w key found ts w')
  with lookup_layers_any [OF 12(2,3)] show ?case by (simp add: tidy_tables)
qed (simp_all add: keeps_intros, simp_all add: tidy_def)

section \<open>Opening and locking\<close>

text \<open>
  A lock is taken when the directory is opened, and given back when opening fails after it was
  taken.
\<close>

definition locked :: "path \<Rightarrow> world \<Rightarrow> world" where
  "locked p w = w\<lparr>w_locks := p # w_locks w\<rparr>"

lemma file_of_locked [simp]: "file_of (locked p w) = file_of w"
  by (simp add: locked_def file_of_def fun_eq_iff)

lemma within_locked: "within d w w' \<Longrightarrow> within d (locked p w) (locked p w')"
  by (auto simp: within_def fs_wf_def) (auto simp: locked_def)

lemma locked_simps [simp]:
  "locked p (later n w) = later n (locked p w)" "w_faults (locked p w) = w_faults w" "w_clock (locked p w) = w_clock w"
  "w_dirs (locked p w) = w_dirs w"
  by (simp_all add: locked_def later_def)

lemma within_unlock:
  assumes "within d (locked p w) w'" and "p \<notin> set (w_locks w)"
  shows "within d w (fs_unlock p w')"
  using assms by (auto simp: within_def fs_wf_def) (auto simp: locked_def fs_unlock_def)

lemma fs_flock_any:
  assumes "fs_flock p w = (r, w')"
  shows "r = Ok False \<and> w' = later 1 w \<or> r = Ok True \<and> w' = later 1 (locked p w) \<and> p \<notin> set (w_locks w)"
  using assms by (auto simp: fs_flock_def locked_def split: fault.splits if_splits)

lemma path_join_lock [simp]: "path_join d ''LOCK'' = d @ [''LOCK'']" "path_join d ''wal.log'' = d @ [''wal.log'']"
  by (simp_all add: path_join_plain)

lemma load_and_replay_any:
  assumes "tidy d s" and "within d w0 w"
    and "(case bindA load_sstables (\<lambda>_. replay_wal P) (s, w) of
           (Ok _, (s, w')) \<Rightarrow> (Ok s, w')
         | (Err e, (s, w')) \<Rightarrow> (Err e, drop_store s w')
         | (Panic, (s, w')) \<Rightarrow> (Panic, drop_store s w')) = (r, w')"
  shows "(\<exists>s'. r = Ok s' \<and> tidy d s' \<and> within d w0 w')
    \<or> (\<forall>s'. r \<noteq> Ok s') \<and> (\<exists>w1. w' = fs_unlock (d @ [''LOCK'']) w1 \<and> within d w0 w1)"
proof -
  obtain r1 s1 w1 where run: "bindA load_sstables (\<lambda>_. replay_wal P) (s, w) = (r1, (s1, w1))" using prod_cases3 by blast
  from keepsD [OF confine.load_and_replay, of d w0 "(s, w)" P] assms(1,2) have "tidy d s1" "within d w0 w1" by (simp_all add: run)
  with assms(3) show ?thesis by (cases r1) (auto simp: run drop_store_def tidy_def)
qed

lemma tidy_fresh [simp]:
  "tidy d (fresh_store d \<lparr>wal_path = d @ [''wal.log''], wal_file = None\<rparr> (d @ [''LOCK'']))"
  by (simp add: tidy_def fresh_store_def wal_tidy_def)

lemma wal_with_path_any:
  assumes "wal_with_path (d @ [''wal.log'']) w = (r, w')" and "within d w0 w"
  shows "r = Ok \<lparr>wal_path = d @ [''wal.log''], wal_file = None\<rparr>" and "within d w0 w'"
proof -
  have "path_parent (d @ [''wal.log'']) = Some d" by (simp add: path_parent_def)
  with assms keepsD [OF keeps_mkdir, of d w0 w]
  show "r = Ok \<lparr>wal_path = d @ [''wal.log''], wal_file = None\<rparr>" and "within d w0 w'"
    by (auto simp: wal_with_path_def)
qed

text \<open>Opening, under every schedule of faults and from every state of the files.\<close>

lemma open_path_any:
  assumes "open_path P d w = (r, w')"
  shows "(\<exists>s. r = Ok s \<and> tidy d s \<and> within d (locked (d @ [''LOCK'']) w) w' \<and> d @ [''LOCK''] \<notin> set (w_locks w))
    \<or> (\<forall>s. r \<noteq> Ok s) \<and> within d w w'"
proof -
  let ?p = "d @ [''LOCK'']"
  obtain r1 w1 where m: "fs_create_dir_all d w = (r1, w1)" by fastforce
  have w1: "within d w w1" using keepsD [OF keeps_mkdir, of d w w] by (simp add: m)
  obtain r2 w2 where op: "fs_open True False ?p w1 = (r2, w2)" by fastforce
  have w2: "within d w w2" using keepsD [OF keeps_fs_open(1), of d ?p w w1 True False] w1 by (simp add: op)
  obtain r3 w3 where fl: "fs_flock ?p w2 = (r3, w3)" by fastforce
  show ?thesis
  proof (cases "r1 = Ok () \<and> r2 = Ok () \<and> r3 = Ok True")
    case True
    then have w3: "w3 = later 1 (locked ?p w2)" "?p \<notin> set (w_locks w2)" using fs_flock_any [OF fl] by auto
    have in3: "within d (locked ?p w) w3" using w3(1) within_locked [OF w2] by simp
    have free: "?p \<notin> set (w_locks w)" using w3(2) w2 by (simp add: within_def)
    obtain r4 w4 where wp: "wal_with_path (d @ [''wal.log'']) w3 = (r4, w4)" by fastforce
    note wal = wal_with_path_any [OF wp in3]
    from load_and_replay_any [OF tidy_fresh wal(2), of P r w'] within_unlock [OF _ free] assms free
    show ?thesis by (auto simp: open_path_def bindA_def m op fl True wp wal(1) Let_def)
  next
    case False
    with assms w1 w2 fs_flock_any [OF fl] show ?thesis
      by (cases r1; cases r2; auto simp: open_path_def bindA_def m op fl Let_def failA_def)
  qed
qed

section \<open>Tables do not disturb each other\<close>

definition apart :: "path \<Rightarrow> path \<Rightarrow> bool" where
  "apart d d' \<longleftrightarrow> \<not> in_tree d d' \<and> \<not> in_tree d' d"

lemma apart_sym: "apart d d' \<Longrightarrow> apart d' d"
  by (simp add: apart_def)

lemma in_tree_prefix: "in_tree d q \<longleftrightarrow> prefix d q"
  by (auto simp: in_tree_def prefix_def) (metis append_take_drop_id)

lemma ancestor_prefix: "q \<in> set (ancestors d) \<Longrightarrow> prefix q d"
  by (auto simp: ancestors_def take_is_prefix)

lemma apart_tree: "apart d d' \<Longrightarrow> in_tree d q \<Longrightarrow> \<not> in_tree d' q"
  using prefix_same_cases [of d q d'] by (auto simp: apart_def in_tree_prefix)

lemma apart_ancestor:
  assumes "apart d d'" and "q \<in> set (ancestors d)"
  shows "\<not> in_tree d' q"
  using assms ancestor_prefix [OF assms(2)] prefix_order.trans [of d' q d] by (auto simp: apart_def in_tree_prefix)

text \<open>What a table needs of the world: its own files, directories and lock.\<close>

definition agree :: "path \<Rightarrow> world \<Rightarrow> world \<Rightarrow> bool" where
  "agree d w w' \<longleftrightarrow>
     (fs_wf w \<longrightarrow> fs_wf w')
     \<and> (\<forall>q. in_tree d q \<or> q \<in> set (ancestors d) \<longrightarrow> file_of w' q = file_of w q)
     \<and> (\<forall>q. in_tree d q \<longrightarrow> (q \<in> set (w_dirs w') \<longleftrightarrow> q \<in> set (w_dirs w)))
     \<and> (\<forall>q \<in> set (ancestors d). q \<in> set (w_dirs w) \<longrightarrow> q \<in> set (w_dirs w'))
     \<and> (d @ [''LOCK''] \<in> set (w_locks w') \<longleftrightarrow> d @ [''LOCK''] \<in> set (w_locks w))"

lemma within_agree:
  assumes "within d' w w'" and "apart d d'"
  shows "agree d w w'"
proof -
  have "file_of w' q = file_of w q" if "in_tree d q \<or> q \<in> set (ancestors d)" for q
    using that assms(1) apart_tree [OF assms(2)] apart_ancestor [OF assms(2)] by (auto simp: within_def)
  moreover have "q \<in> set (w_dirs w') \<longleftrightarrow> q \<in> set (w_dirs w)" if "in_tree d q" for q
    using that assms(1) apart_ancestor [OF apart_sym [OF assms(2)]] by (auto simp: within_def)
  ultimately show ?thesis using assms(1) by (auto simp: agree_def within_def)
qed

lemma list_all2_represents_cong:
  assumes "list_all2 (represents P w) ts ess" and "\<forall>t \<in> set ts. file_of w' (sst_path t) = file_of w (sst_path t)"
  shows "list_all2 (represents P w') ts ess"
  using assms by (induction rule: list_all2_induct) (auto intro: represents_world)

lemma dir_holds_agree:
  assumes "dir_holds P w d ids ess" and "agree d w w'"
  shows "dir_holds P w' d ids ess"
proof (rule dir_holds_cong [OF assms(1)])
  show "fs_wf w'" using assms by (simp add: dir_holds_def agree_def)
  fix q i assume "q \<noteq> []" and "butlast q = d"
  then have "in_tree d q" using in_tree_butlast [of q] by simp
  then show "file_of w' q = file_of w q \<and> (q \<in> set (w_dirs w') \<longleftrightarrow> q \<in> set (w_dirs w))"
    using assms(2) by (simp add: agree_def)
qed

lemma on_disk_agree:
  assumes "on_disk P w d ids ess log" and "agree d w w'"
  shows "on_disk P w' d ids ess log"
  using assms dir_holds_agree [OF _ assms(2)]
  by (simp add: on_disk_def log_holds_def contents_def) (simp add: agree_def)

lemma engine_agree:
  assumes "engine P w s ids ess log" and "agree (st_dir s) w w'"
  shows "engine P w' s ids ess log"
proof -
  let ?d = "st_dir s"
  have same: "in_tree ?d q \<or> q \<in> set (ancestors ?d) \<Longrightarrow> file_of w' q = file_of w q"
    "in_tree ?d q \<Longrightarrow> q \<in> set (w_dirs w') \<longleftrightarrow> q \<in> set (w_dirs w)"
    "q \<in> set (ancestors ?d) \<Longrightarrow> q \<in> set (w_dirs w) \<Longrightarrow> q \<in> set (w_dirs w')" for q
    using assms(2) by (auto simp: agree_def)
  have E: "dir_ready w ?d" "list_all2 (represents P w) (st_sstables s) ess"
    "map sst_path (st_sstables s) = map (\<lambda>i. ?d @ [sst_file_name i]) ids" "wal_path (st_wal s) = ?d @ [''wal.log'']"
    "wal_holds (st_wal s) w (frames P log)" "dir_holds P w ?d ids ess"
    using assms(1) by (simp_all add: engine_def)
  have ready: "dir_ready w' ?d" using E(1) same(1,3) by (auto simp: dir_ready_def)
  have "\<forall>p \<in> set (map sst_path (st_sstables s)). file_of w' p = file_of w p"
    unfolding E(3) using same(1) by auto
  then have "list_all2 (represents P w') (st_sstables s) ess" by (intro list_all2_represents_cong [OF E(2)]) simp
  moreover have "wal_holds (st_wal s) w' (frames P log)"
    using E(4,5) same(1,2) [of "?d @ [''wal.log'']"] ready by (auto simp: wal_holds_def writable_at_def contents_def)
  ultimately show ?thesis
    using assms ready dir_holds_agree [OF E(6) assms(2)] same(2) [of "?d @ [''LOCK'']"]
    by (simp add: engine_def agree_def)
qed

lemma models_agree: "models P w s m \<Longrightarrow> agree (st_dir s) w w' \<Longrightarrow> models P w' s m"
  by (auto simp: models_def intro: engine_agree)

lemma engine_tidy: "engine P w s ids ess log \<Longrightarrow> tidy (st_dir s) s"
proof -
  assume e: "engine P w s ids ess log"
  have "\<forall>p \<in> set (map sst_path (st_sstables s)). in_tree (st_dir s) p"
    using e by (auto simp: engine_def)
  moreover have "wal_file (st_wal s) \<in> {None, Some (wal_path (st_wal s))}"
    using e by (auto simp: engine_def wal_holds_def)
  ultimately show "tidy (st_dir s) s" using e by (simp add: tidy_def wal_tidy_def engine_def)
qed

lemma models_tidy: "models P w s m \<Longrightarrow> tidy (st_dir s) s"
  by (auto simp: models_def intro: engine_tidy)

end
