(* ===== verification/Ferrum_Crash.thy ===== *)
theory Ferrum_Crash
  imports Ferrum_Frame
begin

text \<open>
  What survives: reopening a directory after the process stopped, whatever I/O faults struck
  while a batch was being written (the write path of \<open>ferrumdb-core/src/store.rs\<close>).
\<close>

section \<open>Restarting\<close>

text \<open>
  The process ends, its locks are gone, and the next one starts on the same files without
  faults of its own.
\<close>

definition restart :: "world \<Rightarrow> world" where
  "restart w = w\<lparr>w_locks := [], w_faults := (\<lambda>_. NoFault)\<rparr>"

definition recovers :: "prost \<Rightarrow> world \<Rightarrow> path \<Rightarrow> (bytes \<Rightarrow> db_value option) \<Rightarrow> bool" where
  "recovers P w d m \<longleftrightarrow>
     (\<exists>s w'. open_path P d (restart w) = (Ok s, w') \<and> quiet w' \<and> models P w' s m \<and> st_dir s = d)"

text \<open>The same of the files themselves.\<close>

definition survives :: "prost \<Rightarrow> world \<Rightarrow> path \<Rightarrow> (bytes \<Rightarrow> db_value option) \<Rightarrow> bool" where
  "survives P w d m \<longleftrightarrow> (\<exists>ids ess log. on_disk P w d ids ess log \<and> m = view (log_data P log) ess)"

lemma survivesI: "on_disk P w d ids ess log \<Longrightarrow> view (log_data P log) ess = m \<Longrightarrow> survives P w d m"
  by (auto simp: survives_def)

lemma restart_simps [simp]:
  "w_files (restart w) = w_files w" "w_dirs (restart w) = w_dirs w" "w_locks (restart w) = []"
  "file_of (restart w) = file_of w" "contents (restart w) = contents w" "fs_wf (restart w) = fs_wf w"
  "quiet (restart w)"
  by (auto simp: restart_def file_of_def contents_def fs_wf_def quiet_def fun_eq_iff)

lemma on_disk_restart [simp]: "on_disk P (restart w) d ids ess log = on_disk P w d ids ess log"
  by (simp add: on_disk_def dir_holds_def log_holds_def)

lemma on_disk_unlock [simp]: "on_disk P (fs_unlock p w) d ids ess log = on_disk P w d ids ess log"
  by (simp add: on_disk_def dir_holds_def log_holds_def contents_def fs_wf_def)

lemma engine_survives: "engine P w s ids ess log \<Longrightarrow> survives P w (st_dir s) (view (st_data s) ess)"
  using engine_on_disk by (fastforce simp: engine_def intro: survivesI)

lemma models_survives: "models P w s m \<Longrightarrow> survives P w (st_dir s) m"
  by (auto simp: models_def intro: engine_survives)

context prost_codec
begin

lemma open_sized:
  assumes "quiet w" and "on_disk P w d ids ess log" and "d @ [''LOCK''] \<notin> set (w_locks w)"
    and "length (block_bytes P (log_data P log @ concat ess)) \<le> b" and "length (frames P log) \<le> l"
    and "\<forall>j \<in> set ids. unat j < n" and "0 < n" and "n < 2 ^ 64"
  shows "\<exists>s w'. open_path P d w = (Ok s, w') \<and> quiet w' \<and> sized P w' s (view (log_data P log) ess) b l n \<and> st_dir s = d"
proof -
  from open_path_ok [OF assms(1-3)] obtain s w' where
    s: "open_path P d w = (Ok s, w')" "engine P w' s ids ess log" "quiet w'" "st_dir s = d"
      "\<forall>k. (\<forall>j \<in> set ids. j < k) \<and> 0 < k \<longrightarrow> next_sstable_id s \<le> k" by blast
  have n: "unat (of_nat n :: u64) = n" using assms(8) by (simp add: unat_of_nat take_bit_nat_eq_self)
  have "next_sstable_id s \<le> of_nat n"
    using s(5) [rule_format, of "of_nat n"] assms(6,7) n by (simp add: word_less_nat_alt)
  then have "unat (next_sstable_id s) \<le> n" by (simp add: word_le_nat_alt n)
  moreover have "st_data s = log_data P log" using s(2) by (simp add: engine_def)
  ultimately have "sized P w' s (view (log_data P log) ess) b l n" using assms(4,5) by (intro sizedI [OF s(2)]) simp_all
  with s show ?thesis by blast
qed

lemma open_fresh:
  assumes "quiet w" and "on_disk P w d [] [] []" and "d @ [''LOCK''] \<notin> set (w_locks w)"
  shows "\<exists>s w'. open_path P d w = (Ok s, w') \<and> quiet w' \<and> sized P w' s (\<lambda>k. None) 0 0 1 \<and> st_dir s = d"
proof -
  have "view (log_data P []) [] = (\<lambda>k. None)" by (simp add: view_def log_data_def fun_eq_iff)
  then show ?thesis using open_sized [OF assms, of 0 0 1] by (simp add: log_data_def)
qed

lemma open_models:
  assumes "quiet w" and "on_disk P w d ids ess log" and "d @ [''LOCK''] \<notin> set (w_locks w)"
  shows "\<exists>s w'. open_path P d w = (Ok s, w') \<and> quiet w' \<and> models P w' s (view (log_data P log) ess) \<and> st_dir s = d"
proof -
  from open_path_ok [OF assms] obtain s w' where
    s: "open_path P d w = (Ok s, w')" "engine P w' s ids ess log" "quiet w'" "st_dir s = d" by blast
  moreover have "st_data s = log_data P log" using s(2) by (simp add: engine_def)
  ultimately show ?thesis using modelsI [OF s(2)] by auto
qed

lemma on_disk_recovers: "on_disk P w d ids ess log \<Longrightarrow> recovers P w d (view (log_data P log) ess)"
  using open_models [of "restart w" d ids ess log] by (simp add: recovers_def)

lemma survives_recovers: "survives P w d m \<Longrightarrow> recovers P w d m"
  by (auto simp: survives_def intro: on_disk_recovers)

lemma models_recovers:
  assumes "models P w s m"
  shows "recovers P w (st_dir s) m"
proof -
  obtain ids ess log where e: "engine P w s ids ess log" "m = view (st_data s) ess"
    using assms by (rule modelsE)
  have "st_data s = log_data P log" using e(1) by (simp add: engine_def)
  with on_disk_recovers [OF engine_on_disk [OF e(1)]] e(2) show ?thesis by simp
qed

text \<open>Closing a store and opening its directory again, in the same process.\<close>

lemma reopen_sized:
  assumes "quiet w" and "sized P w s m b l n" and "0 < n" and "n < 2 ^ 64"
  shows "\<exists>s' w'. open_path P (st_dir s) (drop_store s w) = (Ok s', w') \<and> quiet w' \<and> sized P w' s' m b l n"
proof -
  obtain ids ess log where e: "engine P w s ids ess log" "m = view (st_data s) ess"
    "length (block_bytes P (st_data s @ concat ess)) \<le> b" "length (frames P log) \<le> l" "unat (next_sstable_id s) \<le> n"
    using assms(2) by (rule sizedE)
  let ?w = "fs_unlock (st_dir s @ [''LOCK'']) w"
  have s: "st_data s = log_data P log" "st_lock s = Some (st_dir s @ [''LOCK''])" "\<forall>j \<in> set ids. j < next_sstable_id s"
    using e(1) by (simp_all add: engine_def)
  have "\<forall>j \<in> set ids. unat j < n" using s(3) e(5) by (auto simp: word_less_nat_alt intro: less_le_trans)
  moreover have "st_dir s @ [''LOCK''] \<notin> set (w_locks ?w)" by (simp add: fs_unlock_def)
  moreover have "quiet ?w" "on_disk P ?w (st_dir s) ids ess log"
    using engine_on_disk [OF e(1)] assms(1) by simp_all
  ultimately have "\<exists>s' w'. open_path P (st_dir s) ?w = (Ok s', w') \<and> quiet w' \<and> sized P w' s' (view (log_data P log) ess) b l n"
    using open_sized [of ?w "st_dir s" ids ess log b l n] e(3,4) s(1) assms(3,4) by auto
  then show ?thesis using s e(2) by (simp add: drop_store_def)
qed

lemma reopen_models:
  assumes "quiet w" and "models P w s m"
  shows "\<exists>s' w'. open_path P (st_dir s) (drop_store s w) = (Ok s', w') \<and> quiet w' \<and> models P w' s' m"
proof -
  let ?n = "max 1 (unat (next_sstable_id s))"
  have "sized P w s m (stored_bytes P w s) (length (contents w (wal_path (st_wal s)))) ?n"
    using sized_mono [OF models_sized [OF assms(2)]] by simp
  moreover have "?n < 2 ^ 64" using unsigned_less [where 'a = nat, of "next_sstable_id s"] by simp
  ultimately show ?thesis using reopen_sized [OF assms(1)] sized_models by (metis less_max_iff_disj zero_less_one)
qed

text \<open>What the directory holds when only the log has changed.\<close>

lemma engine_log_on_disk:
  assumes "engine P w s ids ess log" and "touches (wal_path (st_wal s)) w w'"
    and "contents w' (wal_path (st_wal s)) = frames P es @ rest" and "torn rest" and "length (frames P es) < 2 ^ 62"
    and "committed (is_commit P) es = log'" and "list_all (log_ok P) log'"
  shows "on_disk P w' (st_dir s) ids ess log'"
proof -
  let ?d = "st_dir s"
  have E: "wal_holds (st_wal s) w (frames P log)" "wal_path (st_wal s) = ?d @ [''wal.log'']" "dir_holds P w ?d ids ess"
    using assms(1) by (simp_all add: engine_def)
  have t: "touches (?d @ [''wal.log'']) w w'" using assms(2) E(2) by simp
  have "log_holds P w' ?d log'" unfolding log_holds_def using assms(3-7) E(2) by auto
  moreover have w: "?d @ [''wal.log''] \<notin> set (w_dirs w)" using E(1,2) by (auto simp: wal_holds_def writable_at_def)
  moreover have "dir_holds P w' ?d ids ess" using dir_holds_touches [OF E(3) t w] by simp
  moreover have "w_dirs w' = w_dirs w" using t by (simp add: touches_def)
  moreover have "file_of w' q = file_of w q" if "q \<in> set (ancestors ?d)" for q
  proof -
    have "q \<noteq> ?d @ [''wal.log'']" using that child_not_ancestor [of "?d @ [''wal.log'']" ?d] by auto
    with t show ?thesis by (simp add: touches_def)
  qed
  ultimately show ?thesis using engine_on_disk [OF assms(1)] by (simp add: on_disk_def)
qed

text \<open>
  Faults while a batch is written to the log: afterwards the directory holds the old map or
  the new one.
\<close>

lemma batch_on_disk:
  assumes "engine P w s ids ess log" and "log_batch P ps (s, w) = (r, (s', w'))"
    and "length (frames P (log @ batch_log (st_sequence s) ps)) < 2 ^ 62"
  shows "on_disk P w' (st_dir s) ids ess log \<and> r \<noteq> Ok ()
    \<or> on_disk P w' (st_dir s) ids ess (log @ batch_log (st_sequence s) ps)"
proof -
  let ?d = "st_dir s" and ?new = "log @ batch_log (st_sequence s) ps"
  let ?b = "batch_entries (st_sequence s) ps" and ?c = "commit_entry (st_sequence s + of_nat (length ps))"
  have E: "wal_holds (st_wal s) w (frames P log)" "wal_path (st_wal s) = ?d @ [''wal.log'']"
    "committed (is_commit P) log = log" "list_all (log_ok P) log" "dir_holds P w ?d ids ess"
    using assms(1) by (simp_all add: engine_def)
  from log_batch_any [OF assms(2) E(1)] obtain n where
    any: "touches (wal_path (st_wal s)) w w'" "wal_path (st_wal s') = wal_path (st_wal s)"
      "wal_holds (st_wal s') w' (frames P log @ take n (frames P (batch_log (st_sequence s) ps)))"
      "r = Ok () \<longrightarrow> length (frames P (batch_log (st_sequence s) ps)) \<le> n" by blast
  then have n: "touches (?d @ [''wal.log'']) w w'" "contents w' (?d @ [''wal.log'']) = frames P log @ take n (frames P (batch_log (st_sequence s) ps))"
      "r = Ok () \<longrightarrow> length (frames P (batch_log (st_sequence s) ps)) \<le> n"
    using E(2) by (simp_all add: wal_holds_def)
  let ?n = "length (frames P log) + n"
  have "contents w' (?d @ [''wal.log'']) = take ?n (frames P ?new)" using n(2) by simp
  moreover obtain rest where "take ?n (frames P ?new) = frames P (whole (frame P) ?n ?new) @ rest" "torn rest"
    using cut_frames [of P ?new ?n] assms(3) by auto
  ultimately have cont: "contents w' (?d @ [''wal.log'']) = frames P (whole (frame P) ?n ?new) @ rest" "torn rest"
    by simp_all
  have len: "length (frames P (whole (frame P) ?n ?new)) < 2 ^ 62"
    using whole_prefix [of ?new "frame P" ?n] assms(3) by (metis frames_simps(3) le_add1 le_less_trans length_append)
  have comm: "committed (is_commit P) (whole (frame P) ?n ?new) = (if length (frames P ?new) \<le> ?n then ?new else log)"
    using committed_whole_batch [OF E(3) batch_entries_facts(3) commit_entry_facts(1), of "frame P" ?n "st_sequence s" ps
        "st_sequence s + of_nat (length ps)"]
    by (simp add: batch_log_def frames_def)
  have ok: "list_all (log_ok P) (if length (frames P ?new) \<le> ?n then ?new else log)"
    using E(4) batch_log_facts(2) by simp
  have "on_disk P w' ?d ids ess (if length (frames P ?new) \<le> ?n then ?new else log)"
    using engine_log_on_disk [OF assms(1) any(1) _ cont(2) len comm ok] cont(1) E(2) by simp
  then show ?thesis using n(3) by (auto split: if_splits)
qed

lemma batch_crash:
  assumes "models P w s m" and "bt_sorted ps" and "room P w s (batch_cost P s ps)"
    and "log_batch P ps (s, w) = (r, (s', w'))"
  shows "survives P w' (st_dir s) (apply_batch ps m) \<or> survives P w' (st_dir s) m \<and> r \<noteq> Ok ()"
proof -
  obtain ids ess log where e: "engine P w s ids ess log" "m = view (st_data s) ess"
    using assms(1) by (rule modelsE)
  have data: "st_data s = log_data P log" using e(1) by (simp add: engine_def)
  have "length (frames P (log @ batch_log (st_sequence s) ps)) < 2 ^ 62"
    using assms(3) engine_wal_contents [OF e(1)] by (simp add: room_def batch_cost_def)
  moreover have "view (log_data P (log @ batch_log (st_sequence s) ps)) ess = apply_batch ps m"
    using view_batch [OF log_data_sorted assms(2)] data e(2) by (simp add: log_data_batch)
  ultimately show ?thesis
    using batch_on_disk [OF e(1) assms(4)] survivesI data e(2) by metis
qed

text \<open>A batch that stays within the memtable budget, under any schedule of faults.\<close>

lemma write_batch_below_budget:
  assumes "models P w s m" and "memtable_bytes (insert_all (pending_ops ps) s) < memtable_max_bytes s"
    and "write_batch P ps (s, w) = (r, (s', w'))"
  shows "\<exists>s1. log_batch P ps (s, w) = (r, (s1, w')) \<and> r \<noteq> Panic"
proof -
  obtain r1 s1 w1 where o1: "log_batch P ps (s, w) = (r1, (s1, w1))" using prod_cases3 by blast
  obtain ids ess log where "engine P w s ids ess log" using assms(1) by (rule modelsE)
  then have "wal_holds (st_wal s) w (frames P log)" by (simp add: engine_def)
  note any = log_batch_any [OF o1 this]
  have mb: "memtable_bytes (insert_all ops (s\<lparr>st_wal := l, st_sequence := q\<rparr>)) = memtable_bytes (insert_all ops s)" for ops l q
    by (simp add: insert_all_sequence insert_all_wal)
  have "memtable_bytes (insert_all (pending_ops ps) s1) < memtable_max_bytes s1"
    using any assms(2) mb by (metis store.ext_inject store.surjective store.update_convs(4,5))
  then have "\<not> memtable_max_bytes s1 \<le> memtable_bytes (insert_all (pending_ops ps) s1)" by (simp add: not_le)
  with assms(3) any o1 show ?thesis
    by (cases r1) (auto simp: write_batch_def bindA_def updS_def fold_pending_apply maybe_flush_def)
qed

lemma write_batch_no_panic:
  "models P w s m \<Longrightarrow> memtable_bytes (insert_all (pending_ops ps) s) < memtable_max_bytes s \<Longrightarrow>
     write_batch P ps (s, w) = (r, (s', w')) \<Longrightarrow> r \<noteq> Panic"
  using write_batch_below_budget by blast

lemma write_batch_crash:
  assumes "models P w s m" and "bt_sorted ps" and "room P w s (batch_cost P s ps)"
    and "memtable_bytes (insert_all (pending_ops ps) s) < memtable_max_bytes s"
    and "write_batch P ps (s, w) = (r, (s', w'))"
  shows "survives P w' (st_dir s) (apply_batch ps m) \<or> survives P w' (st_dir s) m \<and> r \<noteq> Ok ()"
  using write_batch_below_budget [OF assms(1,4,5)] batch_crash [OF assms(1-3)] by blast

lemma set_value_survives:
  assumes "models P w s m" and "room P w s (batch_cost P s [(k, Some v)])"
    and "memtable_bytes (memtable_insert k (Value v) s) < memtable_max_bytes s"
    and "set_value P k v (s, w) = (r, (s', w'))"
  shows "survives P w' (st_dir s) (m(k \<mapsto> v)) \<or> survives P w' (st_dir s) m \<and> (\<exists>e. r = Err e)"
proof -
  have upd: "apply_batch [(k, Some v)] m = m(k \<mapsto> v)" by (auto simp: apply_batch_def)
  obtain r1 s1 w1 where o1: "write_batch P [(k, Some v)] (s, w) = (r1, (s1, w1))" using prod_cases3 by blast
  have "w' = w1" "r1 \<noteq> Ok () \<Longrightarrow> (\<exists>e. r1 = Err e) \<Longrightarrow> \<exists>e. r = Err e"
    using assms(4) by (auto simp: set_value_batch bindA_def o1 split: outcome.splits)
  moreover have "r1 \<noteq> Panic" using write_batch_no_panic [OF assms(1) _ o1] assms(3) by (simp add: pending_ops_def)
  ultimately show ?thesis
    using write_batch_crash [OF assms(1) _ assms(2) _ o1] assms(3) upd
    by (cases r1) (auto simp: pending_ops_def)
qed

lemma tx_commit_survives:
  assumes "models P w (tx_store t) m" and "bt_sorted (tx_pending t)"
    and "room P w (tx_store t) (batch_cost P (tx_store t) (tx_pending t))"
    and "memtable_bytes (fold pending_apply (tx_pending t) (tx_store t)) < memtable_max_bytes (tx_store t)"
    and "tx_commit P t w = (r, (s', w'))"
  shows "survives P w' (st_dir (tx_store t)) (apply_batch (tx_pending t) m)
    \<or> survives P w' (st_dir (tx_store t)) m \<and> (\<exists>e. r = Err e)"
proof (cases "tx_pending t = []")
  case True
  then show ?thesis using assms(5) models_survives [OF assms(1)] by (simp add: tx_commit_def)
next
  case False
  then have run: "write_batch P (tx_pending t) (tx_store t, w) = (r, (s', w'))"
    using assms(5) by (simp add: tx_commit_batch)
  have "r \<noteq> Panic" using write_batch_no_panic [OF assms(1) _ run] assms(4) by (simp add: fold_pending_apply)
  with write_batch_crash [OF assms(1-3) _ run] assms(4) show ?thesis
    by (cases r) (auto simp: fold_pending_apply)
qed

end

end
