(* ===== verification/Ferrum_Api.thy ===== *)
theory Ferrum_Api
  imports Ferrum_Crash "HOL-Library.Char_ord"
begin

text \<open>
  The public crate \<open>ferrumdb/src\<close>: its error type (\<open>error.rs\<close>), table handles
  (\<open>table.rs\<close>), transactions (\<open>txn.rs\<close>) and the database that manages named tables
  (\<open>database.rs\<close>). This theory holds the definitions; \<open>Ferrum_Client\<close> proves what a client
  of the crate sees.
\<close>

section \<open>Errors\<close>

datatype db_error =
    Io string
  | InvalidTableName string
  | TableExists string
  | TableNotFound string
  | UnexpectedValue
  | Internal string

fun display_error :: "db_error \<Rightarrow> string" where
  "display_error (Io m) = ''io error: '' @ m"
| "display_error (InvalidTableName n) = ''invalid table name: '' @ n"
| "display_error (TableExists n) = ''table already exists: '' @ n"
| "display_error (TableNotFound n) = ''table not found: '' @ n"
| "display_error UnexpectedValue = ''stored value was not written as bytes''"
| "display_error (Internal m) = ''internal error: '' @ m"

fun from_app_error :: "app_error \<Rightarrow> db_error" where
  "from_app_error (IoError m) = Io m"
| "from_app_error (DecodeError m) = Internal m"
| "from_app_error (InternalError m) = Internal m"
| "from_app_error (KeyNotFound m) = Internal m"

text \<open>
  The result of a call of the crate, and the step from a core result to it: \<open>?\<close> converts the
  error with \<open>From\<close>, a panic stays a panic.
\<close>

datatype 'a reply = Done 'a | Fail db_error | Abort

type_synonym ('s, 'a) call = "'s \<Rightarrow> 'a reply \<times> 's"

fun reply_of :: "'a outcome \<Rightarrow> 'a reply" where
  "reply_of (Ok x) = Done x"
| "reply_of (Err e) = Fail (from_app_error e)"
| "reply_of Panic = Abort"

definition liftA :: "('s, 'a) act \<Rightarrow> ('s, 'a) call" where
  "liftA m s = (case m s of (r, s') \<Rightarrow> (reply_of r, s'))"

definition bindR :: "'a reply \<Rightarrow> ('a \<Rightarrow> 'b reply) \<Rightarrow> 'b reply" where
  "bindR r f = (case r of Done x \<Rightarrow> f x | Fail e \<Rightarrow> Fail e | Abort \<Rightarrow> Abort)"

definition bindC :: "('s, 'a) call \<Rightarrow> ('a \<Rightarrow> ('s, 'b) call) \<Rightarrow> ('s, 'b) call" where
  "bindC m f s = (case m s of
     (Done x, s') \<Rightarrow> f x s' | (Fail e, s') \<Rightarrow> (Fail e, s') | (Abort, s') \<Rightarrow> (Abort, s'))"

definition mapC :: "('a \<Rightarrow> 'b reply) \<Rightarrow> ('s, 'a) call \<Rightarrow> ('s, 'b) call" where
  "mapC f m s = (case m s of (r, s') \<Rightarrow> (bindR r f, s'))"

section \<open>Table handles\<close>

text \<open>A handle borrows the store of its table; a list of pairs is what scans return.\<close>

type_synonym pairs = "(bytes \<times> bytes) list"
type_synonym table_handle = store

type_synonym 'a table_call = "(table_handle \<times> world, 'a) call"

definition table_put :: "prost \<Rightarrow> bytes \<Rightarrow> bytes \<Rightarrow> unit table_call" where
  "table_put P key v = mapC (\<lambda>_. Done ()) (liftA (set_value P key (Bytes v)))"

fun expect_bytes :: "db_value option \<Rightarrow> bytes option reply" where
  "expect_bytes (Some (Bytes b)) = Done (Some b)"
| "expect_bytes (Some _) = Fail UnexpectedValue"
| "expect_bytes None = Done None"

definition table_get :: "prost \<Rightarrow> bytes \<Rightarrow> bytes option table_call" where
  "table_get P key = mapC expect_bytes (liftA (get_value P key))"

definition table_contains :: "prost \<Rightarrow> bytes \<Rightarrow> bool table_call" where
  "table_contains P key = mapC (\<lambda>v. Done (v \<noteq> None)) (table_get P key)"

definition table_delete :: "prost \<Rightarrow> bytes \<Rightarrow> unit table_call" where
  "table_delete P key = mapC (\<lambda>_. Done ()) (liftA (delete_value P key))"

definition table_put_batch :: "prost \<Rightarrow> (bytes \<times> bytes) list \<Rightarrow> unit table_call" where
  "table_put_batch P es = (\<lambda>(s, w).
     let tx = foldl (\<lambda>tx (key, v). tx_set_value key (Bytes v) tx) (begin_transaction s) es
     in case tx_commit P tx w of (r, sw) \<Rightarrow> (reply_of r, sw))"

fun table_get_batch :: "prost \<Rightarrow> bytes list \<Rightarrow> (bytes option list) table_call" where
  "table_get_batch P [] = (\<lambda>s. (Done [], s))"
| "table_get_batch P (key # keys) =
     bindC (table_get P key) (\<lambda>v. mapC (\<lambda>vs. Done (v # vs)) (table_get_batch P keys))"

fun collect_bytes :: "(bytes \<times> db_value) list \<Rightarrow> pairs reply" where
  "collect_bytes [] = Done []"
| "collect_bytes ((key, v) # ps) =
     (case v of Bytes b \<Rightarrow> bindR (collect_bytes ps) (\<lambda>out. Done ((key, b) # out))
              | _ \<Rightarrow> Fail UnexpectedValue)"

definition range_bounds :: "prost \<Rightarrow> bound \<Rightarrow> bound \<Rightarrow> pairs table_call" where
  "range_bounds P lo hi = mapC collect_bytes (liftA (scan_range P lo hi))"

definition table_scan :: "prost \<Rightarrow> pairs table_call" where
  "table_scan P = range_bounds P Unbounded Unbounded"

definition table_range :: "prost \<Rightarrow> bytes \<Rightarrow> bytes \<Rightarrow> pairs table_call" where
  "table_range P start stop = range_bounds P (Included start) (Excluded stop)"

function prefix_upper_bound :: "bytes \<Rightarrow> bytes option" where
  "prefix_upper_bound end =
     (if end = [] then None
      else if last end < 0xFF then Some (butlast end @ [last end + 1])
      else prefix_upper_bound (butlast end))"
  by pat_completeness auto
termination
  by (relation "measure length") auto

declare prefix_upper_bound.simps [simp del]

definition scan_prefix :: "prost \<Rightarrow> bytes \<Rightarrow> pairs table_call" where
  "scan_prefix P pre =
     (let hi = (case prefix_upper_bound pre of Some u \<Rightarrow> Excluded u | None \<Rightarrow> Unbounded)
      in range_bounds P (Included pre) hi)"

section \<open>Transactions\<close>

text \<open>\<open>Txn\<close> wraps the core transaction; \<open>Table::transaction\<close> begins one.\<close>

type_synonym txn = transaction

type_synonym 'a txn_call = "(txn \<times> world, 'a) call"

definition table_transaction :: "table_handle \<Rightarrow> txn" where
  "table_transaction s = begin_transaction s"

definition txn_put :: "bytes \<Rightarrow> bytes \<Rightarrow> transaction \<Rightarrow> transaction" where
  "txn_put key v t = tx_set_value key (Bytes v) t"

definition txn_delete :: "bytes \<Rightarrow> transaction \<Rightarrow> transaction" where
  "txn_delete key t = tx_delete_value key t"

definition txn_get :: "prost \<Rightarrow> bytes \<Rightarrow> bytes option txn_call" where
  "txn_get P key = mapC expect_bytes (liftA (tx_get_value P key))"

definition txn_commit :: "prost \<Rightarrow> transaction \<Rightarrow> world \<Rightarrow> unit reply \<times> (store \<times> world)" where
  "txn_commit P t w = (case tx_commit P t w of (r, sw) \<Rightarrow> (reply_of r, sw))"

definition txn_rollback :: "transaction \<Rightarrow> store" where
  "txn_rollback t = tx_rollback t"

section \<open>The database\<close>

record database =
  db_root :: path
  db_open :: "(string \<times> store) list"

type_synonym 'a db_call = "(database \<times> world, 'a) call"

definition onWC :: "('w, 'a) call \<Rightarrow> ('x \<times> 'w, 'a) call" where
  "onWC m = (\<lambda>(x, w). case m w of (r, w') \<Rightarrow> (r, (x, w')))"

definition failC :: "db_error \<Rightarrow> ('s, 'a) call" where
  "failC e s = (Fail e, s)"

definition database_open :: "path \<Rightarrow> world \<Rightarrow> database reply \<times> world" where
  "database_open root =
     mapC (\<lambda>_. Done \<lparr>db_root = root, db_open = []\<rparr>) (liftA (fs_create_dir_all root))"

definition validate_name :: "string \<Rightarrow> unit reply" where
  "validate_name name =
     (if name = [] \<or> CHR ''/'' \<in> set name \<or> CHR 0x5C \<in> set name \<or> name = ''.'' \<or> name = ''..''
      then Fail (InvalidTableName name) else Done ())"

definition valid_name :: "string \<Rightarrow> unit db_call" where
  "valid_name name s = (validate_name name, s)"

text \<open>\<open>to_string_lossy\<close> is \<open>path_display\<close>: the components of a path are strings, that is UTF-8.\<close>

definition open_store :: "prost \<Rightarrow> string \<Rightarrow> unit db_call" where
  "open_store P name = (\<lambda>(db, w).
     case liftA (open_with_dir P (path_display (path_join (db_root db) name))) w of
       (Done s, w') \<Rightarrow> (Done (), (db\<lparr>db_open := AList.update name s (db_open db)\<rparr>, w'))
     | (Fail e, w') \<Rightarrow> (Fail e, (db, w'))
     | (Abort, w') \<Rightarrow> (Abort, (db, w')))"

definition create_table :: "prost \<Rightarrow> string \<Rightarrow> unit db_call" where
  "create_table P name =
     bindC (valid_name name) (\<lambda>_ (db, w).
     bindC (onWC (liftA (fs_exists (path_join (db_root db) name)))) (\<lambda>ex.
       if ex then failC (TableExists name) else open_store P name) (db, w))"

text \<open>
  \<open>Database::table\<close> makes sure the table is open and lends its store. The borrow ends before
  the next call on the database, so what a client does with the handle is an action on that
  store, put back where it was.
\<close>

definition database_table :: "prost \<Rightarrow> string \<Rightarrow> unit db_call" where
  "database_table P name =
     bindC (valid_name name) (\<lambda>_ (db, w).
       if map_of (db_open db) name = None then open_store P name (db, w) else (Done (), (db, w)))"

definition with_table :: "prost \<Rightarrow> string \<Rightarrow> 'a table_call \<Rightarrow> 'a db_call" where
  "with_table P name m =
     bindC (database_table P name) (\<lambda>_ (db, w).
       case map_of (db_open db) name of
         None \<Rightarrow> (Abort, (db, w))
       | Some s \<Rightarrow>
           (case m (s, w) of
              (r, (s', w')) \<Rightarrow> (r, (db\<lparr>db_open := AList.update name s' (db_open db)\<rparr>, w'))))"

definition delete_table :: "prost \<Rightarrow> string \<Rightarrow> unit db_call" where
  "delete_table P name =
     bindC (valid_name name) (\<lambda>_ (db, w).
     let dir = path_join (db_root db) name in
     bindC (onWC (liftA (fs_exists dir))) (\<lambda>ex.
       if \<not> ex then failC (TableNotFound name)
       else (\<lambda>(db, w).
         let w = (case map_of (db_open db) name of None \<Rightarrow> w | Some s \<Rightarrow> drop_store s w);
             db = db\<lparr>db_open := AList.delete name (db_open db)\<rparr>
         in onWC (liftA (fs_remove_dir_all dir)) (db, w))) (db, w))"

text \<open>
  Of an entry that is a directory the name is taken when \<open>to_str\<close> gives one, which it does for
  every name that the model has (see \<open>os_to_str\<close> in \<open>Ferrum_Fs\<close>).
\<close>

fun list_names :: "path list \<Rightarrow> (world, string list) act" where
  "list_names [] = returnA []"
| "list_names (q # qs) =
     bindA (fs_dir_entry q) (\<lambda>p.
     bindA (fs_is_dir p) (\<lambda>d.
     bindA (list_names qs) (\<lambda>names.
     returnA (case os_to_str (last p) of
                Some name \<Rightarrow> if d then name # names else names
              | None \<Rightarrow> names))))"

definition list_tables :: "(string list) db_call" where
  "list_tables = (\<lambda>(db, w).
     onWC (liftA (bindA (fs_read_dir (db_root db)) (\<lambda>es.
       bindA (list_names es) (\<lambda>names. returnA (sort names))))) (db, w))"

end
