(* ===== verification/Ferrum_Client.thy ===== *)
theory Ferrum_Client
  imports Ferrum_Api
begin

text \<open>
  What a client of the crate \<open>ferrumdb\<close> sees: the byte map of a table, the range a prefix
  scan covers, and the effect of the calls on a database.
\<close>

section \<open>Prefixes\<close>

lemma prefix_upper_bound_simps:
  "prefix_upper_bound [] = None"
  "prefix_upper_bound (xs @ [x]) = (if x < 0xFF then Some (xs @ [x + 1]) else prefix_upper_bound xs)"
  by (subst prefix_upper_bound.simps; simp)+

text \<open>The bound read from the front: it bumps the last byte that can be bumped.\<close>

lemma prefix_upper_bound_Cons:
  "prefix_upper_bound (a # p) =
     (case prefix_upper_bound p of
        Some u \<Rightarrow> Some (a # u)
      | None \<Rightarrow> if a < 0xFF then Some [a + 1] else None)"
proof (induction p rule: rev_induct)
  case Nil
  then show ?case using prefix_upper_bound_simps(2) [of "[]" a] by (simp add: prefix_upper_bound_simps)
next
  case (snoc x xs)
  then show ?case using prefix_upper_bound_simps(2) [of "a # xs" x] by (simp add: prefix_upper_bound_simps)
qed

lemma u8_le_max: "(a :: u8) \<le> 0xFF"
proof -
  have "unat a < 2 ^ 8" using unsigned_less [where 'a = nat, of a] by simp
  then show ?thesis by (simp add: word_le_nat_alt)
qed

lemma u8_max: "\<not> (a :: u8) < 0xFF \<longleftrightarrow> a = 0xFF"
  using u8_le_max [of a] by (auto simp: not_less)

lemma u8_less_Suc:
  fixes a b :: u8
  assumes "a < 0xFF"
  shows "b < a + 1 \<longleftrightarrow> b \<le> a"
proof -
  have "unat a < 255" using assms by (simp add: word_less_nat_alt)
  then have "unat (a + 1) = unat a + 1" by (simp add: unat_word_ariths)
  then show ?thesis by (simp add: word_less_nat_alt word_le_nat_alt less_Suc_eq_le)
qed

definition below :: "bytes \<Rightarrow> bytes option \<Rightarrow> bool" where
  "below k u \<longleftrightarrow> (case u of None \<Rightarrow> True | Some u \<Rightarrow> k < u)"

theorem prefix_range:
  "take (length pre) k = pre \<longleftrightarrow> pre \<le> k \<and> below k (prefix_upper_bound pre)"
proof (induction pre arbitrary: k)
  case Nil
  then show ?case by (simp add: below_def prefix_upper_bound_simps)
next
  case (Cons a p)
  show ?case
  proof (cases k)
    case Nil
    then show ?thesis by simp
  next
    case k: (Cons b k')
    show ?thesis
    proof (cases "prefix_upper_bound p")
      case (Some u)
      with Cons [of k'] show ?thesis
        by (auto simp: k prefix_upper_bound_Cons below_def)
    next
      case None
      have "\<not> a < b" if "\<not> a < 0xFF"
        using that u8_max [of a] u8_le_max [of b] by (simp add: not_less)
      with None Cons [of k'] show ?thesis
        by (auto simp: k prefix_upper_bound_Cons below_def u8_less_Suc)
    qed
  qed
qed

lemma prefix_less_upper: "prefix_upper_bound pre = Some u \<Longrightarrow> pre < u"
  using prefix_range [of pre pre] by (simp add: below_def)

section \<open>The byte map of a table\<close>

definition table_models :: "prost \<Rightarrow> world \<Rightarrow> store \<Rightarrow> (bytes \<Rightarrow> bytes option) \<Rightarrow> bool" where
  "table_models P w s b \<longleftrightarrow> models P w s (\<lambda>k. map_option Bytes (b k))"

lemma expect_bytes_map [simp]: "expect_bytes (map_option Bytes v) = Done v"
  by (cases v) simp_all

lemma collect_bytes_ok:
  assumes "\<And>k v. (k, v) \<in> set ps \<Longrightarrow> \<exists>b. v = Bytes b"
  shows "\<exists>bs. collect_bytes ps = Done bs \<and> ps = map (\<lambda>(k, b). (k, Bytes b)) bs"
  using assms
proof (induction ps)
  case (Cons p ps)
  obtain k v where p: "p = (k, v)" by force
  obtain b where "v = Bytes b" using Cons.prems [of k v] p by auto
  moreover obtain bs where "collect_bytes ps = Done bs" "ps = map (\<lambda>(k, b). (k, Bytes b)) bs"
    using Cons by auto
  ultimately show ?case by (intro exI [of _ "(k, b) # bs"]) (simp add: p bindR_def)
qed simp

lemma map_of_map_Bytes: "map_of (map (\<lambda>(k, b). (k, Bytes b)) bs) k = map_option Bytes (map_of bs k)"
  by (induction bs) auto

lemma option_Bytes_inj: "map_option Bytes x = map_option Bytes y \<longleftrightarrow> x = y"
  by (cases x; cases y) simp_all

lemma bt_sorted_map_Bytes: "bt_sorted (map (\<lambda>(k, b). (k, Bytes b)) bs) \<longleftrightarrow> bt_sorted bs"
  by (simp add: bt_sorted_def comp_def case_prod_beta)

context prost_codec
begin

lemma table_get_models:
  assumes "quiet w" and "table_models P w s b"
  shows "\<exists>s' w'. table_get P key (s, w) = (Done (b key), (s', w')) \<and> quiet w' \<and> table_models P w' s' b"
  using get_value_models [of w s "\<lambda>k. map_option Bytes (b k)" key] assms
  by (auto simp: table_get_def table_models_def mapC_def liftA_def bindR_def)

lemma table_put_models:
  assumes "quiet w" and "table_models P w s b" and "room P w s (batch_cost P s [(key, Some (Bytes v))])"
  shows "\<exists>s' w'. table_put P key v (s, w) = (Done (), (s', w')) \<and> quiet w' \<and> table_models P w' s' (b(key \<mapsto> v))"
proof -
  have "(\<lambda>k. map_option Bytes ((b(key \<mapsto> v)) k)) = (\<lambda>k. map_option Bytes (b k))(key \<mapsto> Bytes v)" by auto
  with set_value_models [of w s "\<lambda>k. map_option Bytes (b k)" key "Bytes v"] assms show ?thesis
    by (auto simp: table_put_def table_models_def mapC_def liftA_def bindR_def)
qed

lemma table_delete_models:
  assumes "quiet w" and "table_models P w s b" and "room P w s (batch_cost P s [(key, None)])"
  shows "\<exists>s' w'. table_delete P key (s, w) = (Done (), (s', w')) \<and> quiet w' \<and> table_models P w' s' (b(key := None))"
proof -
  have "(\<lambda>k. map_option Bytes ((b(key := None)) k)) = (\<lambda>k. map_option Bytes (b k))(key := None)" by auto
  with delete_value_models [of w s "\<lambda>k. map_option Bytes (b k)" key] assms show ?thesis
    by (auto simp: table_delete_def table_models_def mapC_def liftA_def bindR_def)
qed

lemma table_get_batch_models:
  assumes "quiet w" and "table_models P w s b"
  shows "\<exists>s' w'. table_get_batch P keys (s, w) = (Done (map b keys), (s', w')) \<and> quiet w' \<and> table_models P w' s' b"
  using assms
proof (induction keys arbitrary: s w)
  case (Cons key keys)
  from table_get_models [OF Cons.prems, of key] obtain s1 w1 where
    g: "table_get P key (s, w) = (Done (b key), (s1, w1))" "quiet w1" "table_models P w1 s1 b" by blast
  from Cons.IH [OF g(2,3)] g(1) show ?case by (auto simp: bindC_def mapC_def bindR_def)
qed simp

lemma range_bounds_models:
  assumes "quiet w" and "table_models P w s b" and "st_data s = [] \<or> \<not> range_panics lo hi"
  shows "\<exists>ps w'. range_bounds P lo hi (s, w) = (Done ps, (s, w')) \<and> quiet w' \<and> table_models P w' s b
    \<and> bt_sorted ps \<and> (\<forall>k. map_of ps k = (if in_bounds k lo hi then b k else None))"
proof -
  from scan_range_models [OF assms(1) assms(2) [unfolded table_models_def] assms(3)] obtain ps w' where
    s: "scan_range P lo hi (s, w) = (Ok ps, (s, w'))" "quiet w'" "models P w' s (\<lambda>k. map_option Bytes (b k))" "bt_sorted ps"
      "\<forall>k. map_of ps k = (if in_bounds k lo hi then map_option Bytes (b k) else None)" by blast
  have "\<exists>x. v = Bytes x" if "(k, v) \<in> set ps" for k v
  proof -
    have "map_of ps k = Some v" using that s(4) by (simp add: bt_sorted_distinct)
    with s(5) [rule_format, of k] show ?thesis by (cases "b k") (auto split: if_splits)
  qed
  then obtain bs where
    bs: "collect_bytes ps = Done bs" "ps = map (\<lambda>(k, x). (k, Bytes x)) bs"
    using collect_bytes_ok [of ps] by blast
  have "map_of bs k = (if in_bounds k lo hi then b k else None)" for k
    using s(5) [rule_format, of k] unfolding bs(2) map_of_map_Bytes
    by (auto simp: option_Bytes_inj split: if_splits)
  moreover have "bt_sorted bs" using s(4) by (simp add: bs(2) bt_sorted_map_Bytes)
  ultimately show ?thesis
    using s(1,2,3) bs(1)
    by (auto simp: range_bounds_def mapC_def liftA_def bindR_def table_models_def)
qed

lemma scan_prefix_models:
  assumes "quiet w" and "table_models P w s b"
  shows "\<exists>ps w'. scan_prefix P pre (s, w) = (Done ps, (s, w')) \<and> quiet w' \<and> table_models P w' s b
    \<and> bt_sorted ps \<and> (\<forall>k. map_of ps k = (if take (length pre) k = pre then b k else None))"
proof -
  let ?hi = "case prefix_upper_bound pre of Some u \<Rightarrow> Excluded u | None \<Rightarrow> Unbounded"
  have "\<not> range_panics (Included pre) ?hi"
    using prefix_less_upper [of pre] by (auto simp: range_panics_def not_less split: option.splits)
  moreover have "in_bounds k (Included pre) ?hi \<longleftrightarrow> take (length pre) k = pre" for k
    unfolding prefix_range by (auto simp: in_bounds_def below_def split: option.splits)
  ultimately show ?thesis
    using range_bounds_models [OF assms, of "Included pre" ?hi] by (simp add: scan_prefix_def)
qed

end

section \<open>Batches and transactions\<close>

definition batch_of :: "(bytes \<times> bytes) list \<Rightarrow> (bytes \<times> db_value option) list" where
  "batch_of es = fold (\<lambda>(k, v). bt_insert k (Some (Bytes v))) es []"

lemma put_batch_steps:
  "foldl (\<lambda>tx (key, v). tx_set_value key (Bytes v) tx) t es = fold tx_step (map (\<lambda>(k, v). TxSet k (Bytes v)) es) t"
  by (induction es arbitrary: t) auto

lemma put_batch_pending:
  "tx_pending (fold tx_step (map (\<lambda>(k, v). TxSet k (Bytes v)) es) t)
     = fold (\<lambda>(k, v). bt_insert k (Some (Bytes v))) es (tx_pending t)"
  by (induction es arbitrary: t) (auto simp: tx_set_value_def)

lemma put_batch_effect:
  "fold op_effect (map (\<lambda>(k, v). TxSet k (Bytes v)) es) (\<lambda>k. map_option Bytes (b k))
     = (\<lambda>k. map_option Bytes ((b ++ map_of (rev es)) k))"
proof (induction es arbitrary: b)
  case (Cons p es)
  obtain k v where p: "p = (k, v)" by force
  have "(\<lambda>k. map_option Bytes (b k))(k \<mapsto> Bytes v) = (\<lambda>x. map_option Bytes ((b(k \<mapsto> v)) x))" by auto
  moreover have "b(k \<mapsto> v) ++ map_of (rev es) = b ++ map_of (rev (p # es))" by (simp add: p)
  ultimately show ?case using Cons [of "b(k \<mapsto> v)"] by (simp only: p list.map fold.simps comp_apply prod.case op_effect.simps)
qed simp

context prost_codec
begin

lemma table_put_batch_models:
  assumes "quiet w" and "table_models P w s b" and "room P w s (batch_cost P s (batch_of es))"
  shows "\<exists>s' w'. table_put_batch P es (s, w) = (Done (), (s', w')) \<and> quiet w'
    \<and> table_models P w' s' (b ++ map_of (rev es))"
proof -
  define t where "t = fold tx_step (map (\<lambda>(k, v). TxSet k (Bytes v)) es) (begin_transaction s)"
  have t: "tx_store t = s" "bt_sorted (tx_pending t)" by (simp_all add: t_def tx_steps)
  have pending: "tx_pending t = batch_of es" by (simp add: t_def put_batch_pending batch_of_def)
  have "models P w (tx_store t) (\<lambda>k. map_option Bytes (b k))"
    "room P w (tx_store t) (batch_cost P (tx_store t) (tx_pending t))"
    using assms(2,3) by (simp_all add: t(1) pending table_models_def)
  from tx_commit_models [OF assms(1) this(1) t(2) this(2)] obtain s' w' where
    c: "tx_commit P t w = (Ok (), (s', w'))" "quiet w'"
      "models P w' s' (apply_batch (tx_pending t) (\<lambda>k. map_option Bytes (b k)))" by blast
  have "apply_batch (tx_pending t) (\<lambda>k. map_option Bytes (b k)) = (\<lambda>k. map_option Bytes ((b ++ map_of (rev es)) k))"
    by (simp add: t_def tx_steps_batch put_batch_effect)
  with c show ?thesis
    by (simp add: table_put_batch_def put_batch_steps Let_def table_models_def flip: t_def)
qed

end

section \<open>The database\<close>

lemma validate_name_join:
  assumes "validate_name name = Done ()"
  shows "path_join root name = root @ [name]" and "name \<noteq> ''.''" and "name \<noteq> ''..''"
    and "normal_component name"
  using assms by (auto simp: validate_name_def normal_component_def intro!: path_join_plain split: if_splits)

lemma path_ok_child:
  assumes "path_ok root" and "normal_component name"
  shows "path_ok (root @ [name])"
  using assms by (cases root) (auto simp: path_ok_def)

lemma open_store_path:
  assumes "path_ok (db_root db)" and "validate_name name = Done ()"
  shows "open_with_dir P (path_display (path_join (db_root db) name)) = open_path P (db_root db @ [name])"
  using path_of_display [OF path_ok_child [OF assms(1) validate_name_join(4) [OF assms(2)]]]
    validate_name_join(1) [OF assms(2)] by (simp add: open_with_dir_def)

lemma invalid_name:
  assumes "validate_name name = Fail e"
  shows "create_table P name (db, w) = (Fail e, (db, w))"
    and "database_table P name (db, w) = (Fail e, (db, w))"
    and "delete_table P name (db, w) = (Fail e, (db, w))"
  using assms by (simp_all add: create_table_def database_table_def delete_table_def bindC_def valid_name_def)

lemma in_tree_child: "in_tree d (d @ [x])" "q \<noteq> [] \<Longrightarrow> butlast q = d \<Longrightarrow> in_tree d q"
  by (auto simp: in_tree_def butlast_conv_take)

lemma fresh_on_disk:
  assumes "fs_wf w" and "\<And>p. in_tree d p \<Longrightarrow> file_of w p = None \<and> p \<notin> set (w_dirs w)"
    and "\<forall>q \<in> set (ancestors d). file_of w q = None"
  shows "on_disk P w d [] [] []"
proof -
  have "log_holds P w d []"
    unfolding log_holds_def using assms(2) [OF in_tree_child(1) [of d "''wal.log''"]]
    by (intro conjI exI [of _ "[]"]) (simp_all add: contents_def)
  moreover have "dir_holds P w d [] []"
    unfolding dir_holds_def using assms(1) assms(2) [OF in_tree_child(2)] by auto
  ultimately show ?thesis
    using assms(2) [OF in_tree_child(1) [of d "''wal.log''"]] assms(2) [OF in_tree_child(1) [of d "''LOCK''"]] assms(3)
    by (simp add: on_disk_def)
qed

context prost_codec
begin

lemma create_table_fresh:
  assumes "quiet w" and "fs_wf w" and "path_ok (db_root db)" and "validate_name name = Done ()"
    and "\<And>p. in_tree (db_root db @ [name]) p \<Longrightarrow> file_of w p = None \<and> p \<notin> set (w_dirs w) \<and> p \<notin> set (w_locks w)"
    and "\<forall>q \<in> set (ancestors (db_root db @ [name])). file_of w q = None"
  shows "\<exists>s w'. create_table P name (db, w) = (Done (), (db\<lparr>db_open := AList.update name s (db_open db)\<rparr>, w'))
    \<and> quiet w' \<and> table_models P w' s (\<lambda>k. None) \<and> st_dir s = db_root db @ [name]"
proof -
  let ?d = "db_root db @ [name]"
  have u: "in_tree ?d ?d" "in_tree ?d (?d @ [''LOCK''])" by (simp_all add: in_tree_def)
  have "on_disk P (later 1 w) ?d [] [] []"
    using assms(2,5,6) by (intro fresh_on_disk) auto
  moreover have "?d @ [''LOCK''] \<notin> set (w_locks (later 1 w))" using assms(5) [OF u(2)] by simp
  ultimately obtain s w' where s: "open_path P ?d (later 1 w) = (Ok s, w')" "quiet w'"
      "models P w' s (view (log_data P []) [])" "st_dir s = ?d"
    using open_models [of "later 1 w" ?d "[]" "[]" "[]"] assms(1) by auto
  have "view (log_data P []) [] = (\<lambda>k. map_option Bytes None)"
    by (simp add: view_def log_data_def fun_eq_iff)
  then have "table_models P w' s (\<lambda>k. None)" using s(3) by (simp add: table_models_def)
  moreover have "fs_exists ?d w = (Ok False, later 1 w)"
    using assms(1) assms(5) [OF u(1)] by (simp add: fs_exists_quiet dir_exists_def)
  ultimately show ?thesis
    using s assms(4) open_store_path [OF assms(3,4), of P]
    by (intro exI [of _ s] exI [of _ w'])
      (simp add: create_table_def bindC_def valid_name_def validate_name_join(1) [OF assms(4)] onWC_def liftA_def
        open_store_def)
qed

end

lemma create_table_exists:
  assumes "quiet w" and "validate_name name = Done ()" and "dir_exists w (db_root db @ [name])"
  shows "create_table P name (db, w) = (Fail (TableExists name), (db, later 1 w))"
  using assms by (simp add: create_table_def bindC_def valid_name_def validate_name_join onWC_def liftA_def
      fs_exists_quiet failC_def)

lemma delete_table_missing:
  assumes "quiet w" and "validate_name name = Done ()" and "\<not> dir_exists w (db_root db @ [name])"
    and "file_of w (db_root db @ [name]) = None"
  shows "delete_table P name (db, w) = (Fail (TableNotFound name), (db, later 1 w))"
  using assms by (simp add: delete_table_def bindC_def valid_name_def validate_name_join onWC_def liftA_def
      fs_exists_quiet failC_def Let_def)

end
