(* ===== verification/Ferrum_Sample.thy ===== *)
theory Ferrum_Sample
  imports Ferrum_Client
begin

text \<open>
  A concrete table, log, store and world, at which the theorems of the development are
  applied. The table directory \<open>db/t\<close> holds one table file and a log with one committed
  write; the schedule of faults is a parameter.
\<close>

definition sample_dir :: path where "sample_dir = [''db'', ''t'']"

definition sample_entries :: entries where
  "sample_entries = [([1], Value (Bytes [7])), ([2], Value (Bytes [8])), ([3], Tombstone)]"

definition sample_log :: "wal_entry list" where
  "sample_log = batch_log 0 [([2], None), ([5], Some (Bytes [9]))]"

definition sample_table_path :: path where
  "sample_table_path = sample_dir @ [sst_file_name 1]"

definition sample_wal_path :: path where
  "sample_wal_path = sample_dir @ [''wal.log'']"

definition sample_world :: "(nat \<Rightarrow> fault) \<Rightarrow> world" where
  "sample_world faults =
     \<lparr>w_files = [(sample_wal_path, frames wire_codec sample_log),
                 (sample_dir @ [''LOCK''], []),
                 (sample_table_path, sst_image wire_codec sample_entries)],
      w_dirs = [[''db''], sample_dir], w_locks = [sample_dir @ [''LOCK'']],
      w_faults = faults, w_clock = 0\<rparr>"

definition sample_store :: store where
  "sample_store =
     \<lparr>st_data = [([2], Tombstone), ([5], Value (Bytes [9]))], memtable_bytes = 3,
      memtable_max_bytes = DEFAULT_MEMTABLE_MAX_BYTES,
      st_wal = \<lparr>wal_path = sample_wal_path, wal_file = None\<rparr>, st_sequence = 2,
      st_dir = sample_dir,
      st_sstables = [table_of wire_codec sample_table_path sample_entries],
      next_sstable_id = 2, st_lock = Some (sample_dir @ [''LOCK''])\<rparr>"

definition sample_map :: "bytes \<Rightarrow> bytes option" where
  "sample_map = [[1] \<mapsto> [7], [5] \<mapsto> [9]]"

abbreviation calm_world :: world where
  "calm_world \<equiv> sample_world (\<lambda>_. NoFault)"

lemma calm_quiet [simp]: "quiet calm_world"
  by (simp add: quiet_def sample_world_def)

lemma sample_paths [simp]:
  "sample_wal_path \<noteq> sample_table_path" "sample_table_path \<noteq> sample_wal_path"
  "sample_wal_path \<noteq> sample_dir @ [''LOCK'']" "sample_table_path \<noteq> sample_dir @ [''LOCK'']"
  by (simp_all add: sample_wal_path_def sample_table_path_def)

lemma sample_sorted: "bt_sorted sample_entries"
  by (simp add: sample_entries_def)

lemma sample_bytes: "length (block_bytes wire_codec sample_entries) = 34"
  by (simp add: sample_entries_def length_record_bytes value_bytes_def wire_codec_def wire_enc_value_def)

lemma sample_fits: "table_fits wire_codec sample_entries"
  by (rule table_fits_size) (simp add: sample_bytes)

lemma sample_files [simp]:
  "file_of (sample_world f) sample_table_path = Some (sst_image wire_codec sample_entries)"
  "file_of (sample_world f) sample_wal_path = Some (frames wire_codec sample_log)"
  "w_dirs (sample_world f) = [[''db''], sample_dir]"
  "w_locks (sample_world f) = [sample_dir @ [''LOCK'']]"
  by (simp_all add: sample_world_def file_of_def)

lemma sample_file_cases:
  "file_of (sample_world f) q \<noteq> None \<Longrightarrow>
     q = sample_wal_path \<or> q = sample_dir @ [''LOCK''] \<or> q = sample_table_path"
  by (auto simp: sample_world_def file_of_def split: if_splits)

lemma sample_log_data: "log_data wire_codec sample_log = [([2], Tombstone), ([5], Value (Bytes [9]))]"
  using wire.batch_log_facts(1) [of 0 "[([2], None), ([5], Some (Bytes [9]))]"]
  by (simp add: sample_log_def log_data_def pending_ops_def)

lemma sample_log_bytes: "length (frames wire_codec sample_log) = 94"
  by (simp add: sample_log_def batch_log_def pending_entry_def create_put_entry_def create_delete_entry_def
      commit_entry_def length_frame wire_codec_def wire_enc_entry_def wire_enc_value_def)

lemma sample_dir_holds: "dir_holds wire_codec (sample_world f) sample_dir [1] [sample_entries]"
proof -
  have "fs_wf (sample_world f)"
    by (auto simp: fs_wf_def sample_world_def file_of_def sample_dir_def sample_table_path_def
        sample_wal_path_def split: if_splits)
  moreover have "i \<in> set [1] \<and> q = sample_dir @ [sst_file_name i]"
    if "q \<noteq> [] \<and> butlast q = sample_dir \<and> (file_of (sample_world f) q \<noteq> None \<or> q \<in> set (w_dirs (sample_world f)))
      \<and> sstable_id_from_path q = Some i" for q i
  proof -
    have "q \<notin> set (w_dirs (sample_world f))" using that by (auto simp: sample_dir_def)
    then have "q = sample_wal_path \<or> q = sample_dir @ [''LOCK''] \<or> q = sample_table_path"
      using that sample_file_cases [of f q] by blast
    then show ?thesis using that by (elim disjE) (simp_all add: sample_wal_path_def sample_table_path_def)
  qed
  ultimately show ?thesis
    unfolding dir_holds_def
    by (simp add: sample_sorted sample_fits flip: sample_table_path_def)
qed

lemma sample_dir_ready: "dir_ready (sample_world f) sample_dir"
proof -
  have "file_of (sample_world f) q = None" if "q \<in> {[''db''], sample_dir}" for q
    using that sample_file_cases [of f q]
    by (cases "file_of (sample_world f) q") (auto simp: sample_dir_def sample_wal_path_def sample_table_path_def)
  then show ?thesis by (simp add: dir_ready_def ancestors_def sample_dir_def upt_rec)
qed

lemma sample_engine: "engine wire_codec (sample_world f) sample_store [1] [sample_entries] sample_log"
proof -
  have "wal_holds \<lparr>wal_path = sample_wal_path, wal_file = None\<rparr> (sample_world f) (frames wire_codec sample_log)"
    using sample_dir_ready [of f]
    by (simp add: wal_holds_def writable_at_def contents_def path_parent_def)
      (simp add: sample_wal_path_def sample_dir_def)
  moreover have "represents wire_codec (sample_world f) (table_of wire_codec sample_table_path sample_entries) sample_entries"
    by (intro represents_table_of sample_sorted sample_fits) simp
  moreover have "(3 :: u64) = footprints [([2], Tombstone), ([5], Value (Bytes [9]))]"
    by (simp add: entry_footprint_def)
  ultimately show ?thesis
    using sample_dir_holds [of f] sample_dir_ready [of f] sample_log_bytes
      wire.batch_log_facts(2) [of 0 "[([2], None), ([5], Some (Bytes [9]))]"]
      wire.batch_log_facts(3) [of "[]" 0 "[([2], None), ([5], Some (Bytes [9]))]"]
    by (simp add: engine_def sample_store_def sample_log_data table_of_def sample_log_def [symmetric])
      (simp add: sample_wal_path_def sample_table_path_def sample_dir_def)
qed

lemma sample_view: "view (st_data sample_store) [sample_entries] = (\<lambda>k. map_option Bytes (sample_map k))"
  by (auto simp: view_def sample_store_def sample_entries_def sample_map_def fun_eq_iff)

lemma sample_models: "models wire_codec (sample_world f) sample_store (\<lambda>k. map_option Bytes (sample_map k))"
  using modelsI [OF sample_engine] by (simp add: sample_view)

lemma sample_table_models: "table_models wire_codec (sample_world f) sample_store sample_map"
  using sample_models by (simp add: table_models_def)

lemma sample_stored: "stored_bytes wire_codec (sample_world f) sample_store < 300"
proof -
  have "length (sst_image wire_codec sample_entries) \<le> 236"
    using length_sst_image_le [of sample_entries wire_codec] by (simp add: sample_bytes) (simp add: sample_entries_def)
  moreover have "length (block_bytes wire_codec (st_data sample_store)) = 22"
    by (simp add: sample_store_def length_record_bytes value_bytes_def wire_codec_def wire_enc_value_def)
  moreover have "st_sstables sample_store = [table_of wire_codec sample_table_path sample_entries]"
    by (simp add: sample_store_def)
  ultimately show ?thesis by (simp add: stored_bytes_def table_of_def contents_def)
qed

lemma sample_room: "c \<le> 1000 \<Longrightarrow> room wire_codec (sample_world f) sample_store c"
  using sample_stored [of f] sample_log_bytes
  by (simp add: room_def contents_def) (simp add: sample_store_def contents_def)

text \<open>Operations on the sample, and a world whose next write stops after five bytes.\<close>

abbreviation torn_world :: world where
  "torn_world \<equiv> sample_world (\<lambda>n. if n = 1 then Fault ''No space left on device'' 5 else NoFault)"

definition sample_ops :: "tx_op list" where
  "sample_ops = [TxDelete [5], TxSet [1] (Integer 6)]"

definition sample_tx :: transaction where
  "sample_tx = fold tx_step sample_ops (begin_transaction sample_store)"

lemma sample_store_dir: "st_dir sample_store = sample_dir"
  by (simp add: sample_store_def)

lemmas sample_cost_simps = batch_cost_def pending_ops_def batch_log_def pending_entry_def
  create_put_entry_def create_delete_entry_def commit_entry_def length_frame length_record_bytes
  value_bytes_def wire_codec_def wire_enc_entry_def wire_enc_value_def

lemma sample_put_cost: "batch_cost wire_codec sample_store [([4], Some (Integer 6))] \<le> 1000"
  by (simp add: sample_cost_simps)

lemma sample_delete_cost: "batch_cost wire_codec sample_store [([1], None)] \<le> 1000"
  by (simp add: sample_cost_simps)

lemma sample_put_budget:
  "memtable_bytes (memtable_insert [4] (Value (Integer 6)) sample_store) < memtable_max_bytes sample_store"
  by (simp add: memtable_insert_def sample_store_def entry_footprint_def DEFAULT_MEMTABLE_MAX_BYTES_def)

lemma sample_tx_store: "tx_store sample_tx = sample_store"
  by (simp add: sample_tx_def tx_steps)

lemma sample_tx_pending: "tx_pending sample_tx = [([1], Some (Integer 6)), ([5], None)]"
  by (simp add: sample_tx_def sample_ops_def tx_set_value_def tx_delete_value_def)

lemma sample_tx_sorted: "bt_sorted (tx_pending sample_tx)"
  by (simp add: sample_tx_pending)

lemma sample_tx_room:
  "room wire_codec (sample_world f) (tx_store sample_tx) (batch_cost wire_codec (tx_store sample_tx) (tx_pending sample_tx))"
  unfolding sample_tx_store sample_tx_pending by (rule sample_room) (simp add: sample_cost_simps)

lemma sample_tx_budget:
  "memtable_bytes (fold pending_apply (tx_pending sample_tx) (tx_store sample_tx)) < memtable_max_bytes (tx_store sample_tx)"
  unfolding sample_tx_store sample_tx_pending
  by (simp add: pending_apply_def memtable_insert_def sample_store_def entry_footprint_def DEFAULT_MEMTABLE_MAX_BYTES_def)

lemma sample_table_writable: "writable_at calm_world sample_table_path"
  using sample_dir_ready [of "\<lambda>_. NoFault"]
  by (simp add: writable_at_def path_parent_def sample_table_path_def sst_file_name_def sample_dir_def)

lemma sample_represents:
  "represents wire_codec (sample_world f) (table_of wire_codec sample_table_path sample_entries) sample_entries"
  by (intro represents_table_of sample_sorted sample_fits) simp

lemma sample_index_sorted:
  "sorted_wrt (<) (map ie_first_key (sst_index (table_of wire_codec sample_table_path sample_entries)))"
  using represents_index_sorted [OF sample_represents] .

lemma sample_first_keys:
  "map ie_first_key (sst_index (table_of wire_codec sample_table_path sample_entries)) = [[1]]"
  by (simp add: table_of_def sample_entries_def BLOCK_SIZE_def length_record_bytes value_bytes_def
      wire_codec_def wire_enc_value_def index_entry_of_def)

text \<open>A world with an empty root directory.\<close>

definition bare_world :: world where
  "bare_world = \<lparr>w_files = [], w_dirs = [[''db'']], w_locks = [], w_faults = (\<lambda>_. NoFault), w_clock = 0\<rparr>"

lemma bare_world_simps:
  "quiet bare_world" "fs_wf bare_world" "file_of bare_world q = None" "set (w_locks bare_world) = {}"
  "path_ok [''db'']" "validate_name ''u'' = Done ()"
  "in_tree [''db'', ''u''] p \<Longrightarrow> p \<notin> set (w_dirs bare_world)"
  by (auto simp: bare_world_def quiet_def fs_wf_def file_of_def path_ok_def normal_component_def
      validate_name_def in_tree_def)

end
