(* ===== verification/Ferrum_Faults.thy ===== *)
theory Ferrum_Faults
  imports Ferrum_Crash
begin

text \<open>
  Flush and compaction under an arbitrary schedule of faults. A flush leaves the directory in a
  state from which the map is recovered, or it leaves a torn table file behind; a compaction
  never loses a live key, but one that stops while it removes its inputs can bring deleted keys
  back, because it has dropped their tombstones and removes the newest table first.
\<close>

section \<open>Writing a table file\<close>

definition torn_table :: "prost \<Rightarrow> world \<Rightarrow> path \<Rightarrow> entries \<Rightarrow> bool" where
  "torn_table P w p es \<longleftrightarrow>
     (\<exists>n. n < length (sst_image P es) \<and> file_of w p = Some (take n (sst_image P es)))"

lemma create_dir_ready_any:
  assumes "dir_ready w d" and "fs_create_dir_all d w = (r, w')"
  shows "w' = later 1 w \<and> r \<noteq> Panic"
proof -
  have "filter (\<lambda>q. q \<notin> set (w_dirs w)) qs = []" if "set qs \<subseteq> set (ancestors d)" for qs
    using that assms(1) by (auto simp: dir_ready_def filter_empty_conv)
  then have "make_dirs qs (later 1 w) = later 1 w" if "set qs \<subseteq> set (ancestors d)" for qs
    using that by (simp add: make_dirs_def)
  moreover have "set (takeWhile Q (take n (ancestors d))) \<subseteq> set (ancestors d)" for Q n
    by (auto dest!: set_takeWhileD in_set_takeD)
  ultimately show ?thesis
    using assms(2) by (auto simp: fs_create_dir_all_def split: fault.splits if_splits)
qed

lemma fs_open_truncate_any:
  assumes "fs_open True True p w = (r, w')"
  shows "touches p w w' \<and> r \<noteq> Panic
    \<and> (r = Ok () \<and> file_of w' p = Some [] \<or> r \<noteq> Ok () \<and> file_of w' p = file_of w p)"
  using assms
  by (auto simp: fs_open_def syscall_def touches_later
      intro: touches_trans [OF touches_later] touches_put_file
      split: fault.splits option.splits if_splits simp del: later_simps)

lemma sst_flush_any:
  assumes "writable_at w p" and "length es * 10 < 2 ^ 63" and "sst_flush P p es w = (r, w')"
  shows "touches p w w' \<and> r \<noteq> Panic \<and> (\<forall>t. r = Ok t \<longrightarrow> t = table_of P p es)
    \<and> (file_of w' p = Some (sst_image P es)
       \<or> (\<forall>t. r \<noteq> Ok t) \<and> (file_of w' p = file_of w p \<or> torn_table P w' p es))"
proof -
  have par: "path_parent p = Some (butlast p)" "dir_ready w (butlast p)"
    using assms(1) by (simp_all add: writable_at_def)
  obtain r1 w1 where m: "fs_create_dir_all (butlast p) w = (r1, w1)" by fastforce
  note w1 = create_dir_ready_any [OF par(2) m]
  obtain r2 w2 where o: "fs_open True True p w1 = (r2, w2)" by fastforce
  note w2 = fs_open_truncate_any [OF o]
  have t2: "touches p w w2" using w1 w2 touches_trans [OF touches_later] by blast
  obtain r3 w3 where wr: "fs_write_all p (sst_image P es) w2 = (r3, w3)" by fastforce
  obtain r4 w4 where sy: "fs_sync_all p w3 = (r4, w4)" by fastforce
  note w4 = fs_sync_all_any [OF sy]
  note run = assms(3) [unfolded sst_flush_def par(1) flush_build_layout [OF assms(2)]]
  show ?thesis
  proof (cases "r1 = Ok () \<and> r2 = Ok ()")
    case False
    with run m o w1 w2 t2 show ?thesis
      by (cases r1; cases r2) (auto simp: bindA_def touches_later)
  next
    case True
    then have "file_of w2 p = Some []" using w2 by simp
    note w3 = fs_write_all_any [OF wr this]
    from w3(2) obtain n where n: "file_of w3 p = Some (take n (sst_image P es))"
      "r3 = Ok () \<longrightarrow> length (sst_image P es) \<le> n" by auto
    have t3: "touches p w w3" using t2 w3(1) touches_trans by blast
    have tab: "file_of w3 p = Some (sst_image P es) \<or> r3 \<noteq> Ok () \<and> torn_table P w3 p es"
      using n by (cases "length (sst_image P es) \<le> n") (auto simp: torn_table_def intro!: exI [of _ n])
    show ?thesis
    proof (cases "r3 = Ok ()")
      case True
      with run m o wr sy \<open>r1 = Ok () \<and> r2 = Ok ()\<close> w4 t3 tab show ?thesis
        by (cases r4) (auto simp: bindA_def intro: touches_trans [OF _ touches_later])
    next
      case False
      with run m o wr \<open>r1 = Ok () \<and> r2 = Ok ()\<close> t3 tab w3(3) show ?thesis
        by (cases r3) (auto simp: bindA_def)
    qed
  qed
qed

lemma wal_clear_any:
  assumes "wal_clear (l, w) = (r, (l', w'))" and "wal_holds l w bs"
  shows "touches (wal_path l) w w' \<and> r \<noteq> Panic \<and> wal_path l' = wal_path l
    \<and> (wal_holds l' w' [] \<or> r \<noteq> Ok () \<and> wal_holds l' w' bs)"
proof -
  obtain r1 w1 where o: "fs_open True True (wal_path l) w = (r1, w1)" by fastforce
  note w1 = fs_open_truncate_any [OF o]
  obtain r2 w2 where sy: "fs_sync_all (wal_path l) w1 = (r2, w2)" by fastforce
  note w2 = fs_sync_all_any [OF sy]
  have wr: "writable_at w1 (wal_path l)"
    using touches_writable [of "wal_path l" w w1] w1 assms(2) by (simp add: wal_holds_def)
  have t: "touches (wal_path l) w w1" "touches (wal_path l) w (later 1 w1)"
    using w1 touches_trans [OF _ touches_later] by blast+
  have l': "l' = l\<lparr>wal_file := None\<rparr>"
    using assms(1) o sy by (cases r1) (auto simp: wal_clear_def bindA_def onW_def)
  have run: "r1 = Ok () \<Longrightarrow> r = r2 \<and> w' = later 1 w1" "r1 \<noteq> Ok () \<Longrightarrow> r = r1 \<and> w' = w1"
    using assms(1) o sy w2 by (cases r1; auto simp: wal_clear_def bindA_def onW_def)+
  show ?thesis
  proof (cases "r1 = Ok ()")
    case True
    with run(1) w1 w2 wr t show ?thesis by (auto simp: l' wal_holds_def contents_def)
  next
    case False
    with run(2) w1 wr t assms(2) show ?thesis by (auto simp: l' wal_holds_def contents_def)
  qed
qed

section \<open>Flush\<close>

lemma on_disk_files:
  assumes "on_disk P w d ids ess log" and "w_files w' = w_files w" and "w_dirs w' = w_dirs w"
  shows "on_disk P w' d ids ess log"
proof -
  have "file_of w' = file_of w" using assms(2) by (simp add: file_of_def fun_eq_iff)
  with assms show ?thesis by (simp add: on_disk_def dir_holds_def log_holds_def contents_def fs_wf_def)
qed

lemma survives_files:
  "survives P w d m \<Longrightarrow> w_files w' = w_files w \<Longrightarrow> w_dirs w' = w_dirs w \<Longrightarrow> survives P w' d m"
  using on_disk_files unfolding survives_def by blast

lemma log_holds_frames:
  assumes "wal_holds l w (frames P log)" and "wal_path l = d @ [''wal.log'']" and "length (frames P log) < 2 ^ 62"
    and "committed (is_commit P) log = log" and "list_all (log_ok P) log"
  shows "log_holds P w d log"
  unfolding log_holds_def using assms
  by (intro conjI exI [of _ log] exI [of _ "[]"]) (auto simp: wal_holds_def)

lemma on_disk_log:
  assumes "on_disk P w d ids ess log" and "touches (d @ [''wal.log'']) w w'" and "log_holds P w' d log'"
  shows "on_disk P w' d ids ess log'"
proof -
  have D: "dir_holds P w d ids ess" "d @ [''wal.log''] \<notin> set (w_dirs w)" "d @ [''LOCK''] \<notin> set (w_dirs w)"
    "\<forall>q \<in> set (ancestors d). file_of w q = None" using assms(1) by (simp_all add: on_disk_def)
  have "dir_holds P w' d ids ess" using dir_holds_touches [OF D(1) assms(2) D(2)] by simp
  moreover have "file_of w' q = file_of w q" if "q \<in> set (ancestors d)" for q
  proof -
    have "q \<noteq> d @ [''wal.log'']" using that child_not_ancestor [of "d @ [''wal.log'']" d] by auto
    with assms(2) show ?thesis by (simp add: touches_def)
  qed
  ultimately show ?thesis
    using D assms(2,3) by (simp add: on_disk_def touches_def)
qed

lemma on_disk_same:
  assumes "on_disk P w d ids ess log" and "touches p w w'" and "file_of w' p = file_of w p"
  shows "on_disk P w' d ids ess log"
proof -
  have f: "file_of w' = file_of w" using assms(2,3) by (fastforce simp: touches_def fun_eq_iff)
  have w: "w_dirs w' = w_dirs w" "distinct (map fst (w_files w)) \<Longrightarrow> distinct (map fst (w_files w'))"
    using assms(2) by (simp_all add: touches_def)
  show ?thesis
    using assms(1) w by (auto simp: on_disk_def dir_holds_def log_holds_def contents_def fs_wf_def f)
qed

lemma on_disk_added:
  assumes "engine P w s ids ess log" and "bt_sorted es" and "table_fits P es"
    and "unat (next_sstable_id s) + 1 < 2 ^ 64"
  defines "p \<equiv> st_dir s @ [sst_file_name (next_sstable_id s)]"
  assumes "touches p w w'" and "file_of w' p = Some (sst_image P es)"
  shows "on_disk P w' (st_dir s) (next_sstable_id s # ids) (es # ess) log"
proof -
  note A = table_added [OF assms(1-4) assms(6,7) [unfolded p_def]]
  have E: "wal_path (st_wal s) = st_dir s @ [''wal.log'']" "length (frames P log) < 2 ^ 62"
    "committed (is_commit P) log = log" "list_all (log_ok P) log" using assms(1) by (simp_all add: engine_def)
  show ?thesis
    unfolding on_disk_def
    using A(1) log_holds_frames [OF A(4) E] engine_on_disk [OF assms(1)] assms(6) dir_ready_no_file [OF A(3)]
    by (auto simp: on_disk_def touches_def)
qed

lemma view_shadowed: "view data (data # ess) = view data ess"
  by (auto simp: view_def fun_eq_iff map_add_def split: option.splits)

lemma log_holds_empty: "wal_holds l w [] \<Longrightarrow> wal_path l = d @ [''wal.log''] \<Longrightarrow> log_holds P w d []"
  by (rule log_holds_frames [of l w P "[]"]) simp_all

text \<open>
  Until the log is cleared, the new table holds what the log holds: replaying the log over it
  gives the same map.
\<close>

lemma flush_table_any:
  assumes "engine P w s ids ess log" and "table_fits P (st_data s)" and "unat (next_sstable_id s) + 1 < 2 ^ 64"
    and "flush_table P (s, w) = (r, (s', w'))"
  shows "r = Ok () \<and> engine P w' s' (next_sstable_id s # ids) (st_data s # ess) [] \<and> st_data s' = []
      \<and> next_sstable_id s' = next_sstable_id s + 1 \<and> length (st_sstables s') = Suc (length (st_sstables s)) \<and> st_dir s' = st_dir s
    \<or> (\<exists>e. r = Err e) \<and> (survives P w' (st_dir s) (view (st_data s) ess)
      \<or> torn_table P w' (st_dir s @ [sst_file_name (next_sstable_id s)]) (st_data s))"
proof -
  let ?d = "st_dir s" let ?p = "?d @ [sst_file_name (next_sstable_id s)]"
  have sorted: "bt_sorted (st_data s)" and data: "st_data s = log_data P log"
    using engine_mem_inv [OF assms(1)] assms(1) by (simp_all add: mem_inv_def engine_def)
  have v: "view (log_data P log) (st_data s # ess) = view (st_data s) ess"
    "view (log_data P []) (st_data s # ess) = view (st_data s) ess" "view (log_data P log) ess = view (st_data s) ess"
    using data view_shadowed [of "st_data s" ess] by (simp_all add: view_flush) (simp add: log_data_def view_flush)
  obtain r1 w1 where f: "sst_flush P ?p (st_data s) w = (r1, w1)" by fastforce
  note F = sst_flush_any [OF next_table_free(2) [OF assms(1)] table_fits_bounds(4) [OF assms(2)] f]
  show ?thesis
  proof (cases r1)
    case (Ok t)
    then have t: "touches ?p w w1" "file_of w1 ?p = Some (sst_image P (st_data s))" "t = table_of P ?p (st_data s)"
      using F by auto
    note A = table_added [OF assms(1) sorted assms(2,3) t(1,2)]
    obtain r2 l w2 where c: "wal_clear (st_wal s, w1) = (r2, (l, w2))" using prod_cases3 by blast
    note C = wal_clear_any [OF c A(4)]
    have wp: "wal_path (st_wal s) = ?d @ [''wal.log'']" using assms(1) by (simp add: engine_def)
    have run: "r = r2" "w' = w2" "s' = s\<lparr>next_sstable_id := next_sstable_id s + 1,
        st_sstables := t # st_sstables s, st_data := [], memtable_bytes := 0, st_wal := l\<rparr>"
      using assms(4) f Ok c by (simp_all add: flush_table_def bindA_def onW_def updS_def on_wal_def)
    note on1 = on_disk_added [OF assms(1) sorted assms(2,3) t(1,2)]
    have "log_holds P w2 ?d log \<or> log_holds P w2 ?d []"
      using C log_holds_frames [of l w2 P log ?d] log_holds_empty [of l w2 ?d P] assms(1) wp by (auto simp: engine_def)
    moreover have "touches (?d @ [''wal.log'']) w1 w2" using C wp by simp
    ultimately have surv: "survives P w2 ?d (view (st_data s) ess)"
      using survivesI [OF on_disk_log [OF on1]] v by blast
    have "r2 = Ok () \<Longrightarrow> engine P w' s' (next_sstable_id s # ids) (st_data s # ess) []"
      using engine_flushed [OF assms(1-3) t(1,2), of w2 l] C by (auto simp: run t(3))
    with surv C show ?thesis by (cases r2) (auto simp: run)
  next
    case (Err e)
    then have run: "r = Err e" "w' = w1" using assms(4) f by (simp_all add: flush_table_def bindA_def onW_def)
    from F Err on_disk_same [OF engine_on_disk [OF assms(1)], of ?p w1] on_disk_added [OF assms(1) sorted assms(2,3)]
    show ?thesis
      using v by (auto simp: run intro: survivesI)
  qed (use F in simp)
qed

section \<open>Reads\<close>

text \<open>
  A read either fails or returns what it would return without faults, and moves nothing but the
  clock.
\<close>

definition calm :: "world \<Rightarrow> world" where
  "calm w = w\<lparr>w_faults := (\<lambda>_. NoFault)\<rparr>"

lemma calm_simps [simp]:
  "quiet (calm w)" "file_of (calm w) = file_of w" "fault_now (calm w) = NoFault"
  "calm (later n w) = later n (calm w)"
  by (simp_all add: calm_def quiet_def file_of_def fun_eq_iff fault_now_def later_def)

definition reads :: "(world, 'a) act \<Rightarrow> bool" where
  "reads m \<longleftrightarrow> (\<forall>w. (\<exists>n. snd (m w) = later n w) \<and> (\<forall>x w'. m w = (Ok x, w') \<longrightarrow> m (calm w) = (Ok x, calm w')))"

lemma readsI:
  "(\<And>w. \<exists>n. snd (m w) = later n w) \<Longrightarrow> (\<And>w x w'. m w = (Ok x, w') \<Longrightarrow> m (calm w) = (Ok x, calm w')) \<Longrightarrow> reads m"
  by (simp add: reads_def)

lemma readsD:
  assumes "reads m"
  shows "\<exists>n. snd (m w) = later n w" and "m w = (Ok x, w') \<Longrightarrow> m (calm w) = (Ok x, calm w')"
  using assms by (auto simp: reads_def)

lemma reads_pure: "reads (returnA x)" "reads (failA e)" "reads panicA" "reads (liftO r)" "reads (Pair r)"
  by (auto simp: reads_def returnA_def failA_def panicA_def liftO_def intro: exI [of _ 0])

lemma reads_bindA:
  assumes "reads m" and "\<And>x. reads (f x)"
  shows "reads (bindA m f)"
proof (rule readsI)
  fix w
  obtain r w1 where m: "m w = (r, w1)" by fastforce
  obtain n where n: "w1 = later n w" using readsD(1) [OF assms(1), of w] m by auto
  show "\<exists>n. snd (bindA m f w) = later n w"
    using n readsD(1) [OF assms(2)] by (cases r) (auto simp: bindA_def m, metis later_simps(2))
next
  fix w y w'
  assume run: "bindA m f w = (Ok y, w')"
  then obtain x w1 where "m w = (Ok x, w1)" "f x w1 = (Ok y, w')"
    by (auto simp: bindA_def split: prod.splits outcome.splits)
  with readsD(2) [OF assms(1)] readsD(2) [OF assms(2)] show "bindA m f (calm w) = (Ok y, calm w')"
    by (simp add: bindA_def)
qed

lemma reads_if: "reads m \<Longrightarrow> reads n \<Longrightarrow> reads (if b then m else n)"
  by simp

lemma reads_calls:
  "reads (fs_open False False p)" "reads (fs_seek p off)" "reads (fs_read_exact p off len)"
  by (auto intro!: readsI simp: fs_open_def fs_seek_def fs_read_exact_def syscall_def
      split: fault.splits option.splits if_splits)

lemma reads_block: "reads (read_block_from_disk p ie)"
  unfolding read_block_from_disk_def Let_def by (intro reads_bindA reads_calls reads_if reads_pure)

lemma reads_blocks: "reads (read_blocks P p ies)"
  by (induction ies) (auto intro!: reads_bindA reads_block reads_pure)

lemma reads_all_entries: "reads (read_all_entries P t)"
  unfolding read_all_entries_def by (intro reads_if reads_bindA reads_calls reads_blocks reads_pure)

lemma reads_more: "reads (fs_metadata_len p)" "reads (fs_dir_entry p)"
  by (auto intro!: readsI simp: fs_metadata_len_def fs_dir_entry_def syscall_def split: fault.splits option.splits)

lemma reads_sst_open: "reads (sst_open p)"
  unfolding sst_open_def Let_def case_prod_beta
  by (intro reads_bindA reads_calls reads_more reads_if reads_pure)

lemma reads_open_found: "reads (open_found qs)"
proof (induction qs)
  case (Cons q qs)
  then show ?case
    by (cases "sstable_id_from_path q") (auto intro!: reads_bindA reads_more reads_sst_open reads_pure simp: option.case_eq_if)
qed (simp add: reads_pure)

lemma reads_merge: "reads (merge_layers (read_all_entries P) skip keep ts merged)"
  by (induction ts arbitrary: merged) (auto intro!: reads_bindA reads_all_entries reads_pure)

lemma represents_calm [simp]: "represents P (calm w) = represents P w"
  by (simp add: represents_def fun_eq_iff)

section \<open>Compaction\<close>

lemma fs_remove_file_any: "snd (fs_remove_file p w) \<in> {later 1 w, later 1 (del_file p w)}"
  by (auto simp: fs_remove_file_def syscall_def split: fault.splits option.splits)

lemma remove_files_any:
  assumes "dir_holds P w d (ids1 @ ids2) (ess1 @ ess2)" and "length ids1 = length ess1"
  shows "\<exists>ids3 ess3. dir_holds P (remove_files (map (\<lambda>i. d @ [sst_file_name i]) ids2) w) d (ids1 @ ids3) (ess1 @ ess3)
    \<and> w_dirs (remove_files (map (\<lambda>i. d @ [sst_file_name i]) ids2) w) = w_dirs w
    \<and> (\<forall>q. q \<notin> (\<lambda>i. d @ [sst_file_name i]) ` set ids2 \<longrightarrow>
         file_of (remove_files (map (\<lambda>i. d @ [sst_file_name i]) ids2) w) q = file_of w q)"
  using assms
proof (induction ids2 arbitrary: w ids1 ess1 ess2)
  case Nil
  then show ?case by (intro exI [of _ "[]"] exI [of _ ess2]) simp
next
  case (Cons i ids2)
  from dir_holds_tables(3) [OF Cons.prems(1)] Cons.prems(2) obtain es ess3 where ess: "ess2 = es # ess3"
    by (cases ess2) auto
  let ?p = "d @ [sst_file_name i]"
  consider "snd (fs_remove_file ?p w) = later 1 w" | "snd (fs_remove_file ?p w) = later 1 (del_file ?p w)"
    using fs_remove_file_any by auto
  then show ?case
  proof cases
    case 1
    have "dir_holds P (later 1 w) d ((ids1 @ [i]) @ ids2) ((ess1 @ [es]) @ ess3)"
      using Cons.prems(1) by (simp add: ess dir_holds_later)
    from Cons.IH [OF this] Cons.prems(2) obtain ids4 ess4 where
      "dir_holds P (remove_files (map (\<lambda>i. d @ [sst_file_name i]) ids2) (later 1 w)) d (ids1 @ i # ids4) (ess1 @ es # ess4)"
      "w_dirs (remove_files (map (\<lambda>i. d @ [sst_file_name i]) ids2) (later 1 w)) = w_dirs w"
      "\<forall>q. q \<notin> (\<lambda>i. d @ [sst_file_name i]) ` set ids2 \<longrightarrow>
         file_of (remove_files (map (\<lambda>i. d @ [sst_file_name i]) ids2) (later 1 w)) q = file_of w q" by auto
    then show ?thesis by (intro exI [of _ "i # ids4"] exI [of _ "es # ess4"]) (simp add: 1)
  next
    case 2
    have "dir_holds P (later 1 (del_file ?p w)) d (ids1 @ ids2) (ess1 @ ess3)"
      using dir_holds_remove [of P w d ids1 i ids2 ess1 es ess3] Cons.prems ess by (simp only: dir_holds_later)
    from Cons.IH [OF this Cons.prems(2)] show ?thesis by (auto simp: 2)
  qed
qed

text \<open>A merged table in front of whatever is left of its inputs still shows every live key.\<close>

lemma view_merged:
  assumes "bt_sorted m" and "map_of m = map_of (concat ess)" and "es = filter (\<lambda>(k, e). is_value e) m"
  shows "view data ess \<subseteq>\<^sub>m view data (es # rest)" and "es = [] \<Longrightarrow> view data ess \<subseteq>\<^sub>m view data rest"
proof -
  have live: "map_of es k = (case map_of (concat ess) k of Some (Value v) \<Rightarrow> Some (Value v) | _ \<Rightarrow> None)" for k
    using map_of_live [OF assms(1), of k] assms(2,3) by simp
  show le: "view data ess \<subseteq>\<^sub>m view data (es # rest)"
  proof (unfold map_le_def, intro ballI)
    fix k assume "k \<in> dom (view data ess)"
    then show "view data ess k = view data (es # rest) k"
      using live [of k]
      by (cases "map_of data k") (auto simp: view_def map_add_def value_of_entry_cases split: option.splits entry.splits)
  qed
  show "view data ess \<subseteq>\<^sub>m view data rest" if "es = []"
    using le that by (simp add: view_def map_le_def dom_def)
qed

context prost_codec
begin

lemma merge_any:
  assumes "list_all2 (represents P w) ts ess"
    and "merge_layers (read_all_entries P) (\<lambda>_. False) (\<lambda>_. True) (rev ts) [] w = (r, w')"
  shows "\<exists>n. w' = later n w"
    and "r = Ok m \<Longrightarrow> bt_sorted m \<and> map_of m = map_of (concat ess) \<and> set m \<subseteq> set (concat ess)"
proof -
  note R = readsD [OF reads_merge [of P "\<lambda>_. False" "\<lambda>_. True" "rev ts" "[]"]]
  show "\<exists>n. w' = later n w" using R(1) [of w] assms(2) by simp
  show "bt_sorted m \<and> map_of m = map_of (concat ess) \<and> set m \<subseteq> set (concat ess)" if "r = Ok m"
    using R(2) [of w m w'] merge_tables [of "calm w" ts ess] assms that by auto
qed

end

lemma on_disk_removed:
  assumes "on_disk P w d (ids1 @ ids2) (ess1 @ ess2) log" and "length ids1 = length ess1"
  shows "\<exists>ids3 ess3. on_disk P (remove_files (map (\<lambda>i. d @ [sst_file_name i]) ids2) w) d (ids1 @ ids3) (ess1 @ ess3) log"
proof -
  let ?w = "remove_files (map (\<lambda>i. d @ [sst_file_name i]) ids2) w"
  have D: "dir_holds P w d (ids1 @ ids2) (ess1 @ ess2)" using assms(1) by (simp add: on_disk_def)
  from remove_files_any [OF D assms(2)] obtain ids3 ess3 where
    R: "dir_holds P ?w d (ids1 @ ids3) (ess1 @ ess3)" "w_dirs ?w = w_dirs w"
      "\<And>q. q \<notin> (\<lambda>i. d @ [sst_file_name i]) ` set ids2 \<Longrightarrow> file_of ?w q = file_of w q" by blast
  have same: "file_of ?w q = file_of w q" if "q \<in> insert (d @ [''wal.log'']) (set (ancestors d))" for q
    using that child_not_ancestor [of "d @ [_]" d] by (intro R(3)) auto
  then have "on_disk P ?w d (ids1 @ ids3) (ess1 @ ess3) log"
    using assms(1) R(1,2) by (auto simp: on_disk_def log_holds_def contents_def)
  then show ?thesis by blast
qed

text \<open>Writing the merged table and removing its inputs.\<close>

lemma write_merged_any:
  assumes "engine P w s ids ess log" and "bt_sorted es" and "table_fits P es" and "unat (next_sstable_id s) + 1 < 2 ^ 64"
    and "bindA (write_merged P es) (\<lambda>_ (s', w). (Ok (), (s', remove_files (map sst_path (st_sstables s)) w))) (s, w)
      = (r, (s', w'))"
  shows "r = Ok () \<and> (\<exists>ids3 ess3. on_disk P w' (st_dir s) ids3 (if es = [] then ess3 else es # ess3) log)
    \<or> (\<exists>e. r = Err e) \<and> (on_disk P w' (st_dir s) ids ess log
       \<or> on_disk P w' (st_dir s) (next_sstable_id s # ids) (es # ess) log
       \<or> torn_table P w' (st_dir s @ [sst_file_name (next_sstable_id s)]) es)"
proof -
  let ?d = "st_dir s" let ?p = "?d @ [sst_file_name (next_sstable_id s)]"
  have old: "map sst_path (st_sstables s) = map (\<lambda>i. ?d @ [sst_file_name i]) ids"
    using assms(1) by (simp add: engine_def)
  note od = engine_on_disk [OF assms(1)]
  show ?thesis
  proof (cases "es = []")
    case True
    then have "r = Ok ()" "w' = remove_files (map (\<lambda>i. ?d @ [sst_file_name i]) ids) w"
      using assms(5) old by (auto simp: write_merged_def bindA_def updS_def)
    with True on_disk_removed [of P w ?d "[]" ids "[]" ess log] od show ?thesis by auto
  next
    case False
    obtain r1 w1 where f: "sst_flush P ?p es w = (r1, w1)" by fastforce
    note F = sst_flush_any [OF next_table_free(2) [OF assms(1)] table_fits_bounds(4) [OF assms(3)] f]
    show ?thesis
    proof (cases r1)
      case (Ok t)
      then have "r = Ok ()" "w' = remove_files (map (\<lambda>i. ?d @ [sst_file_name i]) ids) w1"
        using assms(5) old f False by (simp_all add: write_merged_def bindA_def updS_def onW_def)
      moreover have "on_disk P w1 ?d ([next_sstable_id s] @ ids) ([es] @ ess) log"
        using on_disk_added [OF assms(1-4)] F Ok by simp
      from on_disk_removed [OF this] obtain ids3 ess3 where
        "on_disk P (remove_files (map (\<lambda>i. ?d @ [sst_file_name i]) ids) w1) ?d ([next_sstable_id s] @ ids3) ([es] @ ess3) log"
        by auto
      ultimately show ?thesis using False by auto
    next
      case (Err e)
      then have "r = Err e" "w' = w1" using assms(5) f False by (simp_all add: write_merged_def bindA_def onW_def)
      with F Err on_disk_added [OF assms(1-4), of w1] on_disk_same [OF od, of ?p w1] show ?thesis by auto
    qed (use F in simp)
  qed
qed

lemma view_merged_all:
  assumes "bt_sorted m" and "map_of m = map_of (concat ess)" and "es = filter (\<lambda>(k, e). is_value e) m"
  shows "view data (es # ess) = view data ess"
proof
  fix k
  show "view data (es # ess) k = view data ess k"
    using map_of_live [OF assms(1), of k] assms(2,3)
    by (cases "map_of data k") (auto simp: view_def map_add_def value_of_entry_cases split: option.splits entry.splits)
qed

context prost_codec
begin

lemma compact_any:
  assumes "engine P w s ids ess log" and "4 * length (block_bytes P (concat ess)) + 100 < 2 ^ 32"
    and "unat (next_sstable_id s) + 1 < 2 ^ 64" and "compact P (s, w) = (r, (s', w'))"
  shows "(\<exists>m'. survives P w' (st_dir s) m' \<and> view (st_data s) ess \<subseteq>\<^sub>m m' \<and> (r \<noteq> Ok () \<longrightarrow> m' = view (st_data s) ess))
    \<or> r \<noteq> Ok () \<and> (\<exists>es. torn_table P w' (st_dir s @ [sst_file_name (next_sstable_id s)]) es)"
proof (cases "length (st_sstables s) < 2")
  case True
  then show ?thesis using assms(4) engine_survives [OF assms(1)] by (auto simp: compact_def)
next
  case False
  let ?d = "st_dir s"
  have E: "list_all2 (represents P w) (st_sstables s) ess" "log_data P log = st_data s"
    using assms(1) by (simp_all add: engine_def)
  obtain r1 w1 where mg: "merge_layers (read_all_entries P) (\<lambda>_. False) (\<lambda>_. True) (rev (st_sstables s)) [] w = (r1, w1)" by fastforce
  note M = merge_any [OF E(1) mg]
  obtain n where n: "w1 = later n w" using M(1) by blast
  have e1: "engine P w1 s ids ess log" using assms(1) by (simp add: n)
  show ?thesis
  proof (cases r1)
    case (Ok m)
    define es where "es = filter (\<lambda>(k, e). is_value e) m"
    note m = M(2) [OF Ok]
    have "set es \<subseteq> set (concat ess)" using m by (auto simp: es_def)
    then have "length (block_bytes P es) \<le> length (block_bytes P (concat ess))"
      using m by (intro block_bytes_subset distinct_of_keys) (simp_all add: es_def bt_sorted_filter)
    then have fits: "table_fits P es" using assms(2) by (intro table_fits_size) simp
    have run: "bindA (write_merged P es) (\<lambda>_ (s', w). (Ok (), (s', remove_files (map sst_path (st_sstables s)) w))) (s, w1)
        = (r, (s', w'))"
      using assms(4) False mg Ok by (simp add: compact_def bindA_def onW_def Let_def es_def)
    have sorted: "bt_sorted es" using m by (simp add: es_def bt_sorted_filter)
    note V = view_merged [of m ess es "st_data s"] view_merged_all [of m ess es "st_data s"]
    from write_merged_any [OF e1 sorted fits assms(3) run] consider
        (removed) ids3 ess3 where "r = Ok ()" "on_disk P w' ?d ids3 (if es = [] then ess3 else es # ess3) log"
      | (kept) e where "r = Err e" "on_disk P w' ?d ids ess log"
      | (both) e where "r = Err e" "on_disk P w' ?d (next_sstable_id s # ids) (es # ess) log"
      | (torn) e where "r = Err e" "torn_table P w' (?d @ [sst_file_name (next_sstable_id s)]) es" by blast
    then show ?thesis
    proof cases
      case removed
      then show ?thesis
        using survivesI [OF removed(2) refl] V(1,2) m E(2)
        by (intro disjI1 exI [of _ "view (st_data s) (if es = [] then ess3 else es # ess3)"]) (auto simp: es_def)
    next
      case kept
      with survivesI [OF kept(2) refl] E(2) show ?thesis by auto
    next
      case both
      with survivesI [OF both(2) refl] V(3) m E(2) show ?thesis by (auto simp: es_def)
    next
      case torn
      then show ?thesis by auto
    qed
  next
    case (Err e)
    then show ?thesis
      using assms(4) False mg engine_survives [OF e1] by (auto simp: compact_def bindA_def onW_def)
  next
    case Panic
    then show ?thesis
      using assms(4) False mg engine_survives [OF e1] by (auto simp: compact_def bindA_def onW_def)
  qed
qed

lemma flush_any:
  assumes "engine P w s ids ess log" and "room P w s 0" and "flush P (s, w) = (r, (s', w'))"
  shows "(\<exists>m'. survives P w' (st_dir s) m' \<and> view (st_data s) ess \<subseteq>\<^sub>m m'
      \<and> (r \<noteq> Ok () \<or> length (st_sstables s) < MAX_SSTABLES \<longrightarrow> m' = view (st_data s) ess))
    \<or> r \<noteq> Ok () \<and> (\<exists>i es. torn_table P w' (st_dir s @ [sst_file_name i]) es)"
proof (cases "st_data s = []")
  case True
  then show ?thesis using assms(3) engine_survives [OF assms(1)] by (auto simp: flush_def)
next
  case False
  have le: "4 * length (block_bytes P (st_data s @ concat ess)) + 100 < 2 ^ 32"
    and id: "unat (next_sstable_id s) + 2 < 2 ^ 64"
    using assms(2) stored_bytes_engine [OF assms(1)] by (simp_all add: room_def)
  then have fits: "table_fits P (st_data s)" by (intro table_fits_size) simp
  obtain r1 s1 w1 where f: "flush_table P (s, w) = (r1, (s1, w1))" using prod_cases3 by blast
  note F = flush_table_any [OF assms(1) fits _ f]
  show ?thesis
  proof (cases r1)
    case (Ok u)
    then have e1: "engine P w1 s1 (next_sstable_id s # ids) (st_data s # ess) []" "st_data s1 = []" "st_dir s1 = st_dir s"
      "next_sstable_id s1 = next_sstable_id s + 1" "length (st_sstables s1) = Suc (length (st_sstables s))"
      using F id by auto
    have mc: "maybe_compact P (s1, w1) = (r, (s', w'))"
      using assms(3) f Ok by (simp add: flush_split [OF False] bindA_def)
    have view: "view (st_data s1) (st_data s # ess) = view (st_data s) ess" by (simp add: e1(2) view_flush)
    show ?thesis
    proof (cases "MAX_SSTABLES < length (st_sstables s1)")
      case True
      have "unat (next_sstable_id s + 1) = unat (next_sstable_id s) + 1" using id by (simp add: unat_word_ariths)
      with id have id1: "unat (next_sstable_id s1) + 1 < 2 ^ 64" by (simp add: e1(4))
      have "4 * length (block_bytes P (concat (st_data s # ess))) + 100 < 2 ^ 32" using le by simp
      from compact_any [OF e1(1) this id1, of r s' w'] mc True e1(3,5) show ?thesis
        by (auto simp: maybe_compact_def view)
    next
      case False
      then have "r = Ok ()" "w' = w1" using mc by (auto simp: maybe_compact_def)
      with engine_survives [OF e1(1)] e1(3) view show ?thesis by auto
    qed
  next
    case (Err e)
    then have "r = Err e" "w' = w1" using assms(3) f by (simp_all add: flush_split [OF False] bindA_def)
    with F Err id show ?thesis by auto
  qed (use F id in simp)
qed

text \<open>A write under any schedule of faults, whether or not it triggers a flush and a compaction.\<close>

lemma write_batch_any:
  assumes "models P w s m" and "bt_sorted ps" and "room P w s (batch_cost P s ps)"
    and "write_batch P ps (s, w) = (r, (s', w'))"
  shows "recovers P w' (st_dir s) m \<and> r \<noteq> Ok ()
    \<or> (\<exists>m'. recovers P w' (st_dir s) m' \<and> apply_batch ps m \<subseteq>\<^sub>m m'
         \<and> (length (st_sstables s) < MAX_SSTABLES \<longrightarrow> m' = apply_batch ps m))
    \<or> r \<noteq> Ok () \<and> (\<exists>i es. torn_table P w' (st_dir s @ [sst_file_name i]) es)"
proof -
  obtain ids ess log where e: "engine P w s ids ess log" "m = view (st_data s) ess"
    using assms(1) by (rule modelsE)
  have wh: "wal_holds (st_wal s) w (frames P log)" using e(1) by (simp add: engine_def)
  obtain r1 s1 w1 where b: "log_batch P ps (s, w) = (r1, (s1, w1))" using prod_cases3 by blast
  note B = log_batch_any [OF b wh]
  show ?thesis
  proof (cases "r1 = Ok ()")
    case True
    then have "wal_holds (st_wal s1) w1 (frames P log @ frames P (batch_log (st_sequence s) ps))" using B by auto
    note A = batch_applied [OF e(1) assms(2,3) _ _ _ this]
    define s2 where "s2 = insert_all (pending_ops ps) s1"
    have A': "engine P w1 s2 ids ess (log @ batch_log (st_sequence s) ps)" "room P w1 s2 0"
      "view (st_data s2) ess = apply_batch ps m" "st_dir s2 = st_dir s" "st_sstables s2 = st_sstables s"
      using A B unfolding s2_def e(2) by blast+
    have run: "maybe_flush P (s2, w1) = (r, (s', w'))"
      using assms(4) b True by (simp add: write_batch_def bindA_def updS_def fold_pending_apply s2_def)
    show ?thesis
    proof (cases "memtable_max_bytes s2 \<le> memtable_bytes s2")
      case True
      then have "flush P (s2, w1) = (r, (s', w'))" using run by (simp add: maybe_flush_def)
      from flush_any [OF A'(1,2) this, unfolded A'(3-5)] survives_recovers show ?thesis by blast
    next
      case False
      then have "w' = w1" using run by (simp add: maybe_flush_def)
      with survives_recovers [OF engine_survives [OF A'(1)], unfolded A'(3,4)] show ?thesis by auto
    qed
  next
    case False
    then have "r \<noteq> Ok ()" "w' = w1" using assms(4) b by (cases r1; simp add: write_batch_def bindA_def)+
    with batch_crash [OF assms(1-3) b] show ?thesis by (auto dest: survives_recovers)
  qed
qed

lemma tx_commit_any:
  assumes "models P w (tx_store t) m" and "bt_sorted (tx_pending t)"
    and "room P w (tx_store t) (batch_cost P (tx_store t) (tx_pending t))" and "tx_commit P t w = (r, (s', w'))"
  shows "recovers P w' (st_dir (tx_store t)) m \<and> r \<noteq> Ok ()
    \<or> (\<exists>m'. recovers P w' (st_dir (tx_store t)) m' \<and> apply_batch (tx_pending t) m \<subseteq>\<^sub>m m'
         \<and> (length (st_sstables (tx_store t)) < MAX_SSTABLES \<longrightarrow> m' = apply_batch (tx_pending t) m))
    \<or> r \<noteq> Ok () \<and> (\<exists>i es. torn_table P w' (st_dir (tx_store t) @ [sst_file_name i]) es)"
proof (cases "tx_pending t = []")
  case True
  then have "w' = w" "apply_batch (tx_pending t) m = m" using assms(4) by (auto simp: tx_commit_def apply_batch_def)
  with models_recovers [OF assms(1)] show ?thesis by auto
next
  case False
  with assms(4) have "write_batch P (tx_pending t) (tx_store t, w) = (r, (s', w'))" by (simp add: tx_commit_batch)
  from write_batch_any [OF assms(1-3) this] show ?thesis .
qed

end

end
