(* ===== verification/Ferrum_Machine.thy ===== *)
theory Ferrum_Machine
  imports Ferrum_Crash
begin

text \<open>
  The table engine as a state machine. A step is one call of an operation of
  \<open>ferrumdb-core/src/store.rs\<close>, with what it returned; a run is a sequence of calls. The abstract
  machine has a map from keys to values for its state. Two facts about runs: as long as nothing
  fails and the store stays within its bounds, every run of the engine is a run of the abstract
  machine, with the same answers; and whatever fails, a run touches nothing outside the table's
  directory, so that another table of the same database keeps its contents.
\<close>

datatype store_op =
    DoSet bytes db_value
  | DoDelete bytes
  | DoGet bytes
  | DoScan bound bound
  | DoFlush
  | DoCompact
  | DoBudget u64
  | DoCommit "tx_op list"
  | DoReopen

datatype answer = Quiet | Got "db_value option" | Pairs "(bytes \<times> db_value) list"

definition answer_of :: "('a \<Rightarrow> answer) \<Rightarrow> 'a outcome \<Rightarrow> answer outcome" where
  "answer_of f r = bindO r (\<lambda>x. Ok (f x))"

lemma answer_of_simps [simp]:
  "answer_of f (Ok x) = Ok (f x)" "answer_of f (Err e) = Err e" "answer_of f Panic = Panic"
  by (simp_all add: answer_of_def)

section \<open>Steps of the engine\<close>

inductive store_step :: "prost \<Rightarrow> store \<times> world \<Rightarrow> store_op \<Rightarrow> answer outcome \<Rightarrow> store \<times> world \<Rightarrow> bool"
  for P :: prost where
  step_set: "set_value P k v sw = (r, sw') \<Longrightarrow> store_step P sw (DoSet k v) (answer_of (\<lambda>_. Quiet) r) sw'"
| step_delete: "delete_value P k sw = (r, sw') \<Longrightarrow> store_step P sw (DoDelete k) (answer_of (\<lambda>_. Quiet) r) sw'"
| step_get: "get_value P k sw = (r, sw') \<Longrightarrow> store_step P sw (DoGet k) (answer_of Got r) sw'"
| step_scan: "scan_range P lo hi sw = (r, sw') \<Longrightarrow> store_step P sw (DoScan lo hi) (answer_of Pairs r) sw'"
| step_flush: "flush P sw = (r, sw') \<Longrightarrow> store_step P sw DoFlush (answer_of (\<lambda>_. Quiet) r) sw'"
| step_compact: "compact P sw = (r, sw') \<Longrightarrow> store_step P sw DoCompact (answer_of (\<lambda>_. Quiet) r) sw'"
| step_budget: "store_step P (s, w) (DoBudget n) (Ok Quiet) (set_memtable_budget n s, w)"
| step_commit: "tx_commit P (fold tx_step ops (begin_transaction s)) w = (r, sw') \<Longrightarrow>
     store_step P (s, w) (DoCommit ops) (answer_of (\<lambda>_. Quiet) r) sw'"
| step_reopen: "open_path P (st_dir s) (drop_store s w) = (Ok s', w') \<Longrightarrow>
     store_step P (s, w) DoReopen (Ok Quiet) (s', w')"

inductive_cases store_step_setE [elim!]: "store_step P sw (DoSet k v) a sw'"
inductive_cases store_step_deleteE [elim!]: "store_step P sw (DoDelete k) a sw'"
inductive_cases store_step_getE [elim!]: "store_step P sw (DoGet k) a sw'"
inductive_cases store_step_scanE [elim!]: "store_step P sw (DoScan lo hi) a sw'"
inductive_cases store_step_flushE [elim!]: "store_step P sw DoFlush a sw'"
inductive_cases store_step_compactE [elim!]: "store_step P sw DoCompact a sw'"
inductive_cases store_step_budgetE [elim!]: "store_step P sw (DoBudget n) a sw'"
inductive_cases store_step_commitE [elim!]: "store_step P sw (DoCommit ops) a sw'"
inductive_cases store_step_reopenE [elim!]: "store_step P sw DoReopen a sw'"

inductive store_run :: "prost \<Rightarrow> store \<times> world \<Rightarrow> (store_op \<times> answer outcome) list \<Rightarrow> store \<times> world \<Rightarrow> bool"
  for P :: prost where
  run_nil: "store_run P sw [] sw"
| run_cons: "store_step P sw op a sw' \<Longrightarrow> store_run P sw' tr sw'' \<Longrightarrow> store_run P sw ((op, a) # tr) sw''"

inductive_simps store_run_simps [simp]: "store_run P sw [] sw'" "store_run P sw ((op, a) # tr) sw'"

text \<open>What an operation may cost, and a run all of whose calls are within the bounds.\<close>

fun op_room :: "prost \<Rightarrow> store \<times> world \<Rightarrow> store_op \<Rightarrow> bool" where
  "op_room P (s, w) (DoSet k v) = room P w s (batch_cost P s [(k, Some v)])"
| "op_room P (s, w) (DoDelete k) = room P w s (batch_cost P s [(k, None)])"
| "op_room P (s, w) (DoScan lo hi) = (st_data s = [] \<or> \<not> range_panics lo hi)"
| "op_room P (s, w) DoFlush = room P w s 0"
| "op_room P (s, w) DoCompact = room P w s 0"
| "op_room P (s, w) (DoCommit ops) =
     room P w s (batch_cost P s (tx_pending (fold tx_step ops (begin_transaction s))))"
| "op_room P (s, w) op = True"

inductive bounded_run :: "prost \<Rightarrow> store \<times> world \<Rightarrow> (store_op \<times> answer outcome) list \<Rightarrow> store \<times> world \<Rightarrow> bool"
  for P :: prost where
  bounded_nil: "bounded_run P sw [] sw"
| bounded_cons: "op_room P sw op \<Longrightarrow> store_step P sw op a sw' \<Longrightarrow> bounded_run P sw' tr sw'' \<Longrightarrow>
     bounded_run P sw ((op, a) # tr) sw''"

inductive_simps bounded_run_simps [simp]: "bounded_run P sw [] sw'" "bounded_run P sw ((op, a) # tr) sw'"

text \<open>
  The same with the bytes added up. \<open>op_cost\<close> is what a call writes, as records and as log
  frames; reads, flushes, compactions and reopenings are free. \<open>spends\<close> adds it up along a run.
\<close>

fun op_cost :: "prost \<Rightarrow> store \<Rightarrow> store_op \<Rightarrow> nat" where
  "op_cost P s (DoSet k v) = batch_cost P s [(k, Some v)]"
| "op_cost P s (DoDelete k) = batch_cost P s [(k, None)]"
| "op_cost P s (DoCommit ops) = batch_cost P s (tx_pending (fold tx_step ops (begin_transaction s)))"
| "op_cost P s op = 0"

inductive spends :: "prost \<Rightarrow> store \<times> world \<Rightarrow> (store_op \<times> answer outcome) list \<Rightarrow> nat \<Rightarrow> store \<times> world \<Rightarrow> bool"
  for P :: prost where
  spends_nil: "spends P sw [] 0 sw"
| spends_cons: "store_step P sw op a sw' \<Longrightarrow> spends P sw' tr c sw'' \<Longrightarrow>
     spends P sw ((op, a) # tr) (op_cost P (fst sw) op + c) sw''"

inductive_cases spends_ConsE: "spends P sw ((op, a) # tr) c sw'"
inductive_cases spends_NilE: "spends P sw [] c sw'"

lemma spends_run: "spends P sw tr c sw' \<Longrightarrow> store_run P sw tr sw'"
  by (induction rule: spends.induct) (auto intro: run_cons)

lemma run_spends: "store_run P sw tr sw' \<Longrightarrow> \<exists>c. spends P sw tr c sw'"
  by (induction rule: store_run.induct) (auto intro: spends.intros)

text \<open>The only call that can panic: a scan with its bounds the wrong way round.\<close>

fun inverted_scan :: "store_op \<Rightarrow> bool" where
  "inverted_scan (DoScan lo hi) = range_panics lo hi"
| "inverted_scan op = False"

fun op_fits :: "nat \<Rightarrow> nat \<Rightarrow> nat \<Rightarrow> store \<Rightarrow> store_op \<Rightarrow> bool" where
  "op_fits b l n s (DoGet k) = True"
| "op_fits b l n s (DoScan lo hi) = (st_data s = [] \<or> \<not> range_panics lo hi)"
| "op_fits b l n s (DoBudget k) = True"
| "op_fits b l n s DoReopen = True"
| "op_fits b l n s op = capacity b l n"

lemma op_fits_capacity: "capacity b l n \<Longrightarrow> \<not> inverted_scan op \<Longrightarrow> op_fits b l n s op"
  by (cases op) simp_all

section \<open>The abstract machine\<close>

inductive map_step :: "(bytes \<Rightarrow> db_value option) \<Rightarrow> store_op \<Rightarrow> answer \<Rightarrow> (bytes \<Rightarrow> db_value option) \<Rightarrow> bool" where
  map_set: "map_step m (DoSet k v) Quiet (m(k \<mapsto> v))"
| map_delete: "map_step m (DoDelete k) Quiet (m(k := None))"
| map_get: "map_step m (DoGet k) (Got (m k)) m"
| map_scan: "bt_sorted ps \<Longrightarrow> \<forall>k. map_of ps k = (if in_bounds k lo hi then m k else None) \<Longrightarrow>
     map_step m (DoScan lo hi) (Pairs ps) m"
| map_flush: "map_step m DoFlush Quiet m"
| map_compact: "map_step m DoCompact Quiet m"
| map_budget: "map_step m (DoBudget n) Quiet m"
| map_commit: "map_step m (DoCommit ops) Quiet (fold op_effect ops m)"
| map_reopen: "map_step m DoReopen Quiet m"

inductive map_run :: "(bytes \<Rightarrow> db_value option) \<Rightarrow> (store_op \<times> answer outcome) list \<Rightarrow> (bytes \<Rightarrow> db_value option) \<Rightarrow> bool" where
  map_nil: "map_run m [] m"
| map_cons: "map_step m op a m' \<Longrightarrow> map_run m' tr m'' \<Longrightarrow> map_run m ((op, Ok a) # tr) m''"

inductive_simps map_run_simps [simp]: "map_run m [] m'" "map_run m ((op, a) # tr) m'"

text \<open>The abstract machine is deterministic: an operation has one answer and one effect.\<close>

lemma map_step_deterministic: "map_step m op a m' \<Longrightarrow> map_step m op b m'' \<Longrightarrow> b = a \<and> m'' = m'"
proof (induction rule: map_step.induct)
  case (map_scan ps lo hi m)
  from map_scan.prems obtain qs where "b = Pairs qs" "m'' = m" "bt_sorted qs"
      "\<forall>k. map_of qs k = (if in_bounds k lo hi then m k else None)"
    by (cases rule: map_step.cases) auto
  moreover from this(4) map_scan.hyps(2) have "map_of ps = map_of qs" by (simp add: fun_eq_iff)
  ultimately show ?case using bt_ext [OF map_scan.hyps(1)] by blast
qed (auto elim: map_step.cases)

section \<open>Refinement\<close>

context prost_codec
begin

lemma budget_sized: "sized P w s m b l n \<Longrightarrow> sized P w (set_memtable_budget k s) m b l n"
  by (auto simp: sized_def engine_def set_memtable_budget_def)

lemma budget_models: "models P w s m \<Longrightarrow> models P w (set_memtable_budget n s) m"
  by (auto simp: models_def engine_def set_memtable_budget_def)

lemma step_sized:
  assumes "store_step P (s, w) op a (s', w')" and "quiet w" and "sized P w s m b l n" and "0 < n" and "n < 2 ^ 64"
    and "op_cost P s op \<le> c" and "op_fits (b + c) (l + c) n s op"
  shows "\<exists>x m'. a = Ok x \<and> map_step m op x m' \<and> quiet w' \<and> sized P w' s' m' (b + c) (l + c) (n + 2)"
proof -
  have more: "sized P w s m b l i \<Longrightarrow> i \<le> n + 2 \<Longrightarrow> sized P w s m (b + c) (l + c) (n + 2)" for w s m i
    using sized_mono [of P w s m b l i "b + c" "l + c" "n + 2"] by simp
  have le: "capacity (b + c) (l + c) n \<Longrightarrow> capacity b l n"
    by (simp add: capacity_def)
  show ?thesis
  proof (cases op)
    case (DoSet k v)
    with assms set_value_sized [OF assms(2,3), of k v c] show ?thesis by (fastforce intro: map_set)
  next
    case (DoDelete k)
    with assms delete_value_sized [OF assms(2,3), of k c] show ?thesis by (fastforce intro: map_delete)
  next
    case (DoGet k)
    from get_value_sized [OF assms(2,3), of k] more
    have "\<exists>s1 w1. get_value P k (s, w) = (Ok (m k), (s1, w1)) \<and> quiet w1 \<and> sized P w1 s1 m (b + c) (l + c) (n + 2)"
      by fastforce
    with DoGet assms(1) show ?thesis by (fastforce intro: map_get)
  next
    case (DoScan lo hi)
    then have "st_data s = [] \<or> \<not> range_panics lo hi" using assms(7) by simp
    from scan_range_sized [OF assms(2,3) this] obtain ps w1 where
      "scan_range P lo hi (s, w) = (Ok ps, (s, w1))" "quiet w1" "sized P w1 s m b l n" "bt_sorted ps"
      "\<forall>k. map_of ps k = (if in_bounds k lo hi then m k else None)" by blast
    moreover from this(3) have "sized P w1 s m (b + c) (l + c) (n + 2)" using more by simp
    ultimately show ?thesis using DoScan assms(1) by (fastforce intro: map_scan)
  next
    case DoFlush
    from flush_sized [OF assms(2,3)] le assms(7) more DoFlush
    have "\<exists>s1 w1. flush P (s, w) = (Ok (), (s1, w1)) \<and> quiet w1 \<and> sized P w1 s1 m (b + c) (l + c) (n + 2)" by fastforce
    with DoFlush assms(1) show ?thesis by (fastforce intro: map_flush)
  next
    case DoCompact
    from compact_sized [OF assms(2,3)] le assms(7) more DoCompact
    have "\<exists>s1 w1. compact P (s, w) = (Ok (), (s1, w1)) \<and> quiet w1 \<and> sized P w1 s1 m (b + c) (l + c) (n + 2)" by fastforce
    with DoCompact assms(1) show ?thesis by (fastforce intro: map_compact)
  next
    case (DoBudget k)
    from more [OF budget_sized [OF assms(3), of k]] DoBudget assms(1,2) show ?thesis by (fastforce intro: map_budget)
  next
    case (DoCommit ops)
    with assms tx_commit_sized [OF assms(2), of "fold tx_step ops (begin_transaction s)" m b l n c] show ?thesis
      by (fastforce simp: tx_steps tx_steps_batch intro: map_commit)
  next
    case DoReopen
    from reopen_sized [OF assms(2-5)] more
    have "\<exists>s1 w1. open_path P (st_dir s) (drop_store s w) = (Ok s1, w1) \<and> quiet w1 \<and> sized P w1 s1 m (b + c) (l + c) (n + 2)"
      by fastforce
    with DoReopen assms(1) show ?thesis by (fastforce intro: map_reopen)
  qed
qed

text \<open>Sessions: a store that starts within its bounds stays within them, however it is used.\<close>

lemma spends_simulation:
  assumes "spends P (s, w) tr c (s', w')" and "quiet w" and "sized P w s m b l n" and "0 < n"
    and "capacity (b + c) (l + c) (n + 2 * length tr)" and "\<forall>(op, a) \<in> set tr. \<not> inverted_scan op"
  shows "\<exists>m'. map_run m tr m' \<and> quiet w' \<and> sized P w' s' m' (b + c) (l + c) (n + 2 * length tr)"
  using assms
proof (induction tr arbitrary: s w m b l n c)
  case Nil
  then show ?case by (auto elim!: spends_NilE)
next
  case (Cons e tr)
  obtain op a where e: "e = (op, a)" by fastforce
  obtain s1 w1 d where st: "store_step P (s, w) op a (s1, w1)" "spends P (s1, w1) tr d (s', w')" "c = op_cost P s op + d"
    using Cons.prems(1) unfolding e by (auto elim!: spends_ConsE)
  let ?c = "op_cost P s op"
  have "capacity (b + ?c) (l + ?c) n" by (rule capacity_mono [OF Cons.prems(5)]) (simp_all add: st(3))
  moreover from this have "n < 2 ^ 64" by (simp add: capacity_def)
  ultimately obtain x m1 where 1: "a = Ok x" "map_step m op x m1" "quiet w1" "sized P w1 s1 m1 (b + ?c) (l + ?c) (n + 2)"
    using step_sized [OF st(1) Cons.prems(2-4) _ order_refl] Cons.prems(6) op_fits_capacity e by auto
  moreover have "\<exists>m'. map_run m1 tr m' \<and> quiet w' \<and> sized P w' s' m' (b + ?c + d) (l + ?c + d) (n + 2 + 2 * length tr)"
    using Cons.prems(5,6) st(3) by (intro Cons.IH [OF st(2) 1(3,4)]) (simp_all add: add.assoc)
  ultimately show ?case using e st(3) by (auto simp: add.assoc)
qed

lemma step_simulation:
  assumes "store_step P (s, w) op a (s', w')" and "op_room P (s, w) op" and "quiet w" and "models P w s m"
  shows "\<exists>b m'. a = Ok b \<and> map_step m op b m' \<and> quiet w' \<and> models P w' s' m'"
proof -
  let ?b = "stored_bytes P w s" and ?l = "length (contents w (wal_path (st_wal s)))" and ?n = "max 1 (unat (next_sstable_id s))"
  have "sized P w s m ?b ?l ?n" using sized_mono [OF models_sized [OF assms(4)]] by simp
  moreover have "?n < 2 ^ 64" using unsigned_less [where 'a = nat, of "next_sstable_id s"] by simp
  moreover have "op_fits (?b + op_cost P s op) (?l + op_cost P s op) ?n s op"
    using assms(2) by (cases op) (simp_all add: room_capacity capacity_def)
  ultimately show ?thesis using step_sized [OF assms(1,3), of m ?b ?l ?n "op_cost P s op"] sized_models by fastforce
qed

lemma step_exists:
  assumes "quiet w" and "models P w s m"
  shows "\<exists>a sw'. store_step P (s, w) op a sw'"
proof (cases op)
  case DoReopen
  with reopen_models [OF assms] show ?thesis by (blast intro: step_reopen)
qed (blast intro: store_step.intros prod.exhaust_sel)+

lemma run_simulation:
  assumes "bounded_run P (s, w) tr (s', w')" and "quiet w" and "models P w s m"
  shows "\<exists>m'. map_run m tr m' \<and> quiet w' \<and> models P w' s' m'"
  using assms
proof (induction tr arbitrary: s w m)
  case (Cons e tr)
  obtain op a where e: "e = (op, a)" by fastforce
  obtain s1 w1 where "op_room P (s, w) op" "store_step P (s, w) op a (s1, w1)" "bounded_run P (s1, w1) tr (s', w')"
    using Cons.prems(1) e by auto
  moreover from step_simulation [OF this(2,1) Cons.prems(2,3)] obtain b m1 where
    "a = Ok b" "map_step m op b m1" "quiet w1" "models P w1 s1 m1" by blast
  ultimately show ?case using Cons.IH [of s1 w1 m1] e by auto
qed auto

end

section \<open>Isolation\<close>

text \<open>
  What a run may change: files below its directory, missing directories above it, and its own
  lock, which a reopened table releases and takes again.
\<close>

definition isolates :: "path \<Rightarrow> world \<Rightarrow> world \<Rightarrow> bool" where
  "isolates d w w' \<longleftrightarrow> within d (fs_unlock (d @ [''LOCK'']) w) (fs_unlock (d @ [''LOCK'']) w')"

lemma isolates_refl [simp]: "isolates d w w"
  by (simp add: isolates_def)

lemma isolates_trans: "isolates d w w' \<Longrightarrow> isolates d w' w'' \<Longrightarrow> isolates d w w''"
  unfolding isolates_def by (rule within_trans)

lemma fs_wf_unlock [simp]: "fs_wf (fs_unlock p w) = fs_wf w"
  by (simp add: fs_wf_def)

lemma within_isolates: "within d w w' \<Longrightarrow> isolates d w w'"
  by (auto simp: isolates_def within_def) (simp_all add: fs_unlock_def)

lemma open_isolates: "within d (locked (d @ [''LOCK'']) (fs_unlock (d @ [''LOCK'']) w)) w' \<Longrightarrow> isolates d w w'"
  by (auto simp: isolates_def within_def fs_wf_def locked_def file_of_def) (simp_all add: fs_unlock_def)

lemma isolates_files: "isolates d w w' \<Longrightarrow> \<not> in_tree d p \<Longrightarrow> file_of w' p = file_of w p"
  by (simp add: isolates_def within_def)

lemma keeps_isolates:
  assumes "keeps (stays d w) m" and "tidy d s" and "m (s, w) = (r, (s', w'))"
  shows "tidy d s' \<and> isolates d w w'"
  using keepsD [OF assms(1), of "(s, w)"] assms(2,3) by (simp add: within_isolates)

text \<open>One step: either the world changed below the directory, or the table was reopened.\<close>

lemma keeps_stays:
  assumes "keeps (stays d w) m" and "tidy d s" and "m (s, w) = (r, (s', w'))"
  shows "tidy d s' \<and> within d w w'"
  using keepsD [OF assms(1), of "(s, w)"] assms(2,3) by simp

lemma step_stays:
  assumes "store_step P (s, w) op a (s', w')" and "tidy d s"
  shows "tidy d s' \<and> (within d w w' \<or> within d (locked (d @ [''LOCK'']) (fs_unlock (d @ [''LOCK'']) w)) w')"
proof (cases op)
  case DoReopen
  then have "open_path P d (fs_unlock (d @ [''LOCK'']) w) = (Ok s', w')"
    using assms by (auto simp: tidy_def drop_store_def)
  from open_path_any [OF this] show ?thesis by auto
next
  case (DoCommit ops)
  then obtain r where "tx_commit P (fold tx_step ops (begin_transaction s)) w = (r, (s', w'))" using assms(1) by auto
  with confine.tx_commit [of d "fold tx_step ops (begin_transaction s)" w w P] assms(2) show ?thesis
    by (simp add: tx_steps)
next
  case (DoBudget n)
  then show ?thesis using assms by (auto simp: set_memtable_budget_def)
next
  case (DoSet k v)
  then show ?thesis using assms(1) by (blast dest: keeps_stays [OF confine.set_value assms(2)])
next
  case (DoDelete k)
  then show ?thesis using assms(1) by (blast dest: keeps_stays [OF confine.delete_value assms(2)])
next
  case (DoGet k)
  then show ?thesis using assms(1) by (blast dest: keeps_stays [OF confine.get_value assms(2)])
next
  case (DoScan lo hi)
  then show ?thesis using assms(1) by (blast dest: keeps_stays [OF confine.scan_range assms(2)])
next
  case DoFlush
  then show ?thesis using assms(1) by (blast dest: keeps_stays [OF confine.flush assms(2)])
next
  case DoCompact
  then show ?thesis using assms(1) by (blast dest: keeps_stays [OF confine.compact assms(2)])
qed

lemma step_isolates:
  assumes "store_step P (s, w) op a (s', w')" and "tidy d s"
  shows "tidy d s' \<and> isolates d w w'"
  using step_stays [OF assms] by (auto intro: within_isolates open_isolates)

lemma run_isolates:
  "store_run P sw tr sw' \<Longrightarrow> tidy d (fst sw) \<Longrightarrow> tidy d (fst sw') \<and> isolates d (snd sw) (snd sw')"
proof (induction rule: store_run.induct)
  case (run_cons sw op a sw' tr sw'')
  from step_isolates [of P "fst sw" "snd sw" op a "fst sw'" "snd sw'" d] run_cons isolates_trans show ?case by force
qed simp

lemma isolates_agree:
  assumes "isolates d' w w'" and "apart d d'"
  shows "agree d w w'"
proof -
  have "d' @ [''LOCK''] \<noteq> d @ [''LOCK'']" using assms(2) by (auto simp: apart_def)
  then show ?thesis
    using within_agree [OF assms(1) [unfolded isolates_def] assms(2)] by (simp add: agree_def) (simp add: fs_unlock_def)
qed

lemma models_isolates: "models P w s m \<Longrightarrow> isolates d w w' \<Longrightarrow> apart (st_dir s) d \<Longrightarrow> models P w' s m"
  using models_agree isolates_agree by blast

section \<open>Exclusive use\<close>

lemma run_holds_lock:
  "store_run P sw tr sw' \<Longrightarrow> tidy d (fst sw) \<Longrightarrow> d @ [''LOCK''] \<in> set (w_locks (snd sw))
     \<Longrightarrow> d @ [''LOCK''] \<in> set (w_locks (snd sw'))"
proof (induction rule: store_run.induct)
  case (run_cons sw op a sw' tr sw'')
  have "tidy d (fst sw') \<and> (within d (snd sw) (snd sw')
      \<or> within d (locked (d @ [''LOCK'']) (fs_unlock (d @ [''LOCK'']) (snd sw))) (snd sw'))"
    using step_stays [of P "fst sw" "snd sw" op a "fst sw'" "snd sw'" d] run_cons.hyps(1) run_cons.prems(1) by simp
  moreover from this have "d @ [''LOCK''] \<in> set (w_locks (snd sw'))"
    using run_cons.prems(2) by (auto simp: within_def locked_def)
  ultimately show ?case using run_cons.IH by blast
qed

lemma second_open:
  assumes "open_path P d w = (Ok s, w1)" and "store_run P (s, w1) tr (s', w')"
  shows "fst (open_path P d w') \<noteq> Ok s''"
proof
  assume again: "fst (open_path P d w') = Ok s''"
  have "tidy d s" "within d (locked (d @ [''LOCK'']) w) w1" using open_path_any [OF assms(1)] by auto
  then have "d @ [''LOCK''] \<in> set (w_locks w')"
    using run_holds_lock [OF assms(2)] by (simp add: within_def locked_def)
  moreover obtain w'' where "open_path P d w' = (Ok s'', w'')" using again by (cases "open_path P d w'") simp
  ultimately show False using open_path_any by blast
qed

end
