(* ===== verification/Ferrum_Retry.thy ===== *)
theory Ferrum_Retry
  imports Ferrum_Faults
begin

text \<open>
  Opening a directory under faults. Whatever fails while \<open>open_path\<close> of
  \<open>ferrumdb-core/src/store.rs\<close> creates directories, takes the lock, loads tables and cuts the
  uncommitted end of the log, the files keep what they hold: the caller may try again.
\<close>

lemma keeps_later:
  assumes "\<And>w. \<exists>n. snd (m w) = later n w" and "\<And>n w. I w \<Longrightarrow> I (later n w)"
  shows "keeps I m"
  using assms by (metis keepsI)

lemma on_disk_later: "on_disk P w d ids ess log \<Longrightarrow> on_disk P (later n w) d ids ess log"
  using on_disk_same [OF _ touches_later] by simp

lemma disk_calls [keeps_intros]:
  defines "D \<equiv> \<lambda>P d ids ess log w. on_disk P w d ids ess log"
  shows "keeps (D P d ids ess log) (fs_open False False p)" "keeps (D P d ids ess log) (fs_exists p)"
    "keeps (D P d ids ess log) (fs_read_to_end p)" "keeps (D P d ids ess log) (fs_sync_all p)"
    "keeps (D P d ids ess log) (fs_read_dir p)"
  unfolding D_def
  by (auto intro!: keeps_later on_disk_later simp: fs_open_def fs_exists_def fs_read_to_end_def fs_sync_all_def fs_read_dir_def
      syscall_def split: fault.splits option.splits)

lemma disk_mkdir [keeps_intros]: "keeps (\<lambda>w. on_disk P w d ids ess log) (fs_create_dir_all d)"
proof
  fix w assume w: "on_disk P w d ids ess log"
  then have none: "\<forall>q \<in> set (ancestors d). file_of w q = None" by (simp add: on_disk_def)
  have made: "on_disk P (make_dirs qs (later 1 w)) d ids ess log" if qs: "set qs \<subseteq> set (ancestors d)" "distinct qs" for qs
  proof -
    let ?w = "make_dirs qs (later 1 w)"
    have f: "file_of ?w = file_of w" by (simp add: make_dirs_def file_of_def fun_eq_iff)
    have "within d w ?w" using within_make_dirs [of d w "later 1 w" qs] qs none by auto
    then have wf: "fs_wf ?w" and dirs: "set (w_dirs w) \<subseteq> set (w_dirs ?w)" "set (w_dirs ?w) \<subseteq> set (w_dirs w) \<union> set (ancestors d)"
      using w by (simp_all add: within_def on_disk_def dir_holds_def)
    have child: "q \<in> set (w_dirs ?w) \<longleftrightarrow> q \<in> set (w_dirs w)" if "q \<noteq> []" "butlast q = d" for q
      using dirs child_not_ancestor [OF that] by auto
    have "dir_holds P ?w d ids ess"
      by (rule dir_holds_cong [of P w]) (use w wf child f in \<open>simp_all add: on_disk_def\<close>)
    with w child [of "d @ [''wal.log'']"] child [of "d @ [''LOCK'']"] show ?thesis
      by (simp add: on_disk_def log_holds_def contents_def f [simplified])
  qed
  show "on_disk P (snd (fs_create_dir_all d w)) d ids ess log"
    using w made [of "ancestors d"] made [of "takeWhile (\<lambda>q. file_of w q = None) (take n (ancestors d))" for n]
      distinct_ancestors [of d] on_disk_later [OF w, of 1]
    by (auto simp: fs_create_dir_all_def split: fault.splits dest!: set_takeWhileD in_set_takeD)
qed

lemma disk_lock [keeps_intros]: "keeps (\<lambda>w. on_disk P w d ids ess log) (fs_open True False (d @ [''LOCK'']))"
proof
  fix w assume w: "on_disk P w d ids ess log"
  let ?p = "d @ [''LOCK'']"
  have put: "on_disk P (put_file ?p [] (later 1 w)) d ids ess log"
  proof -
    have t: "touches ?p w (put_file ?p [] (later 1 w))" using touches_trans [OF touches_later touches_put_file] .
    have "dir_holds P (put_file ?p [] (later 1 w)) d ids ess"
      by (rule dir_holds_touches [OF _ t]) (use w in \<open>simp_all add: on_disk_def\<close>)
    moreover have "?p \<notin> set (ancestors d)" by (rule child_not_ancestor) simp_all
    ultimately show ?thesis using w by (auto simp: on_disk_def log_holds_def contents_def)
  qed
  then show "on_disk P (snd (fs_open True False ?p w)) d ids ess log"
    using on_disk_later [OF w, of 1] by (auto simp: fs_open_def syscall_def split: fault.splits option.splits)
qed

lemma disk_unlocked: "on_disk P w d ids ess log \<Longrightarrow> on_disk P (locked p w) d ids ess log"
  by (rule on_disk_files) (simp_all add: locked_def)

lemma disk_flock [keeps_intros]: "keeps (\<lambda>w. on_disk P w d ids ess log) (fs_flock p)"
proof
  fix w assume "on_disk P w d ids ess log"
  then show "on_disk P (snd (fs_flock p w)) d ids ess log"
    using fs_flock_any [of p w "fst (fs_flock p w)" "snd (fs_flock p w)"] by (auto intro!: on_disk_later disk_unlocked)
qed

lemma load_sstables_any: "\<exists>n. snd (snd (load_sstables (s, w))) = later n w"
proof -
  obtain r w1 where rd: "fs_read_dir (st_dir s) w = (r, w1)" by fastforce
  then have w1: "w1 = later 1 w" by (auto simp: fs_read_dir_def syscall_def split: fault.splits if_splits)
  have found: "\<exists>n. snd (open_found qs w1) = later n w" for qs
    using readsD(1) [OF reads_open_found, of qs w1] by (auto simp: w1)
  show ?thesis
  proof (cases r)
    case (Ok qs)
    obtain r2 w2 where f: "open_found qs w1 = (r2, w2)" by fastforce
    with found [of qs] show ?thesis by (cases r2) (auto simp: load_sstables_def rd Ok bindA_def onW_def updS_def)
  qed (use w1 in \<open>auto simp: load_sstables_def rd\<close>)
qed

lemma wal_read_file_any:
  assumes "wal_read_file p w = (r, w')" 
  shows "\<exists>n. w' = later n w" and "r = Ok (Some buf) \<Longrightarrow> file_of w p = Some buf"
  using assms
  by (auto simp: wal_read_file_def bindA_def returnA_def fs_exists_def fs_open_def fs_read_to_end_def syscall_def
      split: fault.splits if_splits option.splits outcome.splits prod.splits)

context prost_codec
begin

lemma disk_recovery:
  assumes "on_disk P w d ids ess log" and "wal_path l = d @ [''wal.log'']"
  shows "on_disk P (snd (snd (wal_read_for_recovery P (l, w)))) d ids ess log"
proof -
  let ?p = "d @ [''wal.log'']"
  obtain es rest where log: "contents w ?p = frames P es @ rest" "torn rest" "length (frames P es) < 2 ^ 62"
      "committed (is_commit P) es = log" "list_all (log_ok P) log"
    using assms(1) by (auto simp: on_disk_def log_holds_def)
  obtain r w1 where rd: "wal_read_file ?p w = (r, w1)" by fastforce
  obtain n where n: "w1 = later n w" using wal_read_file_any(1) [OF rd] ..
  show ?thesis
  proof (cases "\<exists>buf. r = Ok (Some buf)")
    case True
    then obtain buf where buf: "r = Ok (Some buf)" "file_of w ?p = Some buf" using wal_read_file_any(2) [OF rd] by auto
    have eq: "buf = frames P es @ rest" using log(1) buf(2) by (simp add: contents_def)
    have parse: "parse_buffer P buf = Ok (es, length log, length (frames P log))"
      using parse_buffer_frames [OF log(2,3)] by (simp add: eq log(4))
    obtain more where es: "es = log @ more" using committed_prefix [of es] log(4) by blast
    have cut: "on_disk P (later k (put_file ?p (frames P log) w)) d ids ess log" for k
    proof (rule on_disk_log [OF assms(1)])
      show "touches ?p w (later k (put_file ?p (frames P log) w))" using touches_trans [OF touches_put_file touches_later] .
      show "log_holds P (later k (put_file ?p (frames P log) w)) d log"
        unfolding log_holds_def
        using log es committed_idem [of "is_commit P" es]
        by (intro conjI exI [of _ log] exI [of _ "[]"]) (auto simp: contents_def)
    qed
    have "resize (length (frames P log)) buf = frames P log" by (simp add: resize_def eq es)
    then show ?thesis
      using on_disk_later [OF assms(1)] cut buf
      by (simp add: wal_read_for_recovery_def assms(2) bindA_def onW_def rd n parse fs_open_def fs_set_len_def fs_sync_all_def
          liftO_def returnA_def syscall_def split: fault.splits)
  next
    case False
    then show ?thesis
      using on_disk_later [OF assms(1), of n] rd n
      by (cases r) (auto simp: wal_read_for_recovery_def bindA_def onW_def assms(2) returnA_def split: option.splits)
  qed
qed

lemma disk_body:
  assumes "on_disk P w d ids ess log" and "tidy d s"
  shows "on_disk P (snd (snd (bindA load_sstables (\<lambda>_. replay_wal P) (s, w)))) d ids ess log"
proof -
  obtain r s1 w1 where load: "load_sstables (s, w) = (r, (s1, w1))" using prod_cases3 by blast
  have D: "on_disk P w1 d ids ess log" using load_sstables_any [of s w] on_disk_later [OF assms(1)] load by auto
  have "tidy d s1" using keepsD [OF keeps_load_sstables, of d w "(s, w)"] assms(2) load by simp
  then have "wal_path (st_wal s1) = d @ [''wal.log'']" by (simp add: tidy_def wal_tidy_def)
  from disk_recovery [OF D this] show ?thesis
    using D load by (cases r) (auto simp: bindA_def replay_wal_def on_wal_def onS_def split: prod.splits outcome.splits)
qed

lemma open_keeps_disk:
  assumes "open_path P d w = (r, w')" and "on_disk P w d ids ess log"
  shows "on_disk P w' d ids ess log"
proof -
  let ?D = "\<lambda>w. on_disk P w d ids ess log" let ?p = "d @ [''LOCK'']" let ?l = "\<lparr>wal_path = d @ [''wal.log''], wal_file = None\<rparr>"
  have rest: "?D (case bindA load_sstables (\<lambda>_. replay_wal P) (fresh_store d ?l ?p, w) of
         (Ok _, (s, w')) \<Rightarrow> w' | (Err e, (s, w')) \<Rightarrow> drop_store s w' | (Panic, (s, w')) \<Rightarrow> drop_store s w')" if "?D w" for w
    using disk_body [OF that tidy_fresh] by (auto simp: drop_store_def split: prod.splits outcome.splits option.splits)
  have body: "keeps ?D (\<lambda>w. case bindA load_sstables (\<lambda>_. replay_wal P) (fresh_store d ?l ?p, w) of
         (Ok _, (s, w')) \<Rightarrow> (Ok s, w') | (Err e, (s, w')) \<Rightarrow> (Err e, drop_store s w') | (Panic, (s, w')) \<Rightarrow> (Panic, drop_store s w'))"
    using rest by (fastforce simp: keeps_def split: prod.splits outcome.splits)
  have wal: "keeps ?D (bindA (wal_with_path (d @ [''wal.log''])) (\<lambda>l w. case bindA load_sstables (\<lambda>_. replay_wal P) (fresh_store d l ?p, w) of
         (Ok _, (s, w')) \<Rightarrow> (Ok s, w') | (Err e, (s, w')) \<Rightarrow> (Err e, drop_store s w') | (Panic, (s, w')) \<Rightarrow> (Panic, drop_store s w')))"
    using keepsD [OF body] keepsD [OF disk_mkdir] by (auto simp: keeps_def bindA_def [of "wal_with_path _"] wal_with_path_def path_parent_def)
  have "keeps ?D (open_path P d)"
    unfolding open_path_def Let_def path_join_lock by (intro keeps_bindA keeps_if keeps_pure disk_mkdir disk_lock disk_flock wal)
  from keepsD [OF this assms(2)] assms(1) show ?thesis by simp
qed

lemma open_retry:
  assumes "open_path P d w = (r, w')" and "\<forall>s. r \<noteq> Ok s" and "survives P w d m" and "d @ [''LOCK''] \<notin> set (w_locks w)"
  shows "\<exists>s w''. open_path P d (calm w') = (Ok s, w'') \<and> quiet w'' \<and> models P w'' s m \<and> st_dir s = d"
proof -
  obtain ids ess log where D: "on_disk P w d ids ess log" "m = view (log_data P log) ess" using assms(3) by (auto simp: survives_def)
  have "w_locks (calm w') = w_locks w" using open_path_any [OF assms(1)] assms(2) by (auto simp: within_def calm_def)
  moreover have "on_disk P (calm w') d ids ess log"
    using open_keeps_disk [OF assms(1) D(1)]
    by (rule on_disk_files) (simp_all add: calm_def)
  ultimately show ?thesis using open_models [of "calm w'" d ids ess log] D(2) assms(4) by simp
qed

lemma open_survives: "open_path P d w = (r, w') \<Longrightarrow> survives P w d m \<Longrightarrow> survives P w' d m"
  using open_keeps_disk unfolding survives_def by blast

end

end
