(* ===== verification/Ferrum_Honest.thy ===== *)
theory Ferrum_Honest
  imports Ferrum_Machine Ferrum_Retry
begin

text \<open>
  Faults that did not strike. What a call does depends on the schedule at the ticks of the call only:
  under a schedule that agrees there it does the same, so a call during which no fault struck did what
  it would have done in a world without faults, whatever comes later. A call that swallows no error
  reports an error when a fault strikes in it: it neither succeeds nor panics. \<open>honest c\<close> says both of an
  action, the second when \<open>c\<close> holds; it is proved for every operation of the engine along the code,
  with \<open>c\<close> false for those that ignore an error: asking whether a file exists, listing a directory when
  a store is opened, and removing the inputs of a compaction.
\<close>

section \<open>Honest actions\<close>

definition struck :: "world \<Rightarrow> world \<Rightarrow> bool" where
  "struck w w' \<longleftrightarrow> (\<exists>i. w_clock w \<le> i \<and> i < w_clock w' \<and> w_faults w i \<noteq> NoFault)"

definition refault :: "(nat \<Rightarrow> fault) \<Rightarrow> world \<Rightarrow> world" where
  "refault f w = w\<lparr>w_faults := f\<rparr>"

definition alike :: "(nat \<Rightarrow> fault) \<Rightarrow> world \<Rightarrow> world \<Rightarrow> bool" where
  "alike f w w' \<longleftrightarrow> (\<forall>i. w_clock w \<le> i \<and> i < w_clock w' \<longrightarrow> f i = w_faults w i)"

definition honest :: "bool \<Rightarrow> ('s \<Rightarrow> world) \<Rightarrow> ((nat \<Rightarrow> fault) \<Rightarrow> 's \<Rightarrow> 's) \<Rightarrow> ('s, 'a) act \<Rightarrow> bool" where
  "honest c g q m \<longleftrightarrow>
     (\<forall>s r s'. m s = (r, s') \<longrightarrow>
        w_clock (g s) \<le> w_clock (g s') \<and> w_faults (g s') = w_faults (g s)
        \<and> (\<forall>f. alike f (g s) (g s') \<longrightarrow> m (q f s) = (r, q f s'))
        \<and> (c \<and> struck (g s) (g s') \<longrightarrow> (\<exists>e. r = Err e)))"

abbreviation honestW :: "bool \<Rightarrow> (world, 'a) act \<Rightarrow> bool" where
  "honestW c \<equiv> honest c (\<lambda>w. w) refault"

abbreviation honestP :: "bool \<Rightarrow> ('x \<times> world, 'a) act \<Rightarrow> bool" where
  "honestP c \<equiv> honest c snd (\<lambda>f. apsnd (refault f))"

named_theorems honest_intros

lemma struck_refl [simp]: "\<not> struck w w" "w_clock w' \<le> w_clock w \<Longrightarrow> \<not> struck w w'"
  by (auto simp: struck_def)

lemma struck_trans:
  assumes "w_clock w \<le> w_clock w1" and "w_clock w1 \<le> w_clock w2" and "w_faults w1 = w_faults w"
  shows "struck w w2 \<longleftrightarrow> struck w w1 \<or> struck w1 w2"
proof -
  have "w_clock w \<le> i \<and> i < w_clock w2 \<longleftrightarrow> w_clock w \<le> i \<and> i < w_clock w1 \<or> w_clock w1 \<le> i \<and> i < w_clock w2" for i
    using assms(1,2) by linarith
  then show ?thesis unfolding struck_def assms(3) by metis
qed

lemma struck_tick: "w_clock w' = w_clock w + 1 \<Longrightarrow> struck w w' \<longleftrightarrow> fault_now w \<noteq> NoFault"
  by (auto simp: struck_def fault_now_def) (metis le_less_Suc_eq)

lemma refault_calm [simp]: "refault (\<lambda>_. NoFault) = calm"
  by (simp add: refault_def calm_def fun_eq_iff)

lemma alike_refl [simp]: "alike f w w" "alike (w_faults w) w w'"
  by (auto simp: alike_def)

lemma alike_calm: "alike (\<lambda>_. NoFault) w w' \<longleftrightarrow> \<not> struck w w'"
  by (auto simp: alike_def struck_def)

lemma alike_trans:
  assumes "w_clock w \<le> w_clock w1" and "w_clock w1 \<le> w_clock w2" and "w_faults w1 = w_faults w"
  shows "alike f w w2 \<longleftrightarrow> alike f w w1 \<and> alike f w1 w2"
proof -
  have "w_clock w \<le> i \<and> i < w_clock w2 \<longleftrightarrow> w_clock w \<le> i \<and> i < w_clock w1 \<or> w_clock w1 \<le> i \<and> i < w_clock w2" for i
    using assms(1,2) by linarith
  then show ?thesis unfolding alike_def assms(3) by metis
qed

lemma alike_tick: "w_clock w' = w_clock w + 1 \<Longrightarrow> alike f w w' \<longleftrightarrow> f (w_clock w) = fault_now w"
  by (auto simp: alike_def fault_now_def) (metis le_less_Suc_eq)

lemma honestI:
  assumes "\<And>s r s'. m s = (r, s') \<Longrightarrow> w_clock (g s) \<le> w_clock (g s') \<and> w_faults (g s') = w_faults (g s)"
    and "\<And>s r s' f. m s = (r, s') \<Longrightarrow> alike f (g s) (g s') \<Longrightarrow> m (q f s) = (r, q f s')"
    and "\<And>s r s'. m s = (r, s') \<Longrightarrow> c \<Longrightarrow> struck (g s) (g s') \<Longrightarrow> \<exists>e. r = Err e"
  shows "honest c g q m"
  using assms unfolding honest_def by blast

lemma honestD:
  assumes "honest c g q m" and "m s = (r, s')"
  shows "w_clock (g s) \<le> w_clock (g s')" and "w_faults (g s') = w_faults (g s)"
    and "alike f (g s) (g s') \<Longrightarrow> m (q f s) = (r, q f s')" and "c \<Longrightarrow> r = Ok x \<Longrightarrow> \<not> struck (g s) (g s')"
    and "c \<Longrightarrow> struck (g s) (g s') \<Longrightarrow> \<exists>e. r = Err e"
  using assms unfolding honest_def by blast+

lemma honest_calm:
  "honestW c m \<Longrightarrow> m w = (r, w') \<Longrightarrow> \<not> struck w w' \<Longrightarrow> m (calm w) = (r, calm w')"
  "honestP c n \<Longrightarrow> n (x, w) = (r, (x', w')) \<Longrightarrow> \<not> struck w w' \<Longrightarrow> n (x, calm w) = (r, (x', calm w'))"
  using honestD(3) [where f = "\<lambda>_. NoFault"] by (fastforce simp flip: alike_calm)+

lemma honest_mono: "honest True g q m \<Longrightarrow> honest c g q m"
  by (auto simp: honest_def)

lemma honest_pure [honest_intros]:
  "honest c g q (returnA x)" "honest c g q (failA e)" "honest c g q panicA" "honest c g q (liftO r)" "honest c g q (Pair r)"
  by (auto simp: honest_def returnA_def failA_def panicA_def liftO_def)

lemma honest_bindA [honest_intros]:
  assumes "honest c g q m" and "\<And>x. honest c g q (f x)"
  shows "honest c g q (bindA m f)"
proof -
  have "w_clock (g s) \<le> w_clock (g s') \<and> w_faults (g s') = w_faults (g s)
      \<and> (\<forall>h. alike h (g s) (g s') \<longrightarrow> bindA m f (q h s) = (r, q h s')) \<and> (c \<and> struck (g s) (g s') \<longrightarrow> (\<exists>e. r = Err e))"
    if run: "bindA m f s = (r, s')" for s r s'
  proof -
    obtain r1 s1 where m: "m s = (r1, s1)" by fastforce
    note M = honestD [OF assms(1) m]
    show ?thesis
    proof (cases r1)
      case (Ok x)
      then have f: "f x s1 = (r, s')" using run m by (simp add: bindA_def)
      note F = honestD [OF assms(2) f]
      have "struck (g s) (g s') \<longleftrightarrow> struck (g s) (g s1) \<or> struck (g s1) (g s')"
        using M(1,2) F(1) by (intro struck_trans)
      moreover have "alike h (g s) (g s') \<longleftrightarrow> alike h (g s) (g s1) \<and> alike h (g s1) (g s')" for h
        using M(1,2) F(1) by (intro alike_trans)
      ultimately show ?thesis using M F Ok by (auto simp: bindA_def)
    qed (use M run m in \<open>auto simp: bindA_def\<close>)
  qed
  then show ?thesis unfolding honest_def by blast
qed

lemma honest_if [honest_intros]:
  "(b \<Longrightarrow> honest c g q m) \<Longrightarrow> (\<not> b \<Longrightarrow> honest c g q n) \<Longrightarrow> honest c g q (if b then m else n)"
  by simp

lemma honest_option [honest_intros]:
  "honest c g q m \<Longrightarrow> (\<And>x. honest c g q (f x)) \<Longrightarrow> honest c g q (case y of None \<Rightarrow> m | Some x \<Rightarrow> f x)"
  by (cases y) simp_all

lemma honest_prod [honest_intros]: "(\<And>a b. honest c g q (f a b)) \<Longrightarrow> honest c g q (case x of (a, b) \<Rightarrow> f a b)"
  by (cases x) simp

text \<open>Actions on the world next to another part of the state.\<close>

lemma honest_onW [honest_intros]: "honestW c m \<Longrightarrow> honestP c (onW m)"
  by (auto simp: honest_def onW_def split: prod.splits)

lemma honest_still [honest_intros]: "honestP c (\<lambda>(x, w). (r x, (h x, w)))"
  by (auto simp: honest_def)

lemma honest_state: "(\<And>x. honestP c (f x)) \<Longrightarrow> honestP c (\<lambda>(x, w). f x (h x, w))"
  by (auto simp: honest_def)

lemma honest_split_if:
  "honestP c (\<lambda>(x, w). F x w) \<Longrightarrow> honestP c (\<lambda>(x, w). G x w) \<Longrightarrow> honestP c (\<lambda>(x, w). if b x then F x w else G x w)"
  by (auto simp: honest_def)

lemma honest_split_option:
  assumes "honestP c (\<lambda>(x, w). F x w)" and "\<And>z. honestP c (\<lambda>(x, w). G z x w)"
  shows "honestP c (\<lambda>(x, w). case y x of None \<Rightarrow> F x w | Some z \<Rightarrow> G z x w)"
  using assms by (simp add: honest_def split: option.split)

lemmas honest_splits = honest_split_if honest_split_option honest_still honest_state

lemma honest_on_wal [honest_intros]: "honestP c m \<Longrightarrow> honestP c (on_wal m)"
  by (auto simp: honest_def on_wal_def split: prod.splits)

lemma honest_updS [honest_intros]: "honestP c (updS f)"
  unfolding updS_def by (rule honest_still)

lemma honest_onS [honest_intros]: "honestP c (onS m)"
  by (auto simp: honest_def onS_def split: prod.splits)

section \<open>System calls\<close>

lemma calm_puts [simp]:
  "calm (put_file p bs w) = put_file p bs (calm w)" "calm (del_file p w) = del_file p (calm w)"
  "calm (append_file p bs w) = append_file p bs (calm w)" "calm (make_dirs qs w) = make_dirs qs (calm w)"
  "calm (fs_unlock p w) = fs_unlock p (calm w)" "dir_exists (calm w) = dir_exists w" "dir_entries (calm w) = dir_entries w"
  by (auto simp: calm_def put_file_def del_file_def append_file_def make_dirs_def fs_unlock_def dir_exists_def dir_entries_def
      file_of_def fun_eq_iff split: option.splits)

lemma tick_simps [simp]: "w_clock (later n w) = w_clock w + n" "w_clock (make_dirs qs w) = w_clock w" "w_faults (make_dirs qs w) = w_faults w"
  by (simp_all add: later_def make_dirs_def)

lemma refault_simps [simp]:
  "refault f (put_file p bs w) = put_file p bs (refault f w)" "refault f (del_file p w) = del_file p (refault f w)"
  "refault f (append_file p bs w) = append_file p bs (refault f w)" "refault f (make_dirs qs w) = make_dirs qs (refault f w)"
  "refault f (fs_unlock p w) = fs_unlock p (refault f w)" "refault f (later n w) = later n (refault f w)"
  "refault f (w\<lparr>w_locks := ls\<rparr>) = (refault f w)\<lparr>w_locks := ls\<rparr>" "w_locks (refault f w) = w_locks w"
  "file_of (refault f w) = file_of w" "dir_exists (refault f w) = dir_exists w" "dir_entries (refault f w) = dir_entries w"
  "fault_now (refault f w) = f (w_clock w)"
  by (auto simp: refault_def put_file_def del_file_def append_file_def make_dirs_def fs_unlock_def dir_exists_def dir_entries_def
      file_of_def fun_eq_iff later_def fault_now_def split: option.splits)

lemma honest_tick:
  assumes "\<And>w. w_clock (snd (m w)) = w_clock w + 1 \<and> w_faults (snd (m w)) = w_faults w"
    and "\<And>w f. f (w_clock w) = fault_now w \<Longrightarrow> m (refault f w) = apsnd (refault f) (m w)"
    and "\<And>w e n. c \<Longrightarrow> fault_now w = Fault e n \<Longrightarrow> \<exists>x. fst (m w) = Err x"
  shows "honestW c m"
proof (rule honestI)
  fix w r w' assume run: "m w = (r, w')"
  have c: "w_clock w' = w_clock w + 1" "w_faults w' = w_faults w" using assms(1) [of w] run by simp_all
  then show "w_clock w \<le> w_clock w' \<and> w_faults w' = w_faults w" by simp
  show "m (refault f w) = (r, refault f w')" if "alike f w w'" for f
    using assms(2) [of f w] run that alike_tick [OF c(1)] by simp
  show "\<exists>e. r = Err e" if c "struck w w'"
    using assms(3) [of w] run that struck_tick [OF c(1)] by (cases "fault_now w") auto
qed

lemma honest_calls [honest_intros]:
  "honestW c (fs_open cr tr p)" "honestW c (fs_write_all p bs)" "honestW c (fs_sync_all p)" "honestW c (fs_set_len p n)"
  "honestW c (fs_metadata_len p)" "honestW c (fs_seek p off)" "honestW c (fs_read_exact p off len)"
  "honestW c (fs_read_to_end p)" "honestW c (fs_read_dir p)" "honestW c (fs_dir_entry p)" "honestW c (fs_remove_file p)"
  by (rule honest_tick; auto simp: fs_open_def fs_write_all_def fs_sync_all_def fs_set_len_def fs_metadata_len_def fs_seek_def
      fs_read_exact_def fs_read_to_end_def fs_read_dir_def fs_dir_entry_def fs_remove_file_def syscall_def
      simp del: later_simps split: fault.splits option.splits)+

lemma honest_create_dir [honest_intros]: "honestW c (fs_create_dir_all p)"
  by (rule honest_tick) (auto simp: fs_create_dir_all_def split: fault.splits)

lemma honest_silent [honest_intros]: "honestW False (fs_exists p)" "honestW False (fs_flock p)"
  by (rule honest_tick; auto simp: fs_exists_def fs_flock_def simp del: later_simps split: fault.splits)+

section \<open>Tables and the log\<close>

lemma honest_read_block [honest_intros]: "honestW c (read_block_from_disk p ie)"
  unfolding read_block_from_disk_def Let_def by (intro honest_intros)

lemma honest_read_blocks [honest_intros]: "honestW c (read_blocks P p ies)"
  by (induction ies) (auto intro!: honest_intros)

lemma honest_read_all [honest_intros]: "honestW c (read_all_entries P t)"
  unfolding read_all_entries_def by (intro honest_intros)

lemma honest_merge [honest_intros]: "honestW c (merge_layers (read_all_entries P) skip keep ts merged)"
  by (induction ts arbitrary: merged) (auto intro!: honest_intros)

lemma honest_sst_flush [honest_intros]: "honestW c (sst_flush P p es)"
  unfolding sst_flush_def by (intro honest_intros)

lemma honest_sst_open [honest_intros]: "honestW c (sst_open p)"
  unfolding sst_open_def Let_def by (intro honest_intros)

lemma honest_open_found [honest_intros]: "honestW c (open_found qs)"
  by (induction qs) (auto intro!: honest_intros)

lemma honest_cached_block [honest_intros]: "honestP c (cached_block ie)"
  unfolding cached_block_def case_prod_beta [of _ "cache_get _ _"] by (intro honest_splits honest_intros)

lemma honest_sst_get [honest_intros]: "honestP c (sst_get P key)"
  unfolding sst_get_def by (intro honest_splits honest_intros)

lemma honest_lookup: "honestP c (\<lambda>(ts, w). lookup_layers (sst_get P key) ts w)"
proof -
  have "w_clock w \<le> w_clock w' \<and> w_faults w' = w_faults w
      \<and> (\<forall>f. alike f w w' \<longrightarrow> lookup_layers (sst_get P key) ts (refault f w) = (r, (ts', refault f w')))
      \<and> (struck w w' \<longrightarrow> (\<exists>e. r = Err e))"
    if "lookup_layers (sst_get P key) ts w = (r, (ts', w'))" for ts w r ts' w'
    using that
  proof (induction ts arbitrary: w r ts' w')
    case (Cons t ts)
    obtain r1 t1 w1 where g: "sst_get P key (t, w) = (r1, (t1, w1))" using prod_cases3 by blast
    note G = honestD [OF honest_sst_get [of True] g, simplified]
    show ?case
    proof (cases "r1 = Ok None")
      case True
      obtain r2 ts2 w2 where l: "lookup_layers (sst_get P key) ts w1 = (r2, (ts2, w2))" using prod_cases3 by blast
      note L = Cons.IH [OF l]
      have w': "w' = w2" "r = r2" "ts' = t1 # ts2" using Cons.prems by (simp_all add: g True l)
      have "struck w w2 \<longleftrightarrow> struck w w1 \<or> struck w1 w2" using G L by (intro struck_trans) auto
      moreover have "alike f w w2 \<longleftrightarrow> alike f w w1 \<and> alike f w1 w2" for f using G L by (intro alike_trans) auto
      ultimately show ?thesis using G L True w' by auto
    next
      case False
      with Cons.prems have "r = r1" "ts' = t1 # ts" "w' = w1" by (auto simp: g split: outcome.splits option.splits)
      with G False show ?thesis by (auto split: outcome.splits option.splits)
    qed
  qed simp
  then show ?thesis by (intro honestI) (auto split: prod.splits)
qed

lemma honest_wal_writer [honest_intros]: "honestP c wal_writer"
  unfolding wal_writer_def by (intro honest_splits honest_intros)

lemma honest_wal_writes [honest_intros]: "honestP c (wal_append P e)" "honestP c (wal_write_commit P n)"
  unfolding wal_append_def wal_write_commit_def Let_def by (intro honest_intros)+

lemma honest_wal_clear [honest_intros]: "honestP c wal_clear"
  unfolding wal_clear_def by (intro honest_state honest_intros)

lemma honest_wal_read_file [honest_intros]: "honestW False (wal_read_file p)"
  unfolding wal_read_file_def by (intro honest_intros)

lemma honest_recovery [honest_intros]: "honestP False (wal_read_for_recovery P)"
  unfolding wal_read_for_recovery_def by (rule honest_state) (intro honest_intros)

section \<open>The store\<close>

lemma honest_write_merged [honest_intros]: "honestP c (write_merged P merged)"
  unfolding write_merged_def by (intro honest_splits honest_intros)

lemma honest_remove_files: "honestW False (\<lambda>w. (Ok (), remove_files ps w))"
proof (induction ps)
  case (Cons p ps)
  have "honestW False (\<lambda>w. (Ok (), snd (fs_remove_file p w)))"
    using honest_calls(11) [of False p] by (auto simp: honest_def) (metis prod.collapse snd_conv)+
  from honest_bindA [OF this Cons] show ?case by (simp add: bindA_def [abs_def])
qed (simp add: honest_intros)

lemma honest_compact [honest_intros]: "honestP False (compact P)"
proof -
  have "honestP False (\<lambda>(s :: store, w). (Ok (), (s, remove_files ps w)))" for ps
    using honest_remove_files [of ps] by (auto simp: honest_def)
  then show ?thesis unfolding compact_def Let_def by (intro honest_splits honest_intros)
qed

lemma honest_maybe_compact [honest_intros]: "honestP False (maybe_compact P)"
  unfolding maybe_compact_def by (intro honest_splits honest_intros)

lemma honest_flush [honest_intros]: "honestP False (flush P)"
  unfolding flush_def by (intro honest_splits honest_intros)

lemma honest_maybe_flush [honest_intros]: "honestP False (maybe_flush P)"
  unfolding maybe_flush_def by (intro honest_splits honest_intros)

lemma honest_append_pending [honest_intros]: "honestP c (append_pending P ps)"
proof (induction ps)
  case (Cons p ps)
  then show ?case by (cases p) (auto intro!: honest_splits honest_intros)
qed (simp add: honest_intros)

lemma honest_set_value: "honestP False (set_value P k v)" and honest_delete_value: "honestP False (delete_value P k)"
  unfolding set_value_def delete_value_def Let_def by (intro honest_splits honest_intros)+

lemma honest_scan_range: "honestP c (scan_range P lo hi)"
  unfolding scan_range_def by (intro honest_splits honest_intros)

lemma honest_get_value: "honestP c (get_value P key)"
proof (rule honest_mono, unfold honest_def, intro allI impI, goal_cases)
  case (1 s r s')
  obtain st w where s: "s = (st, w)" by fastforce
  obtain r1 ts w1 where l: "lookup_layers (sst_get P key) (st_sstables st) w = (r1, (ts, w1))" using prod_cases3 by blast
  note L = honestD [OF honest_lookup [of True P key], of "(st_sstables st, w)" r1 "(ts, w1)", simplified, OF l]
  show ?case
  proof (cases "bt_get (st_data st) key")
    case None
    with 1 have s': "r = bindO r1 (\<lambda>e. Ok (value_of_entry e))" "s' = (st\<lparr>st_sstables := ts\<rparr>, w1)"
      by (simp_all add: get_value_def s l)
    have "alike f w w1 \<Longrightarrow> get_value P key (st, refault f w) = (r, (st\<lparr>st_sstables := ts\<rparr>, refault f w1))" for f
      using L(3) [of f] None s' by (simp add: get_value_def)
    with L s' show ?thesis by (cases r1) (auto simp: s)
  next
    case (Some e)
    with 1 show ?thesis by (cases e) (simp_all add: get_value_def s, auto)
  qed
qed

lemma honest_catch:
  assumes "\<And>x. honestW False (m x)" and "\<And>y. honestP False (f y)"
  shows "honestP False (\<lambda>(x, w). case m x w of (Err e, w) \<Rightarrow> (Ok z, (x, w)) | (Panic, w) \<Rightarrow> (Panic, (x, w)) | (Ok y, w) \<Rightarrow> f y (x, w))"
proof (unfold honest_def, intro allI impI, goal_cases)
  case (1 s r s')
  obtain x w where s: "s = (x, w)" by fastforce
  obtain r1 w1 where m: "m x w = (r1, w1)" by fastforce
  note M = honestD [OF assms(1) m]
  show ?case
  proof (cases r1)
    case (Ok y)
    with 1 have f: "f y (x, w1) = (r, s')" by (simp add: s m)
    note F = honestD [OF assms(2) f]
    have "alike h w (snd s') \<longleftrightarrow> alike h w w1 \<and> alike h w1 (snd s')" for h using M(1,2) F(1) by (intro alike_trans) auto
    with M F Ok show ?thesis by (auto simp: s)
  qed (use M 1 in \<open>auto simp: s m\<close>)
qed

lemma honest_load [honest_intros]: "honestP False load_sstables"
  unfolding load_sstables_def by (intro honest_catch honest_intros)

lemma honest_replay [honest_intros]: "honestP False (replay_wal P)"
  unfolding replay_wal_def by (intro honest_intros)

lemma refault_drop_store: "drop_store s (refault f w) = refault f (drop_store s w)"
  by (simp add: drop_store_def split: option.split)

lemmas calm_drop_store = refault_drop_store [where f = "\<lambda>_. NoFault", unfolded refault_calm]

lemma drop_store_ticks [simp]: "w_clock (drop_store s w) = w_clock w" "w_faults (drop_store s w) = w_faults w"
  by (simp_all add: drop_store_def split: option.split)

lemma honest_wal_with_path [honest_intros]: "honestW False (wal_with_path p)"
  using honest_create_dir [of False] by (cases "path_parent p") (auto simp: honest_def wal_with_path_def prod_eq_iff)

lemma honest_open_path: "honestW False (open_path P d)"
proof -
  have "honestW False (\<lambda>w. case bindA load_sstables (\<lambda>_. replay_wal P) (s, w) of
           (Ok _, (s, w')) \<Rightarrow> (Ok s, w')
         | (Err e, (s, w')) \<Rightarrow> (Err e, drop_store s w')
         | (Panic, (s, w')) \<Rightarrow> (Panic, drop_store s w'))" for s
  proof -
    have H: "honestP False (bindA load_sstables (\<lambda>_. replay_wal P))" by (intro honest_intros)
    show ?thesis
    proof (unfold honest_def, intro allI impI, goal_cases)
      case (1 w r w')
      obtain r1 s1 w1 where b: "bindA load_sstables (\<lambda>_. replay_wal P) (s, w) = (r1, (s1, w1))" using prod_cases3 by blast
      note B = honestD [OF H b, simplified]
      have "alike f w w1 \<longleftrightarrow> alike f w w'" for f using 1 by (cases r1) (auto simp: b alike_def)
      with 1 B show ?case by (cases r1) (auto simp: b refault_drop_store)
    qed
  qed
  then show ?thesis unfolding open_path_def Let_def by (intro honest_intros)
qed

section \<open>Success without compaction\<close>

lemma honest_log_batch: "honestP c (log_batch P ps)"
  unfolding log_batch_def by (intro honest_splits honest_intros)

lemma flush_table_honest: "honestP c (flush_table P)"
  unfolding flush_table_def by (intro honest_splits honest_intros)

lemma flush_candid:
  assumes "flush P (s, w) = (Ok (), (s', w'))" and "length (st_sstables s) < MAX_SSTABLES"
  shows "\<not> struck w w'"
proof (cases "st_data s = []")
  case False
  obtain r1 s1 w1 where f: "flush_table P (s, w) = (r1, (s1, w1))" using prod_cases3 by blast
  have mc: "flush P (s, w) = (case r1 of Ok _ \<Rightarrow> maybe_compact P (s1, w1) | Err e \<Rightarrow> (Err e, (s1, w1)) | Panic \<Rightarrow> (Panic, (s1, w1)))"
    unfolding flush_split [OF False] bindA_def f by (simp split: outcome.split)
  with assms(1) have r1: "r1 = Ok ()" by (cases r1) simp_all
  have "length (st_sstables s1) = Suc (length (st_sstables s))"
    using flush_table_adds f r1 by fastforce
  with assms mc r1 have "w' = w1" by (simp add: maybe_compact_def)
  then show ?thesis using honestD(4) [OF flush_table_honest [of True] f] r1 by simp
qed (use assms(1) in \<open>simp add: flush_def\<close>)

lemma write_batch_candid:
  assumes "write_batch P ps (s, w) = (Ok (), (s', w'))" and "wal_holds (st_wal s) w bs"
    and "length (st_sstables s) < MAX_SSTABLES"
  shows "\<not> struck w w'"
proof -
  obtain r1 s1 w1 where l: "log_batch P ps (s, w) = (r1, (s1, w1))" using prod_cases3 by blast
  then have r1: "r1 = Ok ()" using assms(1) by (cases r1) (simp_all add: write_batch_def bindA_def)
  note L = honestD [OF honest_log_batch [of True] l, simplified]
  let ?s = "fold pending_apply ps s1"
  have f: "maybe_flush P (?s, w1) = (Ok (), (s', w'))" using assms(1) l r1 by (simp add: write_batch_def bindA_def updS_def)
  note F = honestD [OF honest_maybe_flush f, simplified]
  have "st_sstables s1 = st_sstables s" using log_batch_any [OF l assms(2)] by (metis store.select_convs(7) store.surjective store.update_convs(4,5))
  then have "length (st_sstables ?s) < MAX_SSTABLES" using assms(3) by (simp add: fold_pending_apply)
  then have "\<not> struck w1 w'" using f flush_candid [of P ?s w1] by (auto simp: maybe_flush_def split: if_splits)
  with struck_trans [OF L(1) F(1) L(2)] L(4) r1 show ?thesis by simp
qed

end
