(* ===== verification/Ferrum_Anomalies.thy ===== *)
theory Ferrum_Anomalies
  imports Ferrum_Faults Ferrum_Honest
begin

text \<open>
  Schedules after which \<open>ferrumdb-core/src/store.rs\<close> does not give back what was stored: a
  table file cut short by a failed flush makes its directory impossible to open, a compaction
  that stops after it removed its newest input brings a deleted key back, a directory whose
  listing fails is opened as if it had no tables, and a log that cannot be examined is skipped.
  At the end, a damaged index entry that stops the process.
\<close>

section \<open>A torn table keeps its directory closed\<close>

text \<open>A table file ends with the magic number and the version; a file that does not is refused.\<close>

definition ends_as_table :: "bytes \<Rightarrow> bool" where
  "ends_as_table c \<longleftrightarrow> FOOTER_LEN \<le> length c \<and> drop (length c - 8) c = MAGIC @ to_be_bytes32 VERSION"

lemma footer_end:
  assumes "\<not> ends_as_table c" and "FOOTER_LEN \<le> length c" and "take 4 (drop 20 (drop (length c - FOOTER_LEN) c)) = MAGIC"
  shows "(from_be_bytes (take 4 (drop 24 (drop (length c - FOOTER_LEN) c))) :: u32) \<noteq> VERSION"
proof
  let ?v = "take 4 (drop 24 (drop (length c - FOOTER_LEN) c))"
  assume "(from_be_bytes ?v :: u32) = VERSION"
  moreover have len: "length ?v = 4" using assms(2) by (simp add: FOOTER_LEN_def)
  ultimately have v: "?v = to_be_bytes32 VERSION" using to_from_be_bytes32 by metis
  have "drop (length c - 8) c = drop 20 (drop (length c - FOOTER_LEN) c)" using assms(2) by (simp add: FOOTER_LEN_def)
  also have "\<dots> = take 4 (drop 20 (drop (length c - FOOTER_LEN) c)) @ ?v"
    using append_take_drop_id [of 4 "drop (length c - 8) c"] assms(2) by (simp add: FOOTER_LEN_def)
  finally show False using assms(1-3) v by (simp add: ends_as_table_def)
qed

lemma sst_open_incomplete:
  assumes "quiet w" and "file_of w p = Some c" and "\<not> ends_as_table c"
  shows "\<exists>e n. sst_open p w = (Err e, later n w)"
proof (cases "length c < FOOTER_LEN \<or> \<not> length c - FOOTER_LEN < 2 ^ 63")
  case True
  then show ?thesis
    using assms by (auto simp: sst_open_def bindA_def fs_open_existing fs_metadata_quiet failA_def fs_seek_def syscall_quiet)
next
  case False
  define ft where "ft = drop (length c - FOOTER_LEN) c"
  have rd: "fs_read_exact p (length c - FOOTER_LEN) FOOTER_LEN (later k w) = (Ok ft, later (k + 1) w)" for k
    using assms(1,2) False by (simp add: fs_read_exact_quiet ft_def)
  have "take 4 (drop 20 ft) = MAGIC \<Longrightarrow> (from_be_bytes (take 4 (drop 24 ft)) :: u32) \<noteq> VERSION"
    using footer_end [OF assms(3)] False by (simp add: ft_def)
  then show ?thesis
    using assms False rd by (auto simp: sst_open_def bindA_def fs_open_existing fs_metadata_quiet failA_def fs_seek_quiet Let_def)
qed

lemma open_found_incomplete:
  assumes "quiet w" and "p \<in> set qs" and "sstable_id_from_path p = Some i"
    and "file_of w p = Some c" and "\<not> ends_as_table c"
  shows "fst (open_found qs w) \<noteq> Ok found"
  using assms(1,2,4)
proof (induction qs arbitrary: w found)
  case (Cons q qs)
  have entry: "fs_dir_entry q w = (Ok q, later 1 w)" using Cons.prems(1) by (simp add: fs_dir_entry_def syscall_quiet)
  show ?case
  proof (cases "q = p")
    case True
    obtain e n where "sst_open p (later 1 w) = (Err e, later n (later 1 w))"
      using sst_open_incomplete [of "later 1 w" p c] Cons.prems assms(5) by auto
    then show ?thesis using True assms(3) entry by (simp add: bindA_def)
  next
    case False
    obtain r1 w1 where o: "sst_open q (later 1 w) = (r1, w1)" by fastforce
    obtain n where n: "w1 = later n (later 1 w)" using readsD(1) [OF reads_sst_open, of q "later 1 w"] o by auto
    have IH: "fst (open_found qs (later k w)) \<noteq> Ok found" for k found
      using Cons.IH [of "later k w" found] Cons.prems False by simp
    have "fst (open_found qs w1) \<noteq> Ok found" for found using IH [of "n + 1"] n by simp
    then show ?thesis
      using IH [of 1] o by (auto simp: bindA_def entry returnA_def split: option.splits prod.splits outcome.splits) (metis fst_conv)+
  qed
qed simp

text \<open>What an open that fails without a fault leaves: every file as it was.\<close>

definition kept :: "world \<Rightarrow> world \<Rightarrow> bool" where
  "kept w w' \<longleftrightarrow> quiet w' \<and> (\<forall>q c. file_of w q = Some c \<longrightarrow> file_of w' q = Some c)"

lemma keptD: "kept w w' \<Longrightarrow> quiet w'" "kept w w' \<Longrightarrow> file_of w q = Some c \<Longrightarrow> file_of w' q = Some c"
  by (simp_all add: kept_def)

lemma kept_trans: "kept w w1 \<Longrightarrow> kept w1 w2 \<Longrightarrow> kept w w2"
  by (simp add: kept_def)

lemma kept_later: "quiet w \<Longrightarrow> kept w (later n w)"
  by (simp add: kept_def)

lemma kept_create_dir: "quiet w \<Longrightarrow> fs_create_dir_all d w = (r, w') \<Longrightarrow> kept w w'"
  by (auto simp: kept_def fs_create_dir_all_def make_dirs_def quiet_def later_def file_of_def split: if_splits)

lemma kept_open: "quiet w \<Longrightarrow> fs_open True False p w = (r, w') \<Longrightarrow> kept w w'"
  by (auto simp: kept_def fs_open_def syscall_quiet split: option.splits if_splits)

lemma kept_flock: "quiet w \<Longrightarrow> fs_flock p w = (r, w') \<Longrightarrow> kept w w'"
  by (auto simp: kept_def fs_flock_def quiet_def later_def file_of_def split: if_splits)

lemma kept_drop: "quiet w \<Longrightarrow> kept w (drop_store s w)"
  by (auto simp: kept_def drop_store_def split: option.split)

lemma create_dir_quiet:
  assumes "quiet w" and "fs_create_dir_all d w = (r, w')"
  shows "quiet w'" and "file_of w' = file_of w" and "dir_exists w q \<Longrightarrow> dir_exists w' q"
    and "r = Ok () \<Longrightarrow> dir_exists w' d"
proof -
  have w': "w' = later 1 w \<and> r \<noteq> Ok () \<or> w' = make_dirs (ancestors d) (later 1 w)"
    using assms by (auto simp: fs_create_dir_all_def split: if_splits)
  then show "quiet w'" and "file_of w' = file_of w" and "dir_exists w q \<Longrightarrow> dir_exists w' q"
    using assms(1) by (auto simp: make_dirs_def quiet_def later_def file_of_def dir_exists_def fun_eq_iff)
  show "dir_exists w' d" if "r = Ok ()"
    using w' that ancestors_self [of d] by (cases "d = []") (auto simp: dir_exists_def make_dirs_def)
qed

lemma create_dir_exists:
  assumes "quiet w" and "fs_create_dir_all d w = (Ok (), w')"
  shows "dir_exists w' d"
  using assms ancestors_self [of d]
  by (cases "d = []") (auto simp: fs_create_dir_all_def dir_exists_def make_dirs_def split: if_splits)

text \<open>An open whose loading and replaying cannot succeed, whatever else is in the directory.\<close>

lemma open_path_blocked:
  assumes "quiet w" and "open_path P d w = (r, w')"
    and "\<And>w4 r5 s5 w5. kept w w4 \<Longrightarrow> dir_exists w4 d \<Longrightarrow>
      bindA load_sstables (\<lambda>_. replay_wal P) (fresh_store d \<lparr>wal_path = d @ [''wal.log''], wal_file = None\<rparr> (d @ [''LOCK'']), w4)
        = (r5, (s5, w5)) \<Longrightarrow> r5 \<noteq> Ok () \<and> kept w4 w5"
  shows "(\<forall>s. r \<noteq> Ok s) \<and> kept w w'"
proof -
  let ?lock = "d @ [''LOCK'']" let ?wal = "d @ [''wal.log'']"
  obtain r1 w1 where m: "fs_create_dir_all d w = (r1, w1)" by fastforce
  obtain r2 w2 where op: "fs_open True False ?lock w1 = (r2, w2)" by fastforce
  obtain r3 w3 where fl: "fs_flock ?lock w2 = (r3, w3)" by fastforce
  have k1: "kept w w1" using kept_create_dir [OF assms(1) m] .
  have k2: "kept w w2" using kept_trans [OF k1 kept_open [OF keptD(1) [OF k1] op]] .
  have k3: "kept w w3" using kept_trans [OF k2 kept_flock [OF keptD(1) [OF k2] fl]] .
  show ?thesis
  proof (cases "r1 = Ok () \<and> r2 = Ok () \<and> r3 = Ok True")
    case True
    then have ok: "r1 = Ok ()" "r2 = Ok ()" "r3 = Ok True" by simp_all
    obtain r4 w4 where c4: "fs_create_dir_all d w3 = (r4, w4)" by fastforce
    then have wp: "wal_with_path ?wal w3 = (Ok \<lparr>wal_path = ?wal, wal_file = None\<rparr>, w4)"
      by (simp add: wal_with_path_def path_parent_def)
    have k4: "kept w w4" using kept_trans [OF k3 kept_create_dir [OF keptD(1) [OF k3] c4]] .
    have "dir_exists w1 d" using create_dir_exists [OF assms(1)] m ok(1) by simp
    then have "dir_exists w3 d"
      using fs_open_append_any(1) [OF op [unfolded ok(2)]] fs_flock_any [OF fl] by (auto simp: dir_exists_def touches_def locked_def)
    then have d4: "dir_exists w4 d" using create_dir_quiet(3) [OF keptD(1) [OF k3] c4] by simp
    obtain r5 s5 w5 where ld: "bindA load_sstables (\<lambda>_. replay_wal P)
        (fresh_store d \<lparr>wal_path = ?wal, wal_file = None\<rparr> ?lock, w4) = (r5, (s5, w5))" using prod_cases3 by blast
    note L = assms(3) [OF k4 d4 ld]
    then have "kept w (drop_store s5 w5)" using kept_trans [OF kept_trans [OF k4] kept_drop] keptD(1) by blast
    with L assms(2) show ?thesis
      by (cases r5) (auto simp: open_path_def bindA_def [of "fs_create_dir_all _"] bindA_def [of "fs_open _ _ _"]
          bindA_def [of "fs_flock _"] bindA_def [of "wal_with_path _"] m op fl ok wp ld Let_def)
  next
    case False
    with k1 k2 k3 assms(2) show ?thesis
      by (cases r1; cases r2; cases r3) (auto simp: open_path_def bindA_def m op fl Let_def failA_def split: if_splits)
  qed
qed

lemma open_path_incomplete:
  assumes "quiet w" and "file_of w (d @ [sst_file_name i]) = Some c" and "\<not> ends_as_table c"
    and "open_path P d w = (r, w')"
  shows "(\<forall>s. r \<noteq> Ok s) \<and> kept w w'"
proof (rule open_path_blocked [OF assms(1,4)])
  let ?p = "d @ [sst_file_name i]" let ?s = "fresh_store d \<lparr>wal_path = d @ [''wal.log''], wal_file = None\<rparr> (d @ [''LOCK''])"
  fix w4 r5 s5 w5
  assume k: "kept w w4" and d: "dir_exists w4 d" and run: "bindA load_sstables (\<lambda>_. replay_wal P) (?s, w4) = (r5, (s5, w5))"
  note q = keptD(1) [OF k] and f = keptD(2) [OF k assms(2)]
  have rd: "fs_read_dir d w4 = (Ok (dir_entries w4 d), later 1 w4)" using q d by (simp add: fs_read_dir_def syscall_quiet)
  have "?p \<in> set (dir_entries w4 d)" using f by (auto simp: dir_entries_def file_of_def dest: map_of_SomeD intro!: image_eqI)
  from open_found_incomplete [OF _ this id_of_sst_path _ assms(3), of "later 1 w4"] q f
  have bad: "fst (open_found (dir_entries w4 d) (later 1 w4)) \<noteq> Ok found" for found by simp
  obtain r s w5' where ld: "load_sstables (?s, w4) = (r, (s, w5'))" using prod_cases3 by blast
  then have "r \<noteq> Ok ()"
    using bad by (auto simp: load_sstables_def fresh_store_def rd bindA_def onW_def split: prod.splits outcome.splits)
  moreover obtain n where "w5' = later n w4" using load_sstables_any [of ?s w4] ld by auto
  ultimately show "r5 \<noteq> Ok () \<and> kept w4 w5" using run ld kept_later [OF q] by (cases r) (auto simp: bindA_def)
qed

text \<open>The same, again and again.\<close>

lemma blocked_for_good:
  assumes "\<And>w' r w''. kept w w' \<Longrightarrow> open_path P d w' = (r, w'') \<Longrightarrow> (\<forall>s. r \<noteq> Ok s) \<and> kept w' w''" and "quiet w"
  defines "again \<equiv> (\<lambda>n. ((\<lambda>w. snd (open_path P d w)) ^^ n) w)"
  shows "kept w (again n) \<and> fst (open_path P d (again n)) \<noteq> Ok s"
proof (induction n)
  case 0
  have "kept w w" using assms(2) by (simp add: kept_def)
  with assms(1) [OF this] show ?case by (cases "open_path P d w") (simp add: again_def)
next
  case (Suc n)
  obtain r w'' where o: "open_path P d (again n) = (r, w'')" by fastforce
  from assms(1) [OF _ this] Suc have k: "kept w w''" using kept_trans by blast
  obtain r' w3 where o': "open_path P d w'' = (r', w3)" by fastforce
  from assms(1) [OF k this] k o o' show ?case by (simp add: again_def)
qed

lemma incomplete_blocks:
  assumes "quiet w" and "file_of w (d @ [sst_file_name i]) = Some c" and "\<not> ends_as_table c"
  shows "kept w (((\<lambda>w. snd (open_path P d w)) ^^ n) w) \<and> fst (open_path P d (((\<lambda>w. snd (open_path P d w)) ^^ n) w)) \<noteq> Ok s"
  by (rule blocked_for_good [OF open_path_incomplete [OF keptD(1) keptD(2) [OF _ assms(2)] assms(3)] assms(1)])

section \<open>A length prefix that overflows\<close>

lemma open_path_panicking_log:
  assumes "quiet w" and "file_of w (d @ [''wal.log'']) = Some c" and "parse_buffer P c = Panic"
    and "open_path P d w = (r, w')"
  shows "(\<forall>s. r \<noteq> Ok s) \<and> kept w w'"
proof (rule open_path_blocked [OF assms(1,4)])
  let ?s = "fresh_store d \<lparr>wal_path = d @ [''wal.log''], wal_file = None\<rparr> (d @ [''LOCK''])"
  fix w4 r5 s5 w5
  assume k: "kept w w4" and run: "bindA load_sstables (\<lambda>_. replay_wal P) (?s, w4) = (r5, (s5, w5))"
  note q = keptD(1) [OF k] and f = keptD(2) [OF k assms(2)]
  obtain r s w6 where ld: "load_sstables (?s, w4) = (r, (s, w6))" using prod_cases3 by blast
  obtain n where n: "w6 = later n w4" using load_sstables_any [of ?s w4] ld by auto
  have "tidy d s" using keepsD [OF keeps_load_sstables, of d w4 "(?s, w4)"] tidy_fresh ld by simp
  then have "wal_path (st_wal s) = d @ [''wal.log'']" by (simp add: tidy_def wal_tidy_def)
  then have "\<exists>s' k. replay_wal P (s, w6) = (Panic, (s', later k w4))"
    using q f assms(3) by (auto simp: replay_wal_def on_wal_def onS_def wal_read_for_recovery_def wal_read_file_def bindA_def onW_def
        fs_exists_def fs_open_existing fs_read_to_end_quiet returnA_def liftO_def n)
  then show "r5 \<noteq> Ok () \<and> kept w4 w5"
    using run ld n kept_later [OF q] by (cases r) (auto simp: bindA_def)
qed

lemma panicking_log_blocks:
  assumes "quiet w" and "file_of w (d @ [''wal.log'']) = Some c" and "parse_buffer P c = Panic"
  shows "kept w (((\<lambda>w. snd (open_path P d w)) ^^ n) w) \<and> fst (open_path P d (((\<lambda>w. snd (open_path P d w)) ^^ n) w)) \<noteq> Ok s"
  by (rule blocked_for_good [OF open_path_panicking_log [OF keptD(1) keptD(2) [OF _ assms(2)] assms(3)] assms(1)])

section \<open>A compaction that stops half-way\<close>

lemma on_disk_delete:
  assumes "on_disk P w d (ids1 @ i # ids2) (ess1 @ es # ess2) log" and "length ids1 = length ess1"
  shows "on_disk P (later n (del_file (d @ [sst_file_name i]) w)) d (ids1 @ ids2) (ess1 @ ess2) log"
proof -
  let ?p = "d @ [sst_file_name i]"
  have "dir_holds P (later n (del_file ?p w)) d (ids1 @ ids2) (ess1 @ ess2)"
    using dir_holds_remove [of P w d ids1 i ids2 ess1 es ess2] assms by (simp only: dir_holds_later on_disk_def)
  moreover have "log_holds P (later n (del_file ?p w)) d log"
    using assms(1) by (simp add: on_disk_def log_holds_def contents_def)
  ultimately show ?thesis using assms(1) by (simp add: on_disk_def)
qed

text \<open>A compaction up to the removal of its inputs.\<close>

definition compact_write :: "prost \<Rightarrow> unit store_act" where
  "compact_write P = (\<lambda>(s, w).
     bindA (onW (merge_layers (read_all_entries P) (\<lambda>_. False) (\<lambda>_. True) (rev (st_sstables s)) [])) (\<lambda>merged.
       write_merged P (filter (\<lambda>(k, e). is_value e) merged)) (s, w))"

lemma honest_compact_write: "honestP c (compact_write P)"
  unfolding compact_write_def by (intro honest_splits honest_intros)

lemma compact_split:
  assumes "compact_write P (s, w) = (Ok (), (s', w1))" and "2 \<le> length (st_sstables s)"
  shows "compact P (s, w) = (Ok (), (s', remove_files (map sst_path (st_sstables s)) w1))"
  using assms by (auto simp: compact_write_def compact_def bindA_def Let_def split: prod.splits outcome.splits)

text \<open>
  A process that stops before tick \<open>T\<close>: from then on every call fails without effect.
\<close>

definition stops_at :: "nat \<Rightarrow> world \<Rightarrow> world" where
  "stops_at T w = refault (\<lambda>i. if i < T then w_faults w i else Fault ''stopped'' 0) w"

context prost_codec
begin

lemma represents_unique: "represents P w t es \<Longrightarrow> represents P w t es' \<Longrightarrow> es = es'"
  using read_all_entries_ok [of "calm w" t es] read_all_entries_ok [of "calm w" t es'] by auto

text \<open>The state right before the inputs are removed.\<close>

lemma compact_before_removal:
  assumes "quiet w" and "engine P w s ids ess log" and "room P w s 0"
  shows "\<exists>s' w1 ids1 ess1. compact_write P (s, w) = (Ok (), (s', w1))
    \<and> quiet w1 \<and> on_disk P w1 (st_dir s) (ids1 @ ids) (ess1 @ ess) log \<and> length ids1 = length ess1
    \<and> (\<forall>k. map_of (concat ess1) k = (case map_of (concat ess) k of Some (Value v) \<Rightarrow> Some (Value v) | _ \<Rightarrow> None))"
proof -
  have E: "list_all2 (represents P w) (st_sstables s) ess" using assms(2) by (simp add: engine_def)
  have le: "4 * length (block_bytes P (st_data s @ concat ess)) + 100 < 2 ^ 32"
    and id: "unat (next_sstable_id s) + 1 < 2 ^ 64"
    using assms(3) stored_bytes_engine [OF assms(2)] by (simp_all add: room_def)
  from merge_tables [OF assms(1) E] obtain m n where
    m: "merge_layers (read_all_entries P) (\<lambda>_. False) (\<lambda>_. True) (rev (st_sstables s)) [] w = (Ok m, later n w)"
      "bt_sorted m" "map_of m = map_of (concat ess)" "set m \<subseteq> set (concat ess)" by blast
  define es where "es = filter (\<lambda>(k, e). is_value e) m"
  have es: "bt_sorted es" "set es \<subseteq> set (concat ess)"
    "map_of es k = (case map_of (concat ess) k of Some (Value v) \<Rightarrow> Some (Value v) | _ \<Rightarrow> None)" for k
    using m map_of_live [OF m(2), of k] by (auto simp: es_def bt_sorted_filter)
  have fits: "table_fits P es"
    using le block_bytes_subset [OF distinct_of_keys [OF es(1)] es(2), of P] by (intro table_fits_size) simp
  have e1: "engine P (later n w) s ids ess log" using assms(2) by simp
  have cw: "compact_write P (s, w) = write_merged P es (s, later n w)"
    by (simp add: compact_write_def bindA_def onW_def m(1) flip: es_def)
  show ?thesis
  proof (cases "es = []")
    case True
    then have "compact_write P (s, w) = (Ok (), (s\<lparr>st_sstables := []\<rparr>, later n w))"
      by (simp add: cw updS_def write_merged_def)
    with engine_on_disk [OF e1] assms(1) es(3) True show ?thesis
      by (intro exI [of _ "s\<lparr>st_sstables := []\<rparr>"] exI [of _ "later n w"] exI [of _ "[]"]) simp
  next
    case False
    let ?p = "st_dir s @ [sst_file_name (next_sstable_id s)]"
    from add_table [OF _ e1 es(1) fits id] assms(1) obtain w1 where
      w1: "sst_flush P ?p es (later n w) = (Ok (table_of P ?p es), w1)" "quiet w1" "touches ?p (later n w) w1"
        "file_of w1 ?p = Some (sst_image P es)" by auto
    let ?s = "s\<lparr>next_sstable_id := next_sstable_id s + 1, st_sstables := [table_of P ?p es]\<rparr>"
    have "compact_write P (s, w) = (Ok (), (?s, w1))"
      using w1(1) False by (simp add: cw bindA_def onW_def updS_def write_merged_def)
    moreover have "on_disk P w1 (st_dir s) ([next_sstable_id s] @ ids) ([es] @ ess) log"
      using on_disk_added [OF e1 es(1) fits id w1(3,4)] by simp
    ultimately show ?thesis
      using w1(2) es(3) by (intro exI [of _ ?s] exI [of _ w1] exI [of _ "[next_sstable_id s]"] exI [of _ "[es]"]) simp
  qed
qed

lemma compact_stopped:
  assumes "quiet w" and "compact_write P (s, w) = (Ok (), (s', w1))" and "quiet w1"
    and "st_sstables s = [t_new, t_old]" and "file_of w1 (sst_path t_new) \<noteq> None"
  defines "T \<equiv> Suc (w_clock w1)"
  shows "compact P (s, stops_at T w) = (Ok (), (s', later 2 (del_file (sst_path t_new) (stops_at T w1))))"
proof -
  define f where "f = (\<lambda>i. if i < T then w_faults w i else Fault ''stopped'' 0)"
  note H = honestD [OF honest_compact_write assms(2), simplified]
  have w1: "stops_at T w = refault f w" "stops_at T w1 = refault f w1" unfolding stops_at_def f_def H(2) by (rule refl)+
  have "alike f w w1" by (simp add: alike_def f_def T_def)
  from H(3) [OF this] have "compact_write P (s, refault f w) = (Ok (), (s', refault f w1))" .
  from compact_split [OF this] assms(4) have
    run: "compact P (s, refault f w) = (Ok (), (s', remove_files [sst_path t_new, sst_path t_old] (refault f w1)))" by simp
  have "f (w_clock w1) = NoFault" using assms(1) H(1) by (simp add: f_def T_def quiet_def)
  then have "fs_remove_file (sst_path t_new) (refault f w1) = (Ok (), later 1 (del_file (sst_path t_new) (refault f w1)))"
    using assms(5) by (auto simp: fs_remove_file_def syscall_def simp flip: later_simps)
  moreover have "snd (fs_remove_file (sst_path t_old) (later 1 (del_file (sst_path t_new) (refault f w1))))
      = later 2 (del_file (sst_path t_new) (refault f w1))"
  proof -
    have "fault_now (later 1 (del_file (sst_path t_new) (refault f w1))) = Fault ''stopped'' 0"
      by (simp add: fault_now_def later_def del_file_def refault_def f_def T_def)
    then show ?thesis by (simp add: fs_remove_file_def syscall_def)
  qed
  ultimately show ?thesis using run by (simp add: w1)
qed

lemma compact_resurrects:
  assumes "quiet w" and "models P w s m" and "room P w s 0" and "st_sstables s = [t_new, t_old]"
    and "represents P w t_new es_new" and "represents P w t_old es_old"
    and "map_of (st_data s) k = None" and "map_of es_new k = Some Tombstone" and "map_of es_old k = Some (Value v)"
  shows "m k = None \<and> (\<exists>T s' w' m'. compact P (s, stops_at T w) = (Ok (), (s', w'))
    \<and> recovers P w' (st_dir s) m' \<and> m' k = Some v)"
proof -
  obtain ids ess log where e: "engine P w s ids ess log" "m = view (st_data s) ess"
    using assms(2) by (rule modelsE)
  have "list_all2 (represents P w) [t_new, t_old] ess" using e(1) assms(4) by (simp add: engine_def)
  then have ess: "ess = [es_new, es_old]"
    using assms(5,6) represents_unique by (auto simp: list_all2_Cons1)
  have "map sst_path [t_new, t_old] = map (\<lambda>i. st_dir s @ [sst_file_name i]) ids"
    using e(1) assms(4) by (simp add: engine_def)
  then obtain i j where ids: "ids = [i, j]" "sst_path t_new = st_dir s @ [sst_file_name i]" by auto
  have data: "log_data P log = st_data s" using e(1) by (simp add: engine_def)
  from compact_before_removal [OF assms(1) e(1) assms(3)] obtain s' w1 ids1 ess1 where
    c: "compact_write P (s, w) = (Ok (), (s', w1))" "quiet w1"
      "on_disk P w1 (st_dir s) (ids1 @ i # [j]) (ess1 @ es_new # [es_old]) log" "length ids1 = length ess1"
      "map_of (concat ess1) k = None"
    using assms(8) ess by (auto simp: ids(1))
  let ?p = "sst_path t_new"
  have "file_of w1 ?p \<noteq> None"
    using dir_holds_parts(4) [of P w1 "st_dir s" "ids1 @ [i, j]" "ess1 @ [es_new, es_old]"] c(3,4) ids(2) by (auto simp: on_disk_def list_all2_append)
  from compact_stopped [OF assms(1) c(1,2) assms(4) this] obtain T where
    run: "compact P (s, stops_at T w) = (Ok (), (s', later 2 (del_file ?p (stops_at T w1))))" ..
  have "on_disk P (stops_at T w1) (st_dir s) (ids1 @ i # [j]) (ess1 @ es_new # [es_old]) log"
    by (rule on_disk_files [OF c(3)]) (simp_all add: stops_at_def refault_def)
  from on_disk_recovers [OF on_disk_delete [OF this c(4), of 2]] ids(2)
  have "recovers P (later 2 (del_file ?p (stops_at T w1))) (st_dir s) (view (log_data P log) (ess1 @ [es_old]))" by simp
  moreover have "view (log_data P log) (ess1 @ [es_old]) k = Some v"
    using c(5) assms(7,9) data by (simp add: view_def map_add_def)
  moreover have "m k = None" using e(2) ess assms(7,8) by (simp add: view_def map_add_def)
  ultimately show ?thesis using run by blast
qed

end

section \<open>A directory that cannot be listed\<close>

lemma load_unreadable: "fault_now w = Fault e n \<Longrightarrow> load_sstables (s, w) = (Ok (), (s, later 1 w))"
  by (simp add: load_sstables_def fs_read_dir_def syscall_def)

lemma create_dir_nofault:
  "fault_now w = NoFault \<Longrightarrow> dir_ready w d \<Longrightarrow> fs_create_dir_all d w = (Ok (), later 1 w)"
  using create_dir_ready_any [of w d] by (auto simp: fs_create_dir_all_def dir_ready_def)

lemma fault_now_later: "fault_now (later n w) = w_faults w (w_clock w + n)"
  by (simp add: fault_now_def later_def)

lemma dir_ready_locked [simp]: "dir_ready (locked p w) d = dir_ready w d"
  by (simp add: dir_ready_def)

context prost_codec
begin

text \<open>A flush of a store without tables writes over what is in the place of its table.\<close>

lemma flush_alone:
  assumes "quiet w" and "st_data s \<noteq> []" and "table_fits P (st_data s)" and "st_sstables s = []"
    and "wal_holds (st_wal s) w bs" and "wal_path (st_wal s) = st_dir s @ [''wal.log'']"
    and "st_dir s @ [sst_file_name (next_sstable_id s)] \<notin> set (w_dirs w)"
  shows "\<exists>s2 w2. flush P (s, w) = (Ok (), (s2, w2))
    \<and> file_of w2 (st_dir s @ [sst_file_name (next_sstable_id s)]) = Some (sst_image P (st_data s))"
proof -
  let ?p = "st_dir s @ [sst_file_name (next_sstable_id s)]"
  let ?w = "later 4 (put_file ?p (sst_image P (st_data s)) w)"
  have ready: "dir_ready w (st_dir s)" using assms(5,6) by (simp add: wal_holds_def writable_at_def)
  then have "writable_at w ?p" using assms(7) by (simp add: writable_at_def path_parent_def sst_file_name_def)
  then have fl: "sst_flush P ?p (st_data s) w = (Ok (table_of P ?p (st_data s)), ?w)"
    using sst_flush_ok [OF assms(1)] table_fits_bounds(4) [OF assms(3)] by simp
  have "touches ?p w ?w" using touches_trans [OF touches_put_file touches_later] .
  from touches_dir_ready [OF this, of "st_dir s"] have "dir_ready ?w (st_dir s)"
    using ready child_not_ancestor [of ?p "st_dir s"] by simp
  then have "wal_holds (st_wal s) ?w bs"
    using assms(5,6) by (auto simp: wal_holds_def contents_def writable_at_def)
  from wal_clear_ok [OF _ this] assms(1) obtain l w2 where
    c: "wal_clear (st_wal s, ?w) = (Ok (), (l, w2))" "touches (wal_path (st_wal s)) ?w w2" by auto
  have "file_of w2 ?p = Some (sst_image P (st_data s))" using c(2) by (simp add: touches_def assms(6))
  then show ?thesis
    using assms(2,4) fl c(1) by (simp add: flush_def bindA_def onW_def updS_def on_wal_def maybe_compact_def MAX_SSTABLES_def)
qed

lemma open_unreadable:
  assumes "on_disk P w d ids ess log" and "dir_ready w d" and "file_of w (d @ [''LOCK'']) = Some c"
    and "d @ [''LOCK''] \<notin> set (w_locks w)" and "w_faults w = (\<lambda>_. NoFault)(w_clock w + 4 := Fault e n)"
  shows "\<exists>s w'. open_path P d w = (Ok s, w') \<and> st_sstables s = [] \<and> next_sstable_id s = 1 \<and> st_data s = log_data P log
    \<and> (\<forall>i. file_of w' (d @ [sst_file_name i]) = file_of w (d @ [sst_file_name i]))
    \<and> (st_data s \<noteq> [] \<and> table_fits P (st_data s) \<longrightarrow>
         (\<exists>s2 w2. flush P (s, w') = (Ok (), (s2, w2)) \<and> file_of w2 (d @ [sst_file_name 1]) = Some (sst_image P (st_data s))))"
proof -
  let ?lock = "d @ [''LOCK'']" let ?wal = "d @ [''wal.log'']" let ?l = "\<lparr>wal_path = ?wal, wal_file = None\<rparr>"
  let ?w = "later 5 (locked ?lock w)" let ?s = "fresh_store d ?l ?lock"
  have c: "fault_now (later k w) = (if k = 4 then Fault e n else NoFault)"
    "fault_now (later k (locked ?lock w)) = (if k = 4 then Fault e n else NoFault)" for k
    using assms(5) by (simp_all add: fault_now_later)
  have 1: "fs_create_dir_all d w = (Ok (), later 1 w)"
    using create_dir_nofault [OF _ assms(2)] c(1) [of 0] by simp
  have 2: "fs_open True False ?lock (later 1 w) = (Ok (), later 2 w)"
    using assms(3) c(1) [of 1] by (simp add: fs_open_def syscall_def)
  have 3: "fs_flock ?lock (later 2 w) = (Ok True, later 3 (locked ?lock w))"
    using assms(4) c(1) [of 2] by (simp add: fs_flock_def locked_def later_def)
  have 4: "wal_with_path ?wal (later 3 (locked ?lock w)) = (Ok ?l, later 4 (locked ?lock w))"
    using create_dir_nofault [of "later 3 (locked ?lock w)" d] assms(2) c(2) [of 3]
    by (simp add: wal_with_path_def path_parent_def)
  have 5: "load_sstables (?s, later 4 (locked ?lock w)) = (Ok (), (?s, ?w))"
    using load_unreadable [of "later 4 (locked ?lock w)" e n ?s] c(2) [of 4] by simp
  have quiet: "quiet ?w" using assms(5) by (auto simp: quiet_def later_def locked_def)
  obtain es rest where log: "contents w ?wal = frames P es @ rest" "torn rest"
      "length (frames P es) < 2 ^ 62" "committed (is_commit P) es = log" "list_all (log_ok P) log"
    using assms(1) by (auto simp: on_disk_def log_holds_def)
  have "wal_holds ?l ?w (frames P es @ rest)"
    using assms(1,2) log(1) by (simp add: wal_holds_def writable_at_def contents_def path_parent_def on_disk_def)
  from wal_recovery_ok [OF quiet this log(2,3)] obtain l' w' where
    rec: "wal_read_for_recovery P (?l, ?w) = (Ok log, (l', w'))" "touches ?wal ?w w'" "wal_path l' = ?wal"
      "wal_holds l' w' (frames P log)" using log(4) by auto
  have comm: "committed (is_commit P) log = log" using log(4) by auto
  let ?r = "replayed P log (?s\<lparr>st_wal := l'\<rparr>)"
  have "open_path P d w = (Ok ?r, w')"
    using 1 2 3 4 5 rec(1) replay_loop_committed [OF log(5) comm]
    by (simp add: open_path_def bindA_def Let_def replay_wal_def on_wal_def onS_def) (simp add: fresh_store_def)
  moreover have "st_data ?r = log_data P log" by (rule replayed_fresh) (simp_all add: fresh_store_def)
  moreover have R: "st_sstables ?r = []" "next_sstable_id ?r = 1" "st_dir ?r = d" "st_wal ?r = l'"
    by (simp_all add: replayed_def fresh_store_def)
  moreover have files: "file_of w' (d @ [sst_file_name i]) = file_of w (d @ [sst_file_name i])" for i
    using rec(2) by (simp add: touches_def)
  moreover have "\<exists>s2 w2. flush P (?r, w') = (Ok (), (s2, w2)) \<and> file_of w2 (d @ [sst_file_name 1]) = Some (sst_image P (st_data ?r))"
    if "st_data ?r \<noteq> []" "table_fits P (st_data ?r)"
  proof -
    note D = dir_holds_parts [of P w d ids ess]
    have "d @ [sst_file_name 1] \<notin> set (w_dirs w)"
    proof
      assume "d @ [sst_file_name 1] \<in> set (w_dirs w)"
      moreover from this have "1 \<in> set ids" using D(5) [of "d @ [sst_file_name 1]" 1] assms(1) by (simp add: on_disk_def)
      then have "file_of w (d @ [sst_file_name 1]) \<noteq> None"
        using D(4) assms(1) by (fastforce simp: on_disk_def list_all2_conv_all_nth in_set_conv_nth)
      ultimately show False using D(1) assms(1) by (auto simp: on_disk_def fs_wf_def)
    qed
    then have "d @ [sst_file_name 1] \<notin> set (w_dirs w')" using rec(2) by (simp add: touches_def locked_def)
    moreover have "quiet w'" using touches_quiet [OF rec(2) quiet] .
    ultimately show ?thesis using flush_alone [of w' ?r "frames P log"] that R rec(3,4) by simp
  qed
  ultimately show ?thesis by blast
qed

end

section \<open>A log that cannot be examined\<close>

text \<open>
  \<open>Path::exists\<close> answers no when the file cannot be examined: recovery then goes on as if there
  were no log, and the next flush clears the one that is there.
\<close>

lemma unexamined_log_skipped:
  "fault_now w = Fault e n \<Longrightarrow> replay_wal P (s, w) = (Ok (), (s, later 1 w))"
  by (cases s) (simp add: replay_wal_def on_wal_def wal_read_for_recovery_def wal_read_file_def
      fs_exists_def bindA_def onW_def onS_def returnA_def)

section \<open>A damaged index entry\<close>

text \<open>
  The index region has no checksum, so a damaged file can hold an entry whose block length is
  below the four bytes of a block's checksum. Reading that block stops the process.
\<close>

lemma read_block_short:
  assumes "quiet w" and "file_of w p = Some c" and "unat (ie_block_len ie) < 4"
    and "unat (ie_block_offset ie) + unat (ie_block_len ie) \<le> length c" and "unat (ie_block_offset ie) < 2 ^ 63"
  shows "read_block_from_disk p ie w = (Panic, later 2 w)"
proof -
  have "fs_read_exact p (unat (ie_block_offset ie)) (unat (ie_block_len ie)) (later 1 w) =
      (Ok (take (unat (ie_block_len ie)) (drop (unat (ie_block_offset ie)) c)), later 2 w)"
    using assms by (simp add: fs_read_exact_def syscall_quiet)
  with assms show ?thesis
    by (simp add: read_block_from_disk_def bindA_def fs_seek_quiet panicA_def)
qed

lemma get_short_block_panics:
  assumes "quiet w" and "file_of w (sst_path t) = Some c" and "unat (ie_block_len ie) < 4"
    and "unat (ie_block_offset ie) + unat (ie_block_len ie) \<le> length c" and "unat (ie_block_offset ie) < 2 ^ 63"
    and "cache_get (ie_block_offset ie) (sst_cache t) = (None, c')"
    and "sst_index t ! i = ie" and "find_block t key = Some i" and "sst_index t \<noteq> []"
    and "\<not> out_of_range t key" and "bloom_rejects t key = Ok False"
  shows "fst (sst_get P key (t, w)) = Panic"
proof -
  have "fst (cached_block ie (t, w)) = Panic"
    using assms(1-6) read_block_short [of "later 1 w" "sst_path t" c ie]
    by (simp add: cached_block_def bindA_def onW_def fs_open_existing)
  with assms(7-) show ?thesis
    by (cases "cached_block ie (t, w)") (simp add: sst_get_def bindA_def liftO_def)
qed

section \<open>Sequence numbers\<close>

text \<open>
  The sequence number comes from the log alone. After a flush the log is empty, so a store that is
  opened then starts again from 0, and gives out numbers that it has given out before.
\<close>

context prost_codec
begin

lemma restart_forgets_sequence:
  assumes "quiet w" and "engine P w s ids ess log" and "st_data s \<noteq> []" and "room P w s 0"
  shows "\<exists>s1 w1 s' w'. flush P (s, w) = (Ok (), (s1, w1)) \<and> open_path P (st_dir s1) (drop_store s1 w1) = (Ok s', w')
    \<and> st_sequence s' = 0"
proof -
  have "4 * length (block_bytes P (st_data s @ concat ess)) + 100 < 2 ^ 32" "unat (next_sstable_id s) + 2 < 2 ^ 64"
    using assms(4) stored_bytes_engine [OF assms(2)] by (simp_all add: room_def)
  from flush_engine [OF assms(1-3) this] obtain s1 w1 ids' ess' where
    f: "flush P (s, w) = (Ok (), (s1, w1))" "quiet w1" "engine P w1 s1 ids' ess' []" by blast
  have drop: "drop_store s1 w1 = fs_unlock (st_dir s1 @ [''LOCK'']) w1" using f(3) by (simp add: drop_store_def engine_def)
  have "on_disk P (drop_store s1 w1) (st_dir s1) ids' ess' []" using engine_on_disk [OF f(3)] by (simp add: drop)
  moreover have "st_dir s1 @ [''LOCK''] \<notin> set (w_locks (drop_store s1 w1))" by (simp add: drop fs_unlock_def)
  moreover have "quiet (drop_store s1 w1)" using f(2) by (simp add: drop)
  ultimately show ?thesis using open_path_ok f(1) by fastforce
qed

end

end
