(* ===== verification/Ferrum_Torn.thy ===== *)
theory Ferrum_Torn
  imports Ferrum_Crash
begin

text \<open>
  A write to the log that fails while the process goes on. The bytes it left are not taken back: the
  next commit adopts an entry whose own commit failed, and a frame that was cut short swallows
  the frames of the writes that follow it. Both are shown for any store whose log is open.
\<close>

section \<open>Writing after a failure\<close>

text \<open>A write into a quiet world, whatever the log holds.\<close>

lemma write_quiet:
  assumes "quiet w" and "wal_holds (st_wal s) w bs" and "memtable_bytes (memtable_insert k (Value v) s) < memtable_max_bytes s"
  shows "\<exists>l q w'. set_value P k v (s, w) = (Ok ''Inserted value'', (memtable_insert k (Value v) (s\<lparr>st_wal := l, st_sequence := q\<rparr>), w'))
    \<and> quiet w' \<and> touches (wal_path (st_wal s)) w w' \<and> wal_path l = wal_path (st_wal s)
    \<and> wal_holds l w' (bs @ frames P (batch_log (st_sequence s) [(k, Some v)]))"
proof -
  from log_batch_ok [OF assms(1,2), of P "[(k, Some v)]"] obtain s1 w1 where
    l: "log_batch P [(k, Some v)] (s, w) = (Ok (), (s1, w1))" "quiet w1" "touches (wal_path (st_wal s)) w w1"
      "s1 = s\<lparr>st_wal := st_wal s1, st_sequence := st_sequence s1\<rparr>" "wal_path (st_wal s1) = wal_path (st_wal s)"
      "wal_holds (st_wal s1) w1 (bs @ frames P (batch_log (st_sequence s) [(k, Some v)]))" by blast
  let ?s2 = "memtable_insert k (Value v) s1"
  have "memtable_bytes (memtable_insert k (Value v) (s\<lparr>st_wal := l, st_sequence := q\<rparr>)) = memtable_bytes (memtable_insert k (Value v) s)" for l q
    by (simp add: memtable_insert_sequence memtable_insert_wal)
  then have "\<not> memtable_max_bytes ?s2 \<le> memtable_bytes ?s2" using assms(3) l(4) by (metis memtable_insert_fields(2) not_le store.select_convs(3) store.surjective store.update_convs(4,5))
  then have "set_value P k v (s, w) = (Ok ''Inserted value'', (?s2, w1))"
    using l(1) by (simp add: set_value_batch write_batch_def bindA_def updS_def pending_apply_def maybe_flush_def)
  with l show ?thesis by metis
qed

lemma get_inserted: "fst (get_value P k (memtable_insert k (Value v) s, w)) = Ok (Some v)"
  by (simp add: get_value_def map_of_bt_insert)

section \<open>The failing write\<close>

text \<open>
  The log is open. \<open>append_fails x n w\<close>: the first call of the file system writes only \<open>n\<close> bytes and
  fails; \<open>commit_fails x n w\<close>: the first call succeeds and the second fails. Nothing else fails.
\<close>

definition append_fails :: "string \<Rightarrow> nat \<Rightarrow> world \<Rightarrow> bool" where
  "append_fails x n w \<longleftrightarrow> w_faults w (w_clock w) = Fault x n \<and> (\<forall>i > w_clock w. w_faults w i = NoFault)"

definition commit_fails :: "string \<Rightarrow> nat \<Rightarrow> world \<Rightarrow> bool" where
  "commit_fails x n w \<longleftrightarrow> w_faults w (w_clock w) = NoFault \<and> w_faults w (w_clock w + 1) = Fault x n
     \<and> (\<forall>i > w_clock w + 1. w_faults w i = NoFault)"

text \<open>The write itself, whether it succeeds or not.\<close>

definition appended :: "path \<Rightarrow> bytes \<Rightarrow> world \<Rightarrow> world" where
  "appended p bs w = append_file p bs (later 1 w)"

lemma fs_write_appended:
  "fault_now w = NoFault \<Longrightarrow> fs_write_all p bs w = (Ok (), appended p bs w)"
  "fault_now w = Fault x n \<Longrightarrow> fs_write_all p bs w = (Err (IoError x), appended p (take n bs) w)"
  by (simp_all add: fs_write_all_def appended_def)

lemma appended_simps [simp]:
  "w_faults (appended p bs w) = w_faults w" "w_clock (appended p bs w) = w_clock w + 1"
  by (simp_all add: appended_def append_file_def later_def put_file_def split: option.split)

lemma appended_holds:
  assumes "wal_holds l w bs" and "wal_file l = Some h"
  shows "wal_holds l (appended (wal_path l) xs w) (bs @ xs)" and "touches (wal_path l) w (appended (wal_path l) xs w)"
    and "h = wal_path l"
proof -
  show h: "h = wal_path l" using assms by (simp add: wal_holds_def)
  show t: "touches (wal_path l) w (appended (wal_path l) xs w)"
    unfolding appended_def by (rule touches_trans [OF touches_later touches_append_file])
  have "file_of w (wal_path l) = Some bs" using assms by (auto simp: wal_holds_def contents_def split: option.splits)
  then have "file_of (appended (wal_path l) xs w) (wal_path l) = Some (bs @ xs)" by (simp add: appended_def append_file_def)
  then show "wal_holds l (appended (wal_path l) xs w) (bs @ xs)"
    using assms touches_writable [OF t] by (auto simp: wal_holds_def contents_def)
qed

lemma failed_append:
  assumes "wal_holds (st_wal s) w bs" and "wal_file (st_wal s) = Some h" and "append_fails x n w"
  shows "\<exists>w'. set_value P k v (s, w) = (Err (IoError x), (s\<lparr>st_sequence := st_sequence s + 1\<rparr>, w')) \<and> quiet w'
    \<and> touches (wal_path (st_wal s)) w w'
    \<and> wal_holds (st_wal s) w' (bs @ take n (frame P (create_put_entry k v (st_sequence s + 1))))"
proof -
  let ?xs = "take n (frame P (create_put_entry k v (st_sequence s + 1)))"
  note A = appended_holds [OF assms(1,2)]
  have "fault_now w = Fault x n" using assms(3) by (simp add: append_fails_def fault_now_def)
  then have "set_value P k v (s, w) = (Err (IoError x), (s\<lparr>st_sequence := st_sequence s + 1\<rparr>, appended (wal_path (st_wal s)) ?xs w))"
    using assms(2) A(3)
    by (simp add: set_value_def bindA_def updS_def on_wal_def wal_append_def wal_writer_def onW_def fs_write_appended Let_def)
  moreover have "quiet (appended (wal_path (st_wal s)) ?xs w)"
    using assms(3) by (simp add: append_fails_def quiet_def)
  ultimately show ?thesis using A by blast
qed

lemma failed_commit:
  assumes "wal_holds (st_wal s) w bs" and "wal_file (st_wal s) = Some h" and "commit_fails x 0 w"
  shows "\<exists>w'. set_value P k v (s, w) = (Err (IoError x), (s\<lparr>st_sequence := st_sequence s + 1\<rparr>, w')) \<and> quiet w'
    \<and> touches (wal_path (st_wal s)) w w'
    \<and> wal_holds (st_wal s) w' (bs @ frame P (create_put_entry k v (st_sequence s + 1)))"
proof -
  let ?p = "wal_path (st_wal s)" and ?xs = "frame P (create_put_entry k v (st_sequence s + 1))"
  let ?w1 = "appended ?p ?xs w"
  note A = appended_holds [OF assms(1,2)]
  have A2: "wal_holds (st_wal s) (appended ?p [] ?w1) (bs @ ?xs)" "touches ?p ?w1 (appended ?p [] ?w1)"
    using appended_holds(1,2) [OF A(1) [of ?xs] assms(2), of "[]"] by simp_all
  have "fault_now w = NoFault" "fault_now ?w1 = Fault x 0"
    using assms(3) by (simp_all add: commit_fails_def fault_now_def)
  then have "set_value P k v (s, w) = (Err (IoError x), (s\<lparr>st_sequence := st_sequence s + 1\<rparr>, appended ?p [] ?w1))"
    using assms(2) A(3)
    by (simp add: set_value_def bindA_def updS_def on_wal_def wal_append_def wal_write_commit_def wal_writer_def onW_def
        fs_write_appended Let_def)
  moreover have "quiet (appended ?p [] ?w1)"
    using assms(3) by (simp add: commit_fails_def quiet_def)
  ultimately show ?thesis using A(2) A2 touches_trans by blast
qed

section \<open>What a restart finds\<close>

context prost_codec
begin

text \<open>The entry whose commit failed comes back with the next write that is committed.\<close>

lemma failed_commit_adopted:
  assumes "models P w s m" and "wal_file (st_wal s) = Some h" and "commit_fails x 0 w"
    and "room P w s (batch_cost P s [(k, Some v), (k', Some v')])"
    and "memtable_bytes (memtable_insert k' (Value v') s) < memtable_max_bytes s"
  shows "\<exists>s1 w1 s2 w2. set_value P k v (s, w) = (Err (IoError x), (s1, w1))
    \<and> set_value P k' v' (s1, w1) = (Ok ''Inserted value'', (s2, w2))
    \<and> recovers P w2 (st_dir s) (m(k \<mapsto> v, k' \<mapsto> v'))"
proof -
  obtain ids ess log where e: "engine P w s ids ess log" "m = view (st_data s) ess" using assms(1) by (rule modelsE)
  have E: "wal_holds (st_wal s) w (frames P log)" "st_data s = log_data P log" "committed (is_commit P) log = log" "list_all (log_ok P) log"
    using e(1) by (simp_all add: engine_def)
  let ?new = "batch_log (st_sequence s) [(k, Some v), (k', Some v')]" and ?s1 = "s\<lparr>st_sequence := st_sequence s + 1\<rparr>"
  from failed_commit [OF E(1) assms(2,3), of P k v] obtain w1 where
    w1: "set_value P k v (s, w) = (Err (IoError x), (?s1, w1))" "quiet w1" "touches (wal_path (st_wal s)) w w1"
      "wal_holds (st_wal ?s1) w1 (frames P log @ frame P (create_put_entry k v (st_sequence s + 1)))" by auto
  have "memtable_bytes (memtable_insert k' (Value v') ?s1) < memtable_max_bytes ?s1"
    using assms(5) by (simp add: memtable_insert_sequence)
  from write_quiet [OF w1(2,4) this, of P] obtain s2 w2 l where
    w2: "set_value P k' v' (?s1, w1) = (Ok ''Inserted value'', (s2, w2))" "touches (wal_path (st_wal s)) w1 w2" "wal_path l = wal_path (st_wal s)"
      "wal_holds l w2 ((frames P log @ frame P (create_put_entry k v (st_sequence s + 1)))
        @ frames P (batch_log (st_sequence s + 1) [(k', Some v')]))" by auto
  have new: "frames P (log @ ?new) = (frames P log @ frame P (create_put_entry k v (st_sequence s + 1)))
      @ frames P (batch_log (st_sequence s + 1) [(k', Some v')])"
    by (simp add: batch_log_def pending_entry_def add.commute)
  have "contents w2 (wal_path (st_wal s)) = frames P (log @ ?new) @ []"
    using w2(3,4) unfolding new by (simp add: wal_holds_def)
  moreover have "length (frames P (log @ ?new)) < 2 ^ 62"
    using assms(4) engine_wal_contents [OF e(1)] by (simp add: room_def batch_cost_def)
  moreover have "list_all (log_ok P) (log @ ?new)" using E(4) by (simp add: batch_log_facts del: frames_simps)
  ultimately have "on_disk P w2 (st_dir s) ids ess (log @ ?new)"
    using engine_log_on_disk [OF e(1) touches_trans [OF w1(3) w2(2)], of "log @ ?new" "[]"] batch_log_facts(3) by simp
  moreover have "view (log_data P (log @ ?new)) ess = m(k \<mapsto> v, k' \<mapsto> v')"
    unfolding log_data_batch e(2) E(2) by (auto simp: pending_ops_def view_def map_of_bt_insert map_add_def fun_eq_iff)
  ultimately have "recovers P w2 (st_dir s) (m(k \<mapsto> v, k' \<mapsto> v'))" using on_disk_recovers by metis
  with w1(1) w2(1) show ?thesis by blast
qed

text \<open>
  A frame that was cut short announces more bytes than it has: recovery takes the frames of later writes for its
  rest, and finds the end of the log before the end of the frame.
\<close>

lemma torn_swallows:
  assumes "8 \<le> n" and "n + length bs < length (frame P e)" and "length (frame P e) < 2 ^ 62"
  shows "torn (take n (frame P e) @ bs)"
proof -
  let ?bs = "encode_entry P e"
  have "take 8 (take n (frame P e) @ bs) = to_be_bytes64 (of_nat (length ?bs))"
    using assms(1) by (simp add: frame_def Let_def)
  moreover have "unat (of_nat (length ?bs) :: u64) = length ?bs"
    using assms(3) by (intro unat_of_nat_fits64) (simp add: length_frame)
  ultimately show ?thesis
    using assms by (simp add: torn_def length_frame)
qed

lemma failed_append_loses:
  assumes "models P w s m" and "wal_file (st_wal s) = Some h" and "append_fails x n w"
    and "8 \<le> n" and "n + length (frames P (batch_log (st_sequence s + 1) [(k', Some v')])) < length (frame P (create_put_entry k v (st_sequence s + 1)))"
    and "length (frame P (create_put_entry k v (st_sequence s + 1))) < 2 ^ 62"
    and "memtable_bytes (memtable_insert k' (Value v') s) < memtable_max_bytes s"
  shows "\<exists>s1 w1 s2 w2. set_value P k v (s, w) = (Err (IoError x), (s1, w1))
    \<and> set_value P k' v' (s1, w1) = (Ok ''Inserted value'', (s2, w2))
    \<and> fst (get_value P k' (s2, w2)) = Ok (Some v') \<and> recovers P w2 (st_dir s) m"
proof -
  obtain ids ess log where e: "engine P w s ids ess log" "m = view (st_data s) ess" using assms(1) by (rule modelsE)
  have E: "wal_holds (st_wal s) w (frames P log)" "st_data s = log_data P log" "committed (is_commit P) log = log" "list_all (log_ok P) log"
    "length (frames P log) < 2 ^ 62"
    using e(1) by (simp_all add: engine_def)
  let ?new = "frames P (batch_log (st_sequence s + 1) [(k', Some v')])" and ?s1 = "s\<lparr>st_sequence := st_sequence s + 1\<rparr>"
  let ?cut = "take n (frame P (create_put_entry k v (st_sequence s + 1)))"
  from failed_append [OF E(1) assms(2,3), of P k v] obtain w1 where
    w1: "set_value P k v (s, w) = (Err (IoError x), (?s1, w1))" "quiet w1" "touches (wal_path (st_wal s)) w w1"
      "wal_holds (st_wal ?s1) w1 (frames P log @ ?cut)" by auto
  have "memtable_bytes (memtable_insert k' (Value v') ?s1) < memtable_max_bytes ?s1"
    using assms(7) by (simp add: memtable_insert_sequence)
  from write_quiet [OF w1(2,4) this, of P] obtain w2 l q where
    w2: "set_value P k' v' (?s1, w1) = (Ok ''Inserted value'', (memtable_insert k' (Value v') (?s1\<lparr>st_wal := l, st_sequence := q\<rparr>), w2))"
      "touches (wal_path (st_wal s)) w1 w2" "wal_path l = wal_path (st_wal s)"
      "wal_holds l w2 ((frames P log @ ?cut) @ ?new)" by auto
  have "contents w2 (wal_path (st_wal s)) = frames P log @ (?cut @ ?new)"
    using w2(3,4) by (simp add: wal_holds_def)
  from engine_log_on_disk [OF e(1) touches_trans [OF w1(3) w2(2)] this torn_swallows [OF assms(4-6)] E(5,3,4)]
  have "on_disk P w2 (st_dir s) ids ess log" .
  from on_disk_recovers [OF this] have "recovers P w2 (st_dir s) m" using E(2) e(2) by simp
  with w1(1) w2(1) get_inserted show ?thesis by blast
qed

end

end
