(* ===== verification/Ferrum_Capacity.thy ===== *)
theory Ferrum_Capacity
  imports Ferrum_Machine
begin

text \<open>
  How much a store holds before the bounds of its formats matter, in bytes of keys and values. The
  codec is asked to be compact, as the protobuf encoding is: tags, lengths and numbers cost a
  bounded number of bytes. Then the cost of a call is bounded by what the caller passes, and a
  session that starts on an empty directory needs no further condition.
\<close>

section \<open>Compact codecs\<close>

locale compact_codec = prost_codec +
  assumes value_size: "length (encode_value P (to_proto v)) \<le> 4 * value_footprint (Value v) + 64"
    and entry_size: "length (encode_entry P e)
      \<le> 4 * (length (we_key e) + (case we_value e of None \<Rightarrow> 0 | Some m \<Rightarrow> length (encode_value P m))) + 64"

lemma length_escape: "length (escape k) = 2 * length k + 1"
  by (induction k) simp_all

lemma length_enc_text: "length (enc_text s) = 4 * length s"
  by (induction s) (simp_all add: to_be_bytes32_def)

section \<open>What a call costs\<close>

definition write_load :: "bytes \<Rightarrow> db_value option \<Rightarrow> nat" where
  "write_load k val = 20 * (length k + (case val of None \<Rightarrow> 0 | Some v \<Rightarrow> value_footprint (Value v))) + 500"

fun tx_load :: "tx_op \<Rightarrow> nat" where
  "tx_load (TxSet k v) = write_load k (Some v)"
| "tx_load (TxDelete k) = write_load k None"

fun op_load :: "store_op \<Rightarrow> nat" where
  "op_load (DoSet k v) = write_load k (Some v) + 100"
| "op_load (DoDelete k) = write_load k None + 100"
| "op_load (DoCommit ops) = sum_list (map tx_load ops) + 100"
| "op_load op = 0"

abbreviation batch_load :: "(bytes \<times> db_value option) list \<Rightarrow> nat" where
  "batch_load ps \<equiv> sum_list (map (\<lambda>(k, val). write_load k val) ps)"

lemma batch_load_insert: "batch_load (bt_insert k val ps) \<le> batch_load ps + write_load k val"
  by (induction ps rule: bt_insert.induct) auto

lemma pending_load: "batch_load (tx_pending (fold tx_step ops t)) \<le> batch_load (tx_pending t) + sum_list (map tx_load ops)"
proof (induction ops arbitrary: t)
  case (Cons op ops)
  have "batch_load (tx_pending (tx_step op t)) \<le> batch_load (tx_pending t) + tx_load op"
    using batch_load_insert by (cases op) (simp_all add: tx_set_value_def tx_delete_value_def)
  with Cons [of "tx_step op t"] show ?case by simp
qed simp

context compact_codec
begin

lemma write_size:
  "length (record_bytes P (k, case val of Some v \<Rightarrow> Value v | None \<Rightarrow> Tombstone))
     + length (frame P (pending_entry k val seq)) \<le> write_load k val"
proof (cases val)
  case None
  then show ?thesis
    using entry_size [of "create_delete_entry k seq"]
    by (simp add: length_record_bytes length_frame value_bytes_def pending_entry_def create_delete_entry_def write_load_def)
next
  case (Some v)
  have "length (encode_entry P (create_put_entry k v seq)) \<le> 4 * (length k + length (encode_value P (to_proto v))) + 64"
    using entry_size [of "create_put_entry k v seq"] by (simp add: create_put_entry_def)
  with value_size [of v] Some show ?thesis
    by (simp add: length_record_bytes length_frame value_bytes_def pending_entry_def write_load_def)
qed

lemma commit_size: "length (frame P (commit_entry seq)) \<le> 72"
  using entry_size [of "commit_entry seq"] by (simp add: length_frame commit_entry_def)

lemma batch_size:
  "length (block_bytes P (pending_ops ps)) + length (frames P (batch_entries seq ps)) \<le> batch_load ps"
proof (induction ps arbitrary: seq)
  case (Cons p ps)
  obtain k val where p: "p = (k, val)" by force
  from Cons [of "seq + 1"] write_size [of k val "seq + 1"] show ?case by (simp add: p pending_ops_def)
qed (simp add: pending_ops_def)

lemma batch_cost_load: "batch_cost P s ps \<le> batch_load ps + 100"
  using batch_size [of ps "st_sequence s"] commit_size [of "st_sequence s + of_nat (length ps)"]
  by (simp add: batch_cost_def batch_log_def)

lemma op_cost_load: "op_cost P s op \<le> op_load op"
proof (cases op)
  case (DoSet k v)
  then show ?thesis using batch_cost_load [of s "[(k, Some v)]"] by simp
next
  case (DoDelete k)
  then show ?thesis using batch_cost_load [of s "[(k, None)]"] by simp
next
  case (DoCommit ops)
  then show ?thesis
    using batch_cost_load [of s "tx_pending (fold tx_step ops (begin_transaction s))"] pending_load [of ops "begin_transaction s"]
    by simp
qed simp_all

lemma spends_load: "spends P sw tr c sw' \<Longrightarrow> c \<le> sum_list (map (op_load \<circ> fst) tr)"
proof (induction rule: spends.induct)
  case (spends_cons sw op a sw' tr c sw'')
  then show ?case using op_cost_load [of "fst sw" op] by simp
qed simp

text \<open>Sessions on a new table.\<close>

lemma fresh_session:
  assumes "quiet w" and "on_disk P w d [] [] []" and "d @ [''LOCK''] \<notin> set (w_locks w)"
    and "open_path P d w = (Ok s, w1)" and "store_run P (s, w1) tr (s', w')"
    and "\<forall>(op, a) \<in> set tr. \<not> inverted_scan op"
    and "sum_list (map (op_load \<circ> fst) tr) < 2 ^ 29" and "length tr < 2 ^ 62"
  shows "\<exists>m'. map_run (\<lambda>k. None) tr m' \<and> quiet w' \<and> models P w' s' m'"
proof -
  have s: "quiet w1" "sized P w1 s (\<lambda>k. None) 0 0 1" using open_fresh [OF assms(1-3)] assms(4) by auto
  obtain c where c: "spends P (s, w1) tr c (s', w')" using run_spends [OF assms(5)] ..
  have "capacity (0 + c) (0 + c) (1 + 2 * length tr)" using spends_load [OF c] assms(7,8) by (simp add: capacity_def)
  from spends_simulation [OF c s _ this assms(6)] show ?thesis using sized_models by fastforce
qed

text \<open>And there is such a session for every sequence of operations: each call returns.\<close>

lemma session_exists:
  assumes "quiet w" and "sized P w s m b l n" and "0 < n"
    and "capacity (b + sum_list (map op_load ops)) (l + sum_list (map op_load ops)) (n + 2 * length ops)"
    and "\<forall>op \<in> set ops. \<not> inverted_scan op"
  shows "\<exists>tr sw'. map fst tr = ops \<and> store_run P (s, w) tr sw'"
  using assms
proof (induction ops arbitrary: s w m b l n)
  case (Cons op ops)
  obtain a s1 w1 where st: "store_step P (s, w) op a (s1, w1)"
    using step_exists [OF Cons.prems(1) sized_models [OF Cons.prems(2)], of op] by auto
  let ?c = "op_load op"
  have cap: "capacity (b + ?c) (l + ?c) n" by (rule capacity_mono [OF Cons.prems(4)]) simp_all
  then have "n < 2 ^ 64" by (simp add: capacity_def)
  with step_sized [OF st Cons.prems(1-3) _ op_cost_load] op_fits_capacity [OF cap] Cons.prems(5) obtain m1 where
    "quiet w1" "sized P w1 s1 m1 (b + ?c) (l + ?c) (n + 2)" by force
  moreover have "capacity (b + ?c + sum_list (map op_load ops)) (l + ?c + sum_list (map op_load ops)) (n + 2 + 2 * length ops)"
    using Cons.prems(4) by (simp add: add.assoc)
  ultimately obtain tr sw' where "map fst tr = ops" "store_run P (s1, w1) tr sw'"
    using Cons.IH [of w1 s1] Cons.prems(5) by fastforce
  moreover from this have "store_run P (s, w) ((op, a) # tr) sw'" by (blast intro: run_cons [OF st])
  ultimately show ?case by (intro exI [of _ "(op, a) # tr"] exI [of _ sw']) (simp del: store_run_simps)
qed (auto intro: run_nil)

end

section \<open>The concrete codec is compact\<close>

lemma str_len_ge: "length s \<le> str_len s"
proof (induction s)
  case (Cons c s)
  have "1 \<le> len_utf8 c" by transfer simp
  with Cons show ?case by (simp add: str_len_def)
qed (simp add: str_len_def)

interpretation compact: compact_codec wire_codec
proof unfold_locales
  show "length (encode_value wire_codec (to_proto v)) \<le> 4 * value_footprint (Value v) + 64" for v
    using str_len_ge [of "case v of Text s \<Rightarrow> s | _ \<Rightarrow> []"]
    by (cases v) (simp_all add: wire_codec_def wire_enc_value_def length_enc_text to_be_bytes32_def to_be_bytes64_def)
  show "length (encode_entry wire_codec e)
      \<le> 4 * (length (we_key e) + (case we_value e of None \<Rightarrow> 0 | Some m \<Rightarrow> length (encode_value wire_codec m))) + 64" for e
    by (simp add: wire_codec_def wire_enc_entry_def length_escape to_be_bytes32_def to_be_bytes64_def split: option.split)
qed

end
