(* ===== verification/Ferrum_Database.thy ===== *)
theory Ferrum_Database
  imports Ferrum_Client Ferrum_Machine Ferrum_Faults
begin

text \<open>
  The database of \<open>ferrumdb/src/database.rs\<close> as a map of maps. \<open>db_holds\<close> relates a \<open>Database\<close> and
  the files below its root to a finite map from table names to tables: an open table is a store
  that models its map, a closed one is a directory from which its map is recovered, and a name
  that is not in the map has neither files nor directories nor locks. Creating, borrowing,
  using and deleting a table act on the entry of that table alone.
\<close>

section \<open>The invariant\<close>

type_synonym tables = "string \<Rightarrow> (bytes \<Rightarrow> bytes option) option"

definition empty_tree :: "world \<Rightarrow> path \<Rightarrow> bool" where
  "empty_tree w d \<longleftrightarrow> (\<forall>p. in_tree d p \<longrightarrow> file_of w p = None \<and> p \<notin> set (w_dirs w) \<and> p \<notin> set (w_locks w))"

definition only_lock :: "world \<Rightarrow> path \<Rightarrow> bool" where
  "only_lock w d \<longleftrightarrow> (\<forall>p. in_tree d p \<and> p \<in> set (w_locks w) \<longrightarrow> p = d @ [''LOCK''])"

definition closed_table :: "prost \<Rightarrow> world \<Rightarrow> path \<Rightarrow> (bytes \<Rightarrow> bytes option) \<Rightarrow> bool" where
  "closed_table P w d b \<longleftrightarrow> survives P w d (\<lambda>k. map_option Bytes (b k)) \<and> d @ [''LOCK''] \<notin> set (w_locks w)"

definition db_holds :: "prost \<Rightarrow> world \<Rightarrow> database \<Rightarrow> tables \<Rightarrow> bool" where
  "db_holds P w db T \<longleftrightarrow>
     path_ok (db_root db) \<and> dir_ready w (db_root db) \<and> fs_wf w \<and> distinct (map fst (db_open db))
     \<and> (\<forall>name s. map_of (db_open db) name = Some s \<longrightarrow>
          st_dir s = db_root db @ [name] \<and> (\<exists>b. T name = Some b \<and> table_models P w s b))
     \<and> (\<forall>name b. T name = Some b \<longrightarrow> validate_name name = Done () \<and> db_root db @ [name] \<in> set (w_dirs w)
          \<and> (map_of (db_open db) name = None \<longrightarrow> closed_table P w (db_root db @ [name]) b))
     \<and> (\<forall>name. T name = None \<longrightarrow> empty_tree w (db_root db @ [name]))
     \<and> (\<forall>name. only_lock w (db_root db @ [name]))"

lemma open_table_models:
  assumes "db_holds P w db T" and "map_of (db_open db) name = Some s"
  obtains b where "T name = Some b" and "table_models P w s b" and "st_dir s = db_root db @ [name]"
  using assms unfolding db_holds_def by blast

section \<open>Changing one table\<close>

definition others_same :: "path \<Rightarrow> string \<Rightarrow> world \<Rightarrow> world \<Rightarrow> bool" where
  "others_same root name w w' \<longleftrightarrow>
     (fs_wf w \<longrightarrow> fs_wf w') \<and> (dir_ready w root \<longrightarrow> dir_ready w' root)
     \<and> (\<forall>n p. n \<noteq> name \<longrightarrow> agree (root @ [n]) w w'
          \<and> (in_tree (root @ [n]) p \<longrightarrow> (p \<in> set (w_locks w') \<longleftrightarrow> p \<in> set (w_locks w))))"

lemma apart_siblings: "a \<noteq> b \<Longrightarrow> apart (root @ [a]) (root @ [b])"
  by (simp add: apart_def in_tree_def)

lemma isolates_others:
  assumes "isolates (root @ [name]) w w'"
  shows "others_same root name w w'"
proof -
  let ?d = "root @ [name]" let ?l = "?d @ [''LOCK'']"
  have W: "within ?d (fs_unlock ?l w) (fs_unlock ?l w')" using assms by (simp add: isolates_def)
  have "dir_ready w' root" if "dir_ready w root"
  proof -
    have "\<not> in_tree ?d q" if "q \<in> set (ancestors root)" for q
      using prefix_length_le [OF ancestor_prefix [OF that]] prefix_length_le [of ?d q] by (auto simp: in_tree_prefix)
    with that W show ?thesis by (auto simp: dir_ready_def within_def)
  qed
  moreover have "agree (root @ [n]) w w'" if "n \<noteq> name" for n
    using isolates_agree [OF assms apart_siblings [OF that]] .
  moreover have "p \<in> set (w_locks w') \<longleftrightarrow> p \<in> set (w_locks w)" if "n \<noteq> name" "in_tree (root @ [n]) p" for n p
  proof -
    have "p \<noteq> ?l" using apart_tree [OF apart_siblings [OF that(1)] that(2)] by (auto simp: in_tree_def)
    moreover have "w_locks (fs_unlock ?l w') = w_locks (fs_unlock ?l w)" using W by (simp add: within_def)
    from arg_cong [OF this, of set] have "set (w_locks w') - {?l} = set (w_locks w) - {?l}" by (simp add: fs_unlock_def)
    ultimately show ?thesis by blast
  qed
  moreover have "fs_wf w \<longrightarrow> fs_wf w'" using W by (simp add: within_def)
  ultimately show ?thesis by (simp add: others_same_def)
qed

lemma survives_agree: "survives P w d m \<Longrightarrow> agree d w w' \<Longrightarrow> survives P w' d m"
  by (auto simp: survives_def intro: on_disk_agree)

lemma other_table:
  assumes "db_holds P w db T" and "others_same (db_root db) name w w'" and "n \<noteq> name"
  shows "map_of (db_open db) n = Some s \<Longrightarrow> \<exists>b. T n = Some b \<and> table_models P w' s b"
    and "T n = Some b \<Longrightarrow> db_root db @ [n] \<in> set (w_dirs w')"
    and "T n = Some b \<Longrightarrow> map_of (db_open db) n = None \<Longrightarrow> closed_table P w' (db_root db @ [n]) b"
    and "T n = None \<Longrightarrow> empty_tree w' (db_root db @ [n])" and "only_lock w' (db_root db @ [n])"
proof -
  let ?d = "db_root db @ [n]"
  have A: "agree ?d w w'" "\<And>p. in_tree ?d p \<Longrightarrow> p \<in> set (w_locks w') \<longleftrightarrow> p \<in> set (w_locks w)"
    using assms(2,3) by (simp_all add: others_same_def)
  show "\<exists>b. T n = Some b \<and> table_models P w' s b" if op: "map_of (db_open db) n = Some s"
  proof -
    obtain b where "T n = Some b" "table_models P w s b" "st_dir s = ?d" using open_table_models [OF assms(1) op] .
    with A(1) models_agree show ?thesis by (auto simp: table_models_def)
  qed
  show "?d \<in> set (w_dirs w')" if "T n = Some b"
    using that assms(1) A(1) by (auto simp: db_holds_def agree_def)
  show "closed_table P w' ?d b" if "T n = Some b" "map_of (db_open db) n = None"
    using that assms(1) A(2) [of "?d @ [''LOCK'']"] survives_agree [OF _ A(1)]
    by (simp add: db_holds_def closed_table_def in_tree_def)
  show "empty_tree w' ?d" if "T n = None"
    using that assms(1) A by (auto simp: db_holds_def empty_tree_def agree_def)
  show "only_lock w' ?d" using assms(1) A(2) by (auto simp: db_holds_def only_lock_def)
qed

lemma db_holds_put:
  assumes "db_holds P w db T" and "others_same (db_root db) name w w'" and "validate_name name = Done ()"
    and "table_models P w' s b" and "st_dir s = db_root db @ [name]" and "only_lock w' (db_root db @ [name])"
  shows "db_holds P w' (db\<lparr>db_open := AList.update name s (db_open db)\<rparr>) (T(name \<mapsto> b))"
proof -
  note O = other_table [OF assms(1,2)]
  have "models P w' s (\<lambda>k. map_option Bytes (b k))" using assms(4) by (simp add: table_models_def)
  then have "dir_ready w' (db_root db @ [name])" using assms(5) by (auto elim!: modelsE simp: engine_def)
  then have "db_root db @ [name] \<in> set (w_dirs w')"
    using ancestors_self [of "db_root db @ [name]"] by (auto simp: dir_ready_def)
  moreover have "only_lock w' (db_root db @ [n])" for n using O(5) assms(6) by (cases "n = name") simp_all
  moreover have "path_ok (db_root db)" "dir_ready w' (db_root db)" "fs_wf w'" "distinct (map fst (db_open db))"
    "\<And>n s. map_of (db_open db) n = Some s \<Longrightarrow> st_dir s = db_root db @ [n]"
    "\<And>n b. T n = Some b \<Longrightarrow> validate_name n = Done ()"
    using assms(1,2) by (auto simp: db_holds_def others_same_def)
  ultimately show ?thesis
    unfolding db_holds_def using O(1-4) assms(3-5)
    by (auto simp: update_conv distinct_update split: if_splits)
qed

lemma db_holds_drop:
  assumes "db_holds P w db T" and "others_same (db_root db) name w w'" and "empty_tree w' (db_root db @ [name])"
  shows "db_holds P w' (db\<lparr>db_open := AList.delete name (db_open db)\<rparr>) (T(name := None))"
proof -
  note O = other_table [OF assms(1,2)]
  have lock: "only_lock w' (db_root db @ [name])" using assms(3) by (auto simp: empty_tree_def only_lock_def)
  have "only_lock w' (db_root db @ [n])" for n using O(5) lock by (cases "n = name") simp_all
  moreover have "path_ok (db_root db)" "dir_ready w' (db_root db)" "fs_wf w'" "distinct (map fst (db_open db))"
    "\<And>n s. map_of (db_open db) n = Some s \<Longrightarrow> st_dir s = db_root db @ [n]"
    "\<And>n b. T n = Some b \<Longrightarrow> validate_name n = Done ()"
    using assms(1,2) by (auto simp: db_holds_def others_same_def)
  ultimately show ?thesis
    unfolding db_holds_def using O(1-4) assms(3)
    by (auto simp: delete_conv distinct_delete split: if_splits)
qed

section \<open>Opening a table\<close>

definition the_table :: "tables \<Rightarrow> string \<Rightarrow> bytes \<Rightarrow> bytes option" where
  "the_table T name = (case T name of None \<Rightarrow> (\<lambda>k. None) | Some b \<Rightarrow> b)"

lemma only_lock_isolates:
  assumes "only_lock w d" and "isolates d w w'"
  shows "only_lock w' d"
proof -
  have "w_locks (fs_unlock (d @ [''LOCK'']) w') = w_locks (fs_unlock (d @ [''LOCK'']) w)"
    using assms(2) by (simp add: isolates_def within_def)
  from arg_cong [OF this, of set] assms(1) show ?thesis by (auto simp: only_lock_def fs_unlock_def)
qed

lemma open_path_isolates:
  assumes "open_path P d w = (Ok s, w')"
  shows "isolates d w w'" and "tidy d s"
proof -
  have O: "tidy d s" "within d (locked (d @ [''LOCK'']) w) w'" "d @ [''LOCK''] \<notin> set (w_locks w)"
    using open_path_any [OF assms] by auto
  then have "fs_unlock (d @ [''LOCK'']) w = w" by (simp add: fs_unlock_def)
  with O open_isolates [of d w w'] show "isolates d w w'" and "tidy d s" by simp_all
qed

lemma ancestors_snoc: "ancestors (d @ [x]) = ancestors d @ [d @ [x]]"
  by (simp add: ancestors_def)

context prost_codec
begin

lemma empty_tree_survives:
  assumes "db_holds P w db T" and "T name = None"
  shows "on_disk P w (db_root db @ [name]) [] [] []"
proof (rule fresh_on_disk)
  show "fs_wf w" using assms(1) by (simp add: db_holds_def)
  have E: "empty_tree w (db_root db @ [name])" using assms by (simp add: db_holds_def)
  then show "file_of w p = None \<and> p \<notin> set (w_dirs w)" if "in_tree (db_root db @ [name]) p" for p
    using that by (simp add: empty_tree_def)
  show "\<forall>q \<in> set (ancestors (db_root db @ [name])). file_of w q = None"
    using assms(1) E by (auto simp: ancestors_snoc db_holds_def dir_ready_def empty_tree_def)
qed

text \<open>A name that is not open: its table, or an empty one, is opened.\<close>

lemma open_store_models:
  assumes "quiet w" and "db_holds P w db T" and "validate_name name = Done ()" and "map_of (db_open db) name = None"
  shows "\<exists>s w'. open_store P name (db, w) = (Done (), (db\<lparr>db_open := AList.update name s (db_open db)\<rparr>, w'))
    \<and> quiet w' \<and> db_holds P w' (db\<lparr>db_open := AList.update name s (db_open db)\<rparr>) (T(name \<mapsto> the_table T name))
    \<and> table_models P w' s (the_table T name) \<and> open_path P (db_root db @ [name]) w = (Ok s, w')"
proof -
  let ?d = "db_root db @ [name]"
  have D: "path_ok (db_root db)" "only_lock w ?d" using assms(2) by (simp_all add: db_holds_def)
  have "survives P w ?d (\<lambda>k. map_option Bytes (the_table T name k)) \<and> ?d @ [''LOCK''] \<notin> set (w_locks w)"
  proof (cases "T name")
    case None
    have "empty_tree w ?d" using assms(2) None by (simp add: db_holds_def)
    then have "?d @ [''LOCK''] \<notin> set (w_locks w)" by (auto simp: empty_tree_def in_tree_def)
    moreover have "view (log_data P []) [] = (\<lambda>k. map_option Bytes (the_table T name k))"
      by (simp add: view_def log_data_def fun_eq_iff the_table_def None)
    ultimately show ?thesis using survivesI [OF empty_tree_survives [OF assms(2) None]] by simp
  next
    case (Some b)
    then show ?thesis using assms(2,4) by (simp add: db_holds_def closed_table_def the_table_def)
  qed
  then obtain ids ess log where od: "on_disk P w ?d ids ess log" "?d @ [''LOCK''] \<notin> set (w_locks w)"
      "(\<lambda>k. map_option Bytes (the_table T name k)) = view (log_data P log) ess"
    by (auto simp: survives_def)
  from open_models [OF assms(1) od(1,2)] obtain s w' where
    s: "open_path P ?d w = (Ok s, w')" "quiet w'" "models P w' s (view (log_data P log) ess)" "st_dir s = ?d" by blast
  then have tm: "table_models P w' s (the_table T name)" by (simp add: table_models_def od(3))
  note I = open_path_isolates(1) [OF s(1)]
  have "db_holds P w' (db\<lparr>db_open := AList.update name s (db_open db)\<rparr>) (T(name \<mapsto> the_table T name))"
    using db_holds_put [OF assms(2) isolates_others [OF I] assms(3) tm s(4) only_lock_isolates [OF D(2) I]] .
  then show ?thesis
    using s tm open_store_path [OF D(1) assms(3), of P] by (intro exI [of _ s] exI [of _ w']) (simp add: open_store_def liftA_def)
qed

lemma database_table_models:
  assumes "quiet w" and "db_holds P w db T" and "validate_name name = Done ()"
  shows "\<exists>db' w' s. database_table P name (db, w) = (Done (), (db', w')) \<and> quiet w' \<and> db_root db' = db_root db
    \<and> map_of (db_open db') name = Some s \<and> table_models P w' s (the_table T name)
    \<and> db_holds P w' db' (T(name \<mapsto> the_table T name))"
proof (cases "map_of (db_open db) name")
  case None
  from open_store_models [OF assms None] obtain s w' where
    "open_store P name (db, w) = (Done (), (db\<lparr>db_open := AList.update name s (db_open db)\<rparr>, w'))" "quiet w'"
    "db_holds P w' (db\<lparr>db_open := AList.update name s (db_open db)\<rparr>) (T(name \<mapsto> the_table T name))"
    "table_models P w' s (the_table T name)" by blast
  with None assms(3) show ?thesis
    by (intro exI [of _ "db\<lparr>db_open := AList.update name s (db_open db)\<rparr>"] exI [of _ w'] exI [of _ s])
      (simp add: database_table_def bindC_def valid_name_def update_conv)
next
  case (Some s)
  then obtain b where b: "T name = Some b" "table_models P w s b" using assms(2) unfolding db_holds_def by blast
  then have "T(name \<mapsto> the_table T name) = T" by (auto simp: the_table_def)
  with Some b assms show ?thesis
    by (intro exI [of _ db] exI [of _ w] exI [of _ s])
      (simp add: database_table_def bindC_def valid_name_def the_table_def)
qed

text \<open>
  Using a table: what a call does to the borrowed store is what happens to the table of that
  name, and nothing else changes.
\<close>

lemma with_table_reopen:
  assumes "quiet w" and "db_holds P w db T" and "validate_name name = Done ()"
  shows "\<exists>db' w' s. with_table P name m (db, w) = with_table P name m (db', w') \<and> quiet w' \<and> db_root db' = db_root db
    \<and> map_of (db_open db') name = Some s \<and> table_models P w' s (the_table T name)
    \<and> db_holds P w' db' (T(name \<mapsto> the_table T name))"
proof -
  from database_table_models [OF assms] obtain db' w' s where
    d: "database_table P name (db, w) = (Done (), (db', w'))" "quiet w'" "db_root db' = db_root db"
      "map_of (db_open db') name = Some s" "table_models P w' s (the_table T name)"
      "db_holds P w' db' (T(name \<mapsto> the_table T name))" by blast
  have "database_table P name (db', w') = (Done (), (db', w'))"
    using assms(3) d(4) by (simp add: database_table_def bindC_def valid_name_def)
  then have "with_table P name m (db, w) = with_table P name m (db', w')"
    by (simp add: with_table_def bindC_def d(1))
  with d show ?thesis by blast
qed

lemma with_table_open:
  assumes "db_holds P w db T" and "map_of (db_open db) name = Some s" and "m (s, w) = (a, (s', w'))"
    and "table_models P w' s' b" and "tidy (st_dir s) s' \<and> isolates (st_dir s) w w'"
  shows "with_table P name m (db, w) = (a, (db\<lparr>db_open := AList.update name s' (db_open db)\<rparr>, w'))"
    and "db_holds P w' (db\<lparr>db_open := AList.update name s' (db_open db)\<rparr>) (T(name \<mapsto> b))"
proof -
  obtain b0 where s: "T name = Some b0" "st_dir s = db_root db @ [name]" using assms(1,2) unfolding db_holds_def by blast
  have D: "validate_name name = Done ()" "only_lock w (db_root db @ [name])"
    using assms(1) s(1) by (simp_all add: db_holds_def)
  show "with_table P name m (db, w) = (a, (db\<lparr>db_open := AList.update name s' (db_open db)\<rparr>, w'))"
    using assms(2,3) D(1) by (simp add: with_table_def database_table_def bindC_def valid_name_def)
  have I: "isolates (db_root db @ [name]) w w'" "st_dir s' = db_root db @ [name]"
    using assms(5) s(2) tidy_dir [of _ s'] by auto
  show "db_holds P w' (db\<lparr>db_open := AList.update name s' (db_open db)\<rparr>) (T(name \<mapsto> b))"
    using db_holds_put [OF assms(1) isolates_others [OF I(1)] D(1) assms(4) I(2) only_lock_isolates [OF D(2) I(1)]] .
qed

end

text \<open>Calls of a table handle stay within the table's directory.\<close>

lemma liftA_state: "mapC f (liftA m) s = (a, s') \<Longrightarrow> \<exists>r. m s = (r, s')"
  by (auto simp: mapC_def liftA_def split: prod.splits)

lemma table_calls_isolate:
  assumes "tidy d s"
  shows "table_put P k v (s, w) = (a, (s', w')) \<Longrightarrow> tidy d s' \<and> isolates d w w'"
    and "table_delete P k (s, w) = (a, (s', w')) \<Longrightarrow> tidy d s' \<and> isolates d w w'"
    and "table_get P k (s, w) = (c, (s', w')) \<Longrightarrow> tidy d s' \<and> isolates d w w'"
    and "range_bounds P lo hi (s, w) = (e, (s', w')) \<Longrightarrow> tidy d s' \<and> isolates d w w'"
    and "table_put_batch P es (s, w) = (a, (s', w')) \<Longrightarrow> tidy d s' \<and> isolates d w w'"
proof -
  show "table_put P k v (s, w) = (a, (s', w')) \<Longrightarrow> tidy d s' \<and> isolates d w w'"
    unfolding table_put_def by (drule liftA_state) (blast dest: keeps_isolates [OF confine.set_value assms])
  show "table_delete P k (s, w) = (a, (s', w')) \<Longrightarrow> tidy d s' \<and> isolates d w w'"
    unfolding table_delete_def by (drule liftA_state) (blast dest: keeps_isolates [OF confine.delete_value assms])
  show "table_get P k (s, w) = (c, (s', w')) \<Longrightarrow> tidy d s' \<and> isolates d w w'"
    unfolding table_get_def by (drule liftA_state) (blast dest: keeps_isolates [OF confine.get_value assms])
  show "range_bounds P lo hi (s, w) = (e, (s', w')) \<Longrightarrow> tidy d s' \<and> isolates d w w'"
    unfolding range_bounds_def by (drule liftA_state) (blast dest: keeps_isolates [OF confine.scan_range assms])
  define t where "t = fold tx_step (map (\<lambda>(k, v). TxSet k (Bytes v)) es) (begin_transaction s)"
  have t: "tidy d (tx_store t)" using assms by (simp add: t_def tx_steps)
  show "table_put_batch P es (s, w) = (a, (s', w')) \<Longrightarrow> tidy d s' \<and> isolates d w w'"
    using confine.tx_commit [OF t within_refl, of w P]
    by (auto simp: table_put_batch_def put_batch_steps Let_def within_isolates split: prod.splits simp flip: t_def)
qed

context prost_codec
begin

lemma database_put:
  assumes "quiet w" and "db_holds P w db T" and "map_of (db_open db) name = Some s"
    and "room P w s (batch_cost P s [(k, Some (Bytes v))])"
  shows "\<exists>db' w'. with_table P name (table_put P k v) (db, w) = (Done (), (db', w')) \<and> quiet w'
    \<and> db_holds P w' db' (T(name \<mapsto> (the_table T name)(k \<mapsto> v)))"
proof -
  obtain b where s: "T name = Some b" "table_models P w s b" using assms(2,3) unfolding db_holds_def by blast
  from table_put_models [OF assms(1) s(2) assms(4)] obtain s' w' where
    p: "table_put P k v (s, w) = (Done (), (s', w'))" "quiet w'" "table_models P w' s' (b(k \<mapsto> v))" by blast
  have "tidy (st_dir s) s" using s(2) by (auto simp: table_models_def intro: models_tidy)
  note W = with_table_open [where m = "table_put P k v", OF assms(2,3) p(1,3) table_calls_isolate(1) [OF this p(1)]]
  from W p(2) s(1) show ?thesis by (auto simp: the_table_def)
qed

lemma database_get:
  assumes "quiet w" and "db_holds P w db T" and "validate_name name = Done ()"
  shows "\<exists>db' w'. with_table P name (table_get P k) (db, w) = (Done (the_table T name k), (db', w')) \<and> quiet w'
    \<and> db_holds P w' db' (T(name \<mapsto> the_table T name)) \<and> db_root db' = db_root db"
proof -
  from with_table_reopen [OF assms, of "table_get P k"] obtain db1 w1 s where
    r: "with_table P name (table_get P k) (db, w) = with_table P name (table_get P k) (db1, w1)" "quiet w1"
      "map_of (db_open db1) name = Some s" "table_models P w1 s (the_table T name)"
      "db_holds P w1 db1 (T(name \<mapsto> the_table T name))" "db_root db1 = db_root db" by blast
  from table_get_models [OF r(2,4), of k] obtain s' w' where
    g: "table_get P k (s, w1) = (Done (the_table T name k), (s', w'))" "quiet w'" "table_models P w' s' (the_table T name)" by blast
  have "tidy (st_dir s) s" using r(4) by (auto simp: table_models_def intro: models_tidy)
  note W = with_table_open [where m = "table_get P k", OF r(5,3) g(1,3) table_calls_isolate(3) [OF this g(1)]]
  from W g(2) r(1,6) show ?thesis by auto
qed

end

section \<open>Creating, deleting and listing tables\<close>

lemma agree_same:
  assumes "w_files w' = w_files w" and "w_dirs w' = w_dirs w" and "w_locks w' = w_locks w"
  shows "agree d w w'"
  using assms by (simp add: agree_def fs_wf_def file_of_def)

lemma db_holds_same:
  assumes "db_holds P w db T" and "w_files w' = w_files w" and "w_dirs w' = w_dirs w" and "w_locks w' = w_locks w"
  shows "db_holds P w' db T"
proof -
  note A = agree_same [OF assms(2-4)]
  have f: "file_of w' = file_of w" using assms(2) by (simp add: file_of_def fun_eq_iff)
  have "table_models P w s b \<Longrightarrow> table_models P w' s b" for s b using A models_agree by (auto simp: table_models_def)
  moreover have "closed_table P w d b \<Longrightarrow> closed_table P w' d b" for d b
    using A survives_agree assms(4) by (auto simp: closed_table_def)
  moreover have "fs_wf w' = fs_wf w" "dir_ready w' = dir_ready w" "empty_tree w' = empty_tree w" "only_lock w' = only_lock w"
    using assms(2-4) by (auto simp: fs_wf_def dir_ready_def empty_tree_def only_lock_def f fun_eq_iff)
  ultimately show ?thesis using assms(1,3) unfolding db_holds_def by fastforce
qed

lemma db_holds_later: "db_holds P w db T \<Longrightarrow> db_holds P (later n w) db T"
  by (rule db_holds_same) simp_all

lemma others_same_later: "others_same root name (later n w) w' = others_same root name w w'"
  by (simp add: others_same_def agree_def fs_wf_def dir_ready_def)

lemma closed_not_open: "db_holds P w db T \<Longrightarrow> T name = None \<Longrightarrow> map_of (db_open db) name = None"
  by (cases "map_of (db_open db) name") (auto elim: open_table_models)

lemma map_of_filter_keys: "map_of (filter (\<lambda>(p, c). Q p) xs) q = (if Q q then map_of xs q else None)"
  by (induction xs) auto

lemma remove_tree_others:
  assumes "w_files w' = filter (\<lambda>(p, c). \<not> in_tree (root @ [name]) p) (w_files w)"
    and "w_dirs w' = filter (\<lambda>p. \<not> in_tree (root @ [name]) p) (w_dirs w)"
    and "w_locks w' = removeAll (root @ [name] @ [''LOCK'']) (w_locks w)" and "only_lock w (root @ [name])"
  shows "others_same root name w w'" and "empty_tree w' (root @ [name])"
proof -
  let ?d = "root @ [name]"
  have f: "file_of w' q = (if in_tree ?d q then None else file_of w q)" for q
    using map_of_filter_keys [of "\<lambda>p. \<not> in_tree ?d p" "w_files w" q] by (simp add: file_of_def assms(1))
  have wf: "fs_wf w'" if "fs_wf w"
  proof -
    have "distinct (map fst (w_files w'))" using that by (simp add: fs_wf_def assms(1) distinct_map_filter)
    with that show ?thesis by (auto simp: fs_wf_def f assms(2))
  qed
  have anc: "\<not> in_tree ?d q" if "q \<in> set (ancestors root)" for q
    using prefix_length_le [OF ancestor_prefix [OF that]] prefix_length_le [of ?d q] by (auto simp: in_tree_prefix)
  have "agree (root @ [n]) w w' \<and> (in_tree (root @ [n]) p \<longrightarrow> (p \<in> set (w_locks w') \<longleftrightarrow> p \<in> set (w_locks w)))" if "n \<noteq> name" for n p
  proof -
    note ap = apart_tree [OF apart_siblings [OF that]] apart_ancestor [OF apart_siblings [OF that]]
    have "p \<noteq> root @ [name] @ [''LOCK'']" if "in_tree (root @ [n]) p" for p
      using ap(1) [OF that] by (auto simp: in_tree_def)
    moreover have "in_tree (root @ [n]) (root @ [n] @ [''LOCK''])" by (simp add: in_tree_def)
    ultimately show ?thesis
      using ap wf by (auto simp: agree_def f assms(2,3))
  qed
  then show "others_same root name w w'" using wf anc by (auto simp: others_same_def dir_ready_def f assms(2))
  show "empty_tree w' ?d" using assms(4) by (auto simp: empty_tree_def f assms(2,3) only_lock_def)
qed

lemma delete_table_models:
  assumes "quiet w" and "db_holds P w db T" and "T name = Some b"
  shows "\<exists>db' w'. delete_table P name (db, w) = (Done (), (db', w')) \<and> quiet w' \<and> db_holds P w' db' (T(name := None))"
proof -
  let ?d = "db_root db @ [name]" let ?l = "db_root db @ [name] @ [''LOCK'']"
  have D: "validate_name name = Done ()" "?d \<in> set (w_dirs w)" "only_lock w ?d"
    using assms(2,3) by (simp_all add: db_holds_def)
  define w1 where "w1 = (case map_of (db_open db) name of None \<Rightarrow> later 1 w | Some s \<Rightarrow> drop_store s (later 1 w))"
  have w1: "w_files w1 = w_files w" "w_dirs w1 = w_dirs w" "quiet w1" "w_locks w1 = removeAll ?l (w_locks w)"
  proof -
    have "w_files w1 = w_files w \<and> w_dirs w1 = w_dirs w \<and> quiet w1 \<and> w_locks w1 = removeAll ?l (w_locks w)"
    proof (cases "map_of (db_open db) name")
      case None
      then have "?l \<notin> set (w_locks w)" using assms(2,3) by (simp add: db_holds_def closed_table_def)
      then show ?thesis using assms(1) None by (simp add: w1_def removeAll_id)
    next
      case (Some s)
      then have "st_dir s = ?d \<and> (\<exists>b. table_models P w s b)" using assms(2) unfolding db_holds_def by blast
      then have "st_lock s = Some ?l" by (auto simp: table_models_def models_def engine_def)
      then show ?thesis using assms(1) Some by (simp add: w1_def drop_store_def) (simp add: fs_unlock_def)
    qed
    then show "w_files w1 = w_files w" "w_dirs w1 = w_dirs w" "quiet w1" "w_locks w1 = removeAll ?l (w_locks w)" by simp_all
  qed
  define w' where "w' = (later 1 w1)\<lparr>w_files := filter (\<lambda>(p, c). \<not> in_tree ?d p) (w_files w1),
      w_dirs := filter (\<lambda>p. \<not> in_tree ?d p) (w_dirs w1)\<rparr>"
  have rm: "fs_remove_dir_all ?d w1 = (Ok (), w')" using w1(2,3) D(2) by (simp add: fs_remove_dir_all_def w'_def)
  have q: "quiet w'" using w1(3) by (simp add: w'_def quiet_def later_def)
  let ?db = "db\<lparr>db_open := AList.delete name (db_open db)\<rparr>"
  have "fs_exists ?d w = (Ok True, later 1 w)" using assms(1) D(2) by (simp add: fs_exists_quiet dir_exists_def)
  then have "delete_table P name (db, w) = (Done (), (?db, w'))"
    using D(1) rm [unfolded w1_def One_nat_def]
    by (simp add: delete_table_def bindC_def valid_name_def validate_name_join(1) onWC_def liftA_def Let_def)
  moreover have "db_holds P w' ?db (T(name := None))"
    using remove_tree_others [of w' "db_root db" name w] D(3) w1 by (intro db_holds_drop [OF assms(2)]) (simp_all add: w'_def)
  ultimately show ?thesis using q by blast
qed

context prost_codec
begin

lemma create_table_models:
  assumes "quiet w" and "db_holds P w db T" and "validate_name name = Done ()" and "T name = None"
  shows "\<exists>s w'. create_table P name (db, w) = (Done (), (db\<lparr>db_open := AList.update name s (db_open db)\<rparr>, w')) \<and> quiet w'
    \<and> db_holds P w' (db\<lparr>db_open := AList.update name s (db_open db)\<rparr>) (T(name \<mapsto> (\<lambda>k. None)))
    \<and> sized P w' s (\<lambda>k. None) 0 0 1 \<and> others_same (db_root db) name w w'"
proof -
  let ?d = "db_root db @ [name]"
  have "empty_tree w ?d" using assms(2,4) by (simp add: db_holds_def)
  then have "file_of w ?d = None" "?d \<notin> set (w_dirs w)" by (simp_all add: empty_tree_def)
  then have ex: "fs_exists ?d w = (Ok False, later 1 w)" using assms(1) by (simp add: fs_exists_quiet dir_exists_def)
  have q: "quiet (later 1 w)" using assms(1) by simp
  from open_store_models [OF q db_holds_later [OF assms(2)] assms(3) closed_not_open [OF assms(2,4)]] obtain s w' where
    s: "open_store P name (db, later 1 w) = (Done (), (db\<lparr>db_open := AList.update name s (db_open db)\<rparr>, w'))" "quiet w'"
      "db_holds P w' (db\<lparr>db_open := AList.update name s (db_open db)\<rparr>) (T(name \<mapsto> the_table T name))"
      "open_path P ?d (later 1 w) = (Ok s, w')" by blast
  have "?d @ [''LOCK''] \<notin> set (w_locks (later 1 w))" using \<open>empty_tree w ?d\<close> by (auto simp: empty_tree_def in_tree_def)
  from open_fresh [OF q empty_tree_survives [OF db_holds_later [OF assms(2)] assms(4)] this] s(4)
  have "sized P w' s (\<lambda>k. None) 0 0 1" by auto
  moreover have "others_same (db_root db) name w w'"
    using isolates_others [OF open_path_isolates(1) [OF s(4)]] unfolding others_same_later .
  moreover have "the_table T name = (\<lambda>k. None)" by (simp add: the_table_def assms(4))
  ultimately show ?thesis
    using s ex assms(3) by (intro exI [of _ s] exI [of _ w'])
      (simp add: create_table_def bindC_def valid_name_def validate_name_join(1) onWC_def liftA_def)
qed

end

lemma create_table_taken:
  assumes "quiet w" and "db_holds P w db T" and "T name = Some b"
  shows "\<exists>w'. create_table P name (db, w) = (Fail (TableExists name), (db, w')) \<and> quiet w' \<and> db_holds P w' db T"
proof -
  have "validate_name name = Done ()" "dir_exists w (db_root db @ [name])"
    using assms(2,3) by (auto simp: db_holds_def dir_exists_def)
  with create_table_exists [OF assms(1), of name db P] db_holds_later [OF assms(2), of 1] assms(1) show ?thesis by auto
qed

lemma delete_table_unknown:
  assumes "quiet w" and "db_holds P w db T" and "validate_name name = Done ()" and "T name = None"
  shows "\<exists>w'. delete_table P name (db, w) = (Fail (TableNotFound name), (db, w')) \<and> quiet w' \<and> db_holds P w' db T"
proof -
  have "empty_tree w (db_root db @ [name])" using assms(2,4) by (simp add: db_holds_def)
  then have "\<not> dir_exists w (db_root db @ [name])" "file_of w (db_root db @ [name]) = None"
    by (simp_all add: empty_tree_def dir_exists_def)
  with delete_table_missing [OF assms(1,3), of db P] db_holds_later [OF assms(2), of 1] assms(1) show ?thesis by auto
qed

lemma list_names_quiet:
  assumes "quiet w"
  shows "\<exists>n. list_names qs w = (Ok (map last (filter (dir_exists w) qs)), later n w)"
  using assms
proof (induction qs arbitrary: w)
  case Nil
  show ?case by (rule exI [of _ 0]) (simp add: returnA_def)
next
  case (Cons q qs)
  from Cons.IH [of "later 2 w"] Cons.prems obtain n where
    "list_names qs (later 2 w) = (Ok (map last (filter (dir_exists w) qs)), later n (later 2 w))" by auto
  then show ?case
    using Cons.prems
    by (intro exI [of _ "n + 2"])
      (simp add: bindA_def fs_dir_entry_def syscall_quiet fs_is_dir_def returnA_def numeral_2_eq_2)
qed

lemma table_entries:
  assumes "db_holds P w db T"
  shows "filter (dir_exists w) (dir_entries w (db_root db)) = filter (\<lambda>p. p \<noteq> [] \<and> butlast p = db_root db) (w_dirs w)"
    and "p \<in> set (w_dirs w) \<Longrightarrow> p \<noteq> [] \<Longrightarrow> butlast p = db_root db \<Longrightarrow> last p \<in> dom T"
    and "name \<in> dom T \<Longrightarrow> db_root db @ [name] \<in> set (w_dirs w)"
proof -
  have wf: "fs_wf w" using assms by (simp add: db_holds_def)
  have "\<not> dir_exists w p" if "p \<in> set (map fst (w_files w))" "p \<noteq> []" for p
    using that wf by (auto simp: dir_exists_def fs_wf_def file_of_def map_of_eq_None_iff)
  then have "filter (dir_exists w) (filter (\<lambda>p. p \<noteq> [] \<and> butlast p = db_root db) (map fst (w_files w))) = []"
    by (auto simp: filter_empty_conv)
  moreover have "filter (dir_exists w) (filter Q (w_dirs w)) = filter Q (w_dirs w)" for Q
    by (auto simp: dir_exists_def intro!: filter_cong filter_True)
  ultimately show "filter (dir_exists w) (dir_entries w (db_root db))
      = filter (\<lambda>p. p \<noteq> [] \<and> butlast p = db_root db) (w_dirs w)"
    by (simp only: dir_entries_def filter_append append_Nil)
  show "last p \<in> dom T" if "p \<in> set (w_dirs w)" "p \<noteq> []" "butlast p = db_root db"
  proof (rule ccontr)
    assume "last p \<notin> dom T"
    then have "empty_tree w (db_root db @ [last p])" using assms by (auto simp: db_holds_def)
    moreover have "db_root db @ [last p] = p" using that(2,3) by (metis append_butlast_last_id)
    ultimately show False using that(1) by (auto simp: empty_tree_def)
  qed
  show "db_root db @ [name] \<in> set (w_dirs w)" if "name \<in> dom T" using that assms by (auto simp: db_holds_def)
qed

lemma list_tables_models:
  assumes "quiet w" and "db_holds P w db T"
  shows "\<exists>names n. list_tables (db, w) = (Done names, (db, later n w)) \<and> sorted names \<and> distinct names \<and> set names = dom T"
proof -
  let ?qs = "dir_entries w (db_root db)" let ?Q = "\<lambda>p. p \<noteq> [] \<and> butlast p = db_root db"
  let ?names = "map last (filter ?Q (w_dirs w))"
  note E = table_entries [OF assms(2)]
  have D: "dir_exists w (db_root db)" "distinct (w_dirs w)"
    using assms(2) dir_ready_exists by (auto simp: db_holds_def fs_wf_def)
  from list_names_quiet [of "later 1 w" ?qs] assms(1) obtain n where
    n: "list_names ?qs (later 1 w) = (Ok ?names, later n (later 1 w))" by (auto simp: E(1))
  have "list_tables (db, w) = (Done (sort ?names), (db, later n (later 1 w)))"
    using assms(1) D(1) n by (simp add: list_tables_def onWC_def liftA_def bindA_def fs_read_dir_def syscall_quiet returnA_def)
  moreover have "distinct ?names"
    using D(2) by (auto simp: distinct_map inj_on_def) (metis append_butlast_last_id)
  moreover have "set ?names = dom T"
  proof (intro set_eqI iffI)
    show "x \<in> dom T" if "x \<in> set ?names" for x using that E(2) by auto
    show "x \<in> set ?names" if "x \<in> dom T" for x
      using E(3) [OF that] by (auto intro!: image_eqI [of _ _ "db_root db @ [x]"])
  qed
  ultimately show ?thesis by (intro exI [of _ "sort ?names"] exI [of _ "n + 1"]) simp
qed

section \<open>Closing and reopening the database\<close>

text \<open>Dropping a \<open>Database\<close> drops its stores, in no particular order; each releases its lock.\<close>

definition drop_database :: "database \<Rightarrow> world \<Rightarrow> world" where
  "drop_database db w = fold (\<lambda>(name, s). drop_store s) (db_open db) w"

lemma drop_stores:
  "w_files (fold (\<lambda>(name, s). drop_store s) ss w) = w_files w"
  "w_dirs (fold (\<lambda>(name, s). drop_store s) ss w) = w_dirs w"
  "quiet (fold (\<lambda>(name, s). drop_store s) ss w) = quiet w"
  "set (w_locks (fold (\<lambda>(name, s). drop_store s) ss w)) = set (w_locks w) - {p. \<exists>(name, s) \<in> set ss. st_lock s = Some p}"
  by (induction ss arbitrary: w) (auto simp: drop_store_def fs_unlock_def quiet_def file_of_def split: option.splits prod.splits)

lemma reopen_database:
  assumes "quiet w" and "db_holds P w db T"
  shows "\<exists>w'. database_open (db_root db) (drop_database db w) = (Done \<lparr>db_root = db_root db, db_open = []\<rparr>, w')
    \<and> quiet w' \<and> db_holds P w' \<lparr>db_root = db_root db, db_open = []\<rparr> T"
proof -
  let ?w = "later 1 (drop_database db w)" let ?d = "\<lambda>name. db_root db @ [name]"
  note S = drop_stores [of "db_open db" w, folded drop_database_def]
  have f: "file_of ?w = file_of w" by (simp add: file_of_def fun_eq_iff S(1))
  have same: "fs_wf ?w = fs_wf w" "dir_ready ?w = dir_ready w"
    by (simp_all add: fs_wf_def dir_ready_def f [simplified] S(1,2) fun_eq_iff)
  have ready: "dir_ready (drop_database db w) = dir_ready w"
    using f by (simp add: dir_ready_def S(1,2) fun_eq_iff)
  have H: "path_ok (db_root db)" "dir_ready w (db_root db)" "fs_wf w"
    "\<And>name. T name = None \<Longrightarrow> empty_tree w (?d name)" "\<And>name. only_lock w (?d name)"
    "\<And>name b. T name = Some b \<Longrightarrow> validate_name name = Done () \<and> ?d name \<in> set (w_dirs w)"
    using assms(2) by (auto simp: db_holds_def)
  have "fs_create_dir_all (db_root db) (drop_database db w) = (Ok (), ?w)"
    using create_dir_ready [of "drop_database db w" "db_root db"] H(2) assms(1) ready S(3) by simp
  then have run: "database_open (db_root db) (drop_database db w) = (Done \<lparr>db_root = db_root db, db_open = []\<rparr>, ?w)"
    by (simp add: database_open_def mapC_def liftA_def bindR_def)
  have closed: "closed_table P ?w (?d name) b" if b: "T name = Some b" for name b
  proof -
    have "survives P w (?d name) (\<lambda>k. map_option Bytes (b k)) \<and> ?d name @ [''LOCK''] \<notin> set (w_locks (drop_database db w))"
    proof (cases "map_of (db_open db) name")
      case None
      then have "closed_table P w (?d name) b" using assms(2) b by (simp add: db_holds_def)
      then show ?thesis by (simp add: closed_table_def S(4))
    next
      case (Some s)
      then have s: "table_models P w s b" "st_dir s = ?d name" using open_table_models [OF assms(2) Some] b by auto
      then have "st_lock s = Some (?d name @ [''LOCK''])" by (auto simp: table_models_def models_def engine_def)
      moreover have "survives P w (?d name) (\<lambda>k. map_option Bytes (b k))"
        using s by (auto simp: table_models_def models_def dest!: engine_survives)
      ultimately show ?thesis using map_of_SomeD [OF Some] by (auto simp: S(4))
    qed
    then show ?thesis using survives_files [of P w "?d name" _ ?w] S(1,2) by (simp add: closed_table_def)
  qed
  have "db_holds P ?w \<lparr>db_root = db_root db, db_open = []\<rparr> T"
    unfolding db_holds_def using H closed same
    by (auto simp: empty_tree_def only_lock_def S f [simplified])
  with run assms(1) S(3) show ?thesis by (intro exI [of _ ?w]) simp
qed

end
