(* ===== verification/Ferrum_Session.thy ===== *)
theory Ferrum_Session
  imports Ferrum_Capacity Ferrum_Database
begin

text \<open>
  Sequences of calls of a table handle. \<open>yields I m r J\<close> says that from every state in \<open>I\<close> the call
  \<open>m\<close> returns \<open>r\<close> in a state of \<open>J\<close>; it composes along \<open>bindC\<close>. The state of a handle is
  described by \<open>session\<close>: the table has the contents \<open>b\<close>, at most \<open>c\<close> bytes were written, and nothing
  outside the directory of the table has changed since the handle was borrowed.
\<close>

section \<open>Calls that return\<close>

definition yields :: "('s \<Rightarrow> bool) \<Rightarrow> ('s, 'a) call \<Rightarrow> 'a \<Rightarrow> ('s \<Rightarrow> bool) \<Rightarrow> bool" where
  "yields I m r J \<longleftrightarrow> (\<forall>s. I s \<longrightarrow> (\<exists>s'. m s = (Done r, s') \<and> J s'))"

lemma yieldsI: "(\<And>s. I s \<Longrightarrow> \<exists>s'. m s = (Done r, s') \<and> J s') \<Longrightarrow> yields I m r J"
  by (simp add: yields_def)

lemma yieldsD:
  assumes "yields I m r J" and "I s"
  obtains s' where "m s = (Done r, s')" and "J s'"
  using assms by (auto simp: yields_def)

lemma yields_bind: "yields I m r J \<Longrightarrow> yields J (f r) x K \<Longrightarrow> yields I (bindC m f) x K"
  unfolding yields_def by (fastforce simp: bindC_def)

lemma yields_map: "yields I m r J \<Longrightarrow> f r = Done x \<Longrightarrow> yields I (mapC f m) x J"
  unfolding yields_def by (fastforce simp: mapC_def bindR_def)

lemma yields_return: "yields I (\<lambda>s. (Done x, s)) x I"
  by (simp add: yields_def)

lemma yields_weaken: "yields I m r J \<Longrightarrow> (\<And>s. J s \<Longrightarrow> K s) \<Longrightarrow> yields I m r K"
  unfolding yields_def by blast

section \<open>The state of a handle\<close>

definition session ::
    "prost \<Rightarrow> path \<Rightarrow> world \<Rightarrow> (bytes \<Rightarrow> bytes option) \<Rightarrow> nat \<Rightarrow> nat \<Rightarrow> store \<times> world \<Rightarrow> bool" where
  "session P d w0 b c n = (\<lambda>(s, w). quiet w \<and> sized P w s (\<lambda>k. map_option Bytes (b k)) c c n \<and> 0 < n
     \<and> tidy d s \<and> isolates d w0 w)"

definition spacious :: "nat \<Rightarrow> nat \<Rightarrow> bool" where
  "spacious c n \<longleftrightarrow> 4 * c + 100 < 2 ^ 32 \<and> n + 2 < 2 ^ 64"

lemma spacious_capacity: "spacious c n \<Longrightarrow> capacity c c n"
  by (simp add: spacious_def capacity_def)

lemma session_models: "session P d w0 b c n (s, w) \<Longrightarrow> quiet w \<and> table_models P w s b \<and> tidy d s \<and> isolates d w0 w"
  by (auto simp: session_def table_models_def intro: sized_models)

lemma map_option_upd: "(\<lambda>k. map_option f (b k))(j \<mapsto> f v) = (\<lambda>k. map_option f ((b(j \<mapsto> v)) k))"
  "(\<lambda>k. map_option f (b k))(j := None) = (\<lambda>k. map_option f ((b(j := None)) k))"
  by auto

lemma session_step:
  assumes "\<And>s w. quiet w \<Longrightarrow> sized P w s (\<lambda>k. map_option Bytes (b k)) c c n \<Longrightarrow>
      \<exists>s' w'. m (s, w) = (Done r, (s', w')) \<and> quiet w' \<and> sized P w' s' (\<lambda>k. map_option Bytes (b' k)) c' c' n'"
    and "\<And>s w s' w'. tidy d s \<Longrightarrow> m (s, w) = (Done r, (s', w')) \<Longrightarrow> tidy d s' \<and> isolates d w w'" and "n \<le> n'"
  shows "yields (session P d w0 b c n) m r (session P d w0 b' c' n')"
proof (rule yieldsI)
  fix x assume "session P d w0 b c n x"
  then obtain s w where x: "x = (s, w)" "quiet w" "sized P w s (\<lambda>k. map_option Bytes (b k)) c c n" "0 < n" "tidy d s" "isolates d w0 w"
    by (cases x) (simp add: session_def)
  from assms(1) [OF x(2,3)] obtain s' w' where
    run: "m (s, w) = (Done r, (s', w'))" "quiet w'" "sized P w' s' (\<lambda>k. map_option Bytes (b' k)) c' c' n'" by blast
  with assms(2) [OF x(5) run(1)] isolates_trans [OF x(6)] assms(3) x(1,4)
  show "\<exists>x'. m x = (Done r, x') \<and> session P d w0 b' c' n' x'" by (auto simp: session_def)
qed

context compact_codec
begin

lemma session_put:
  assumes "spacious (c + (write_load k (Some (Bytes v)) + 100)) n"
  shows "yields (session P d w0 b c n) (table_put P k v) ()
    (session P d w0 (b(k \<mapsto> v)) (c + (write_load k (Some (Bytes v)) + 100)) (n + 2))"
proof (rule session_step)
  let ?c = "write_load k (Some (Bytes v)) + 100"
  fix s w assume q: "quiet w" and s: "sized P w s (\<lambda>k. map_option Bytes (b k)) c c n"
  have "batch_cost P s [(k, Some (Bytes v))] \<le> ?c" using batch_cost_load [of s "[(k, Some (Bytes v))]"] by simp
  from set_value_sized [OF q s this spacious_capacity [OF assms]]
  show "\<exists>s' w'. table_put P k v (s, w) = (Done (), (s', w')) \<and> quiet w'
      \<and> sized P w' s' (\<lambda>j. map_option Bytes ((b(k \<mapsto> v)) j)) (c + ?c) (c + ?c) (n + 2)"
    unfolding map_option_upd by (auto simp: table_put_def mapC_def liftA_def bindR_def)
qed (simp_all add: table_calls_isolate(1))

lemma session_delete:
  assumes "spacious (c + (write_load k None + 100)) n"
  shows "yields (session P d w0 b c n) (table_delete P k) ()
    (session P d w0 (b(k := None)) (c + (write_load k None + 100)) (n + 2))"
proof (rule session_step)
  let ?c = "write_load k None + 100"
  fix s w assume q: "quiet w" and s: "sized P w s (\<lambda>k. map_option Bytes (b k)) c c n"
  have "batch_cost P s [(k, None)] \<le> ?c" using batch_cost_load [of s "[(k, None)]"] by simp
  from delete_value_sized [OF q s this spacious_capacity [OF assms]]
  show "\<exists>s' w'. table_delete P k (s, w) = (Done (), (s', w')) \<and> quiet w'
      \<and> sized P w' s' (\<lambda>j. map_option Bytes ((b(k := None)) j)) (c + ?c) (c + ?c) (n + 2)"
    unfolding map_option_upd by (auto simp: table_delete_def mapC_def liftA_def bindR_def)
qed (simp_all add: table_calls_isolate(2))

lemma session_get: "yields (session P d w0 b c n) (table_get P k) (b k) (session P d w0 b c n)"
proof (rule session_step)
  fix s w assume "quiet w" and "sized P w s (\<lambda>k. map_option Bytes (b k)) c c n"
  from get_value_sized [OF this, of k]
  show "\<exists>s' w'. table_get P k (s, w) = (Done (b k), (s', w')) \<and> quiet w' \<and> sized P w' s' (\<lambda>k. map_option Bytes (b k)) c c n"
    by (auto simp: table_get_def mapC_def liftA_def bindR_def)
qed (simp_all add: table_calls_isolate(3))

lemma session_contains: "yields (session P d w0 b c n) (table_contains P k) (b k \<noteq> None) (session P d w0 b c n)"
  unfolding table_contains_def by (rule yields_map [OF session_get]) simp

lemma session_get_batch:
  "yields (session P d w0 b c n) (table_get_batch P ks) (map b ks) (session P d w0 b c n)"
  by (induction ks) (auto intro!: yields_return yields_bind [OF session_get] yields_map)

lemma session_put_batch:
  assumes "spacious (c + (sum_list (map (\<lambda>(k, v). write_load k (Some (Bytes v))) es) + 100)) n"
  shows "yields (session P d w0 b c n) (table_put_batch P es) ()
    (session P d w0 (b ++ map_of (rev es)) (c + (sum_list (map (\<lambda>(k, v). write_load k (Some (Bytes v))) es) + 100)) (n + 2))"
proof (rule session_step)
  let ?c = "sum_list (map (\<lambda>(k, v). write_load k (Some (Bytes v))) es) + 100"
  fix s w assume q: "quiet w" and s: "sized P w s (\<lambda>k. map_option Bytes (b k)) c c n"
  define ops where "ops = map (\<lambda>(k, v). TxSet k (Bytes v)) es"
  define t where "t = fold tx_step ops (begin_transaction s)"
  have t: "tx_store t = s" "bt_sorted (tx_pending t)" by (simp_all add: t_def tx_steps)
  have "sum_list (map tx_load ops) = sum_list (map (\<lambda>(k, v). write_load k (Some (Bytes v))) es)"
    by (simp add: ops_def comp_def case_prod_unfold)
  then have cost: "batch_cost P (tx_store t) (tx_pending t) \<le> ?c"
    using batch_cost_load [of "tx_store t" "tx_pending t"] pending_load [of ops "begin_transaction s"] by (simp add: t_def)
  have "apply_batch (tx_pending t) (\<lambda>k. map_option Bytes (b k)) = (\<lambda>k. map_option Bytes ((b ++ map_of (rev es)) k))"
    by (simp add: t_def tx_steps_batch ops_def put_batch_effect)
  with tx_commit_sized [OF q s [folded t(1)] t(2) cost spacious_capacity [OF assms]]
  show "\<exists>s' w'. table_put_batch P es (s, w) = (Done (), (s', w')) \<and> quiet w'
      \<and> sized P w' s' (\<lambda>k. map_option Bytes ((b ++ map_of (rev es)) k)) (c + ?c) (c + ?c) (n + 2)"
    by (auto simp: table_put_batch_def put_batch_steps Let_def simp flip: ops_def t_def)
qed (simp_all add: table_calls_isolate(5))

end

section \<open>Borrowing a handle\<close>

lemma sized_agree: "sized P w s m b l n \<Longrightarrow> agree (st_dir s) w w' \<Longrightarrow> sized P w' s m b l n"
  by (auto simp: sized_def intro: engine_agree)

context prost_codec
begin

lemma with_table_session:
  assumes "db_holds P w db T" and "map_of (db_open db) name = Some s" and "quiet w"
    and "sized P w s (\<lambda>k. map_option Bytes (b k)) c c n" and "0 < n"
    and "yields (session P (st_dir s) w b c n) m r (\<lambda>(s', w'). \<exists>c n. session P (st_dir s) w b' c n (s', w'))"
  shows "\<exists>s' w'. with_table P name m (db, w) = (Done r, (db\<lparr>db_open := AList.update name s' (db_open db)\<rparr>, w')) \<and> quiet w'
    \<and> db_holds P w' (db\<lparr>db_open := AList.update name s' (db_open db)\<rparr>) (T(name \<mapsto> b'))"
proof -
  have "table_models P w s b" using sized_models [OF assms(4)] by (simp add: table_models_def)
  then have "tidy (st_dir s) s" by (auto simp: table_models_def intro: models_tidy)
  then have "session P (st_dir s) w b c n (s, w)" using assms(3-5) by (simp add: session_def)
  from yieldsD [OF assms(6) this] obtain x where
    x: "m (s, w) = (Done r, x)" "case x of (s', w') \<Rightarrow> \<exists>c n. session P (st_dir s) w b' c n (s', w')" .
  obtain s' w' where "x = (s', w')" by (cases x)
  with x have run: "m (s, w) = (Done r, (s', w'))" "\<exists>c n. session P (st_dir s) w b' c n (s', w')" by simp_all
  from run(2) have M: "quiet w' \<and> table_models P w' s' b' \<and> tidy (st_dir s) s' \<and> isolates (st_dir s) w w'"
    using session_models by blast
  from with_table_open [where m = m, OF assms(1,2) run(1), of b'] M show ?thesis by blast
qed

end

section \<open>A fresh database\<close>

lemma fresh_database:
  assumes "quiet w" and "fs_wf w" and "path_ok root" and "root \<noteq> []" and "\<forall>q \<in> set (ancestors root). file_of w q = None"
    and "\<And>p. in_tree root p \<Longrightarrow> file_of w p = None \<and> p \<notin> set (w_dirs w) \<and> p \<notin> set (w_locks w)"
  shows "\<exists>w'. database_open root w = (Done \<lparr>db_root = root, db_open = []\<rparr>, w') \<and> quiet w'
    \<and> db_holds P w' \<lparr>db_root = root, db_open = []\<rparr> (\<lambda>name. None)"
proof -
  define w1 where "w1 = make_dirs (ancestors root) (later 1 w)"
  have "fs_create_dir_all root w = (Ok (), w1)" using assms(1,5) by (auto simp: fs_create_dir_all_def w1_def)
  then have "database_open root w = (Done \<lparr>db_root = root, db_open = []\<rparr>, w1)"
    by (simp add: database_open_def mapC_def liftA_def bindR_def)
  moreover have "quiet w1" using quiet_preserved(1) [OF assms(1), of 1] by (simp add: w1_def make_dirs_def quiet_def)
  moreover have "db_holds P w1 \<lparr>db_root = root, db_open = []\<rparr> (\<lambda>name. None)"
  proof -
    have "within root w w1"
      unfolding w1_def using assms(5) distinct_ancestors by (intro within_make_dirs within_later within_refl) auto
    then have wf: "fs_wf w1" using assms(2) by (simp add: within_def)
    have f: "file_of w1 = file_of w" by (simp add: w1_def make_dirs_def file_of_def fun_eq_iff)
    have d: "set (w_dirs w1) = set (w_dirs w) \<union> set (ancestors root)" "w_locks w1 = w_locks w" by (auto simp: w1_def make_dirs_def)
    have "p \<notin> set (ancestors root)" if "in_tree (root @ [name]) p" for name p
    proof
      assume "p \<in> set (ancestors root)"
      from prefix_length_le [OF ancestor_prefix [OF this]] show False
        using that prefix_length_le [of "root @ [name]" p] by (auto simp: in_tree_prefix)
    qed
    moreover have "in_tree root p" if "in_tree (root @ [name]) p" for name p
      using that by (auto simp: in_tree_prefix prefix_def)
    ultimately show ?thesis
      using assms(3,5,6) wf by (auto simp: db_holds_def dir_ready_def empty_tree_def only_lock_def f d)
  qed
  ultimately show ?thesis by blast
qed

text \<open>Removing a directory tree in a quiet world.\<close>

lemma removed_tree:
  assumes "quiet w" and "fs_wf w" and "d \<notin> set (w_dirs w) \<Longrightarrow> \<forall>p. in_tree d p \<longrightarrow> file_of w p = None \<and> p \<notin> set (w_dirs w)"
  defines "w' \<equiv> snd (fs_remove_dir_all d w)"
  shows "quiet w'" and "fs_wf w'" and "file_of w' q = (if in_tree d q then None else file_of w q)"
    and "w_locks w' = w_locks w" and "in_tree d p \<Longrightarrow> p \<notin> set (w_dirs w')"
proof -
  have f: "file_of w' q = (if in_tree d q then None else file_of w q)" for q
    using map_of_filter_keys [of "\<lambda>p. \<not> in_tree d p" "w_files w" q] assms(1,3) by (auto simp: w'_def fs_remove_dir_all_def file_of_def)
  then show "file_of w' q = (if in_tree d q then None else file_of w q)" .
  have "distinct (map fst (w_files w'))" "distinct (w_dirs w')" "set (w_dirs w') \<subseteq> set (w_dirs w)"
    using assms(1,2) by (auto simp: fs_wf_def w'_def fs_remove_dir_all_def distinct_map_filter)
  then show "fs_wf w'" using assms(2) by (auto simp: fs_wf_def f)
  have q: "quiet (later 1 w)" using assms(1) by simp
  then show "quiet w'" using assms(1) by (auto simp: w'_def fs_remove_dir_all_def quiet_def)
  show "w_locks w' = w_locks w" using assms(1) by (simp add: w'_def fs_remove_dir_all_def)
  show "in_tree d p \<Longrightarrow> p \<notin> set (w_dirs w')" using assms(1,3) by (auto simp: w'_def fs_remove_dir_all_def)
qed

section \<open>A database between calls\<close>

text \<open>The tables of \<open>F\<close> have been created by this process and nothing was written to them yet.\<close>

definition holding :: "prost \<Rightarrow> path \<Rightarrow> tables \<Rightarrow> string set \<Rightarrow> database \<times> world \<Rightarrow> bool" where
  "holding P root T F = (\<lambda>(db, w). quiet w \<and> db_holds P w db T \<and> db_root db = root
     \<and> (\<forall>name \<in> F. \<exists>s. map_of (db_open db) name = Some s \<and> sized P w s (\<lambda>k. None) 0 0 1))"

lemma holding_list:
  assumes "set names = dom T" and "sorted names" and "distinct names"
  shows "yields (holding P root T F) list_tables names (holding P root T F)"
proof (rule yieldsI)
  fix x assume "holding P root T F x"
  then obtain db w where x: "x = (db, w)" "quiet w" "db_holds P w db T" "holding P root T F (db, w)"
    by (cases x) (simp add: holding_def)
  from list_tables_models [OF x(2,3)] obtain names' n where
    r: "list_tables (db, w) = (Done names', (db, later n w))" "sorted names' \<and> distinct names' \<and> set names' = dom T" by blast
  then have "names' = names" using assms sorted_distinct_set_unique [of names' names] by simp
  moreover have "holding P root T F (db, later n w)" using x(4) by (auto simp: holding_def db_holds_later sized_later)
  ultimately show "\<exists>x'. list_tables x = (Done names, x') \<and> holding P root T F x'" using x(1) r(1) by auto
qed

context prost_codec
begin

lemma holding_create:
  assumes "validate_name name = Done ()" and "T name = None"
  shows "yields (holding P root T F) (create_table P name) () (holding P root (T(name \<mapsto> (\<lambda>k. None))) (insert name F))"
proof (rule yieldsI)
  fix x assume "holding P root T F x"
  then obtain db w where x: "x = (db, w)" "quiet w" "db_holds P w db T" "db_root db = root"
      "\<forall>name \<in> F. \<exists>s. map_of (db_open db) name = Some s \<and> sized P w s (\<lambda>k. None) 0 0 1"
    by (cases x) (simp add: holding_def)
  from create_table_models [OF x(2,3) assms] obtain s w' where
    r: "create_table P name (db, w) = (Done (), (db\<lparr>db_open := AList.update name s (db_open db)\<rparr>, w'))" "quiet w'"
      "db_holds P w' (db\<lparr>db_open := AList.update name s (db_open db)\<rparr>) (T(name \<mapsto> (\<lambda>k. None)))"
      "sized P w' s (\<lambda>k. None) 0 0 1" "others_same (db_root db) name w w'" by blast
  have "sized P w' t (\<lambda>k. None) 0 0 1" if "n \<noteq> name" "map_of (db_open db) n = Some t" "sized P w t (\<lambda>k. None) 0 0 1" for n t
  proof -
    have "st_dir t = db_root db @ [n]" using open_table_models [OF x(3) that(2)] by metis
    with r(5) that(1) have "agree (st_dir t) w w'" by (simp add: others_same_def)
    from sized_agree [OF that(3) this] show ?thesis .
  qed
  with r x(4,5) closed_not_open [OF x(3) assms(2)]
  have "holding P root (T(name \<mapsto> (\<lambda>k. None))) (insert name F) (db\<lparr>db_open := AList.update name s (db_open db)\<rparr>, w')"
    by (auto simp: holding_def update_conv)
  with r(1) x(1) show "\<exists>x'. create_table P name x = (Done (), x')
      \<and> holding P root (T(name \<mapsto> (\<lambda>k. None))) (insert name F) x'" by blast
qed

lemma holding_get:
  assumes "T name = Some b" and "validate_name name = Done ()"
  shows "yields (holding P root T {}) (with_table P name (table_get P k)) (b k) (holding P root T {})"
proof (rule yieldsI)
  fix x assume "holding P root T {} x"
  then obtain db w where x: "x = (db, w)" "quiet w" "db_holds P w db T" "db_root db = root"
    by (cases x) (simp add: holding_def)
  have T: "the_table T name = b" "T(name \<mapsto> b) = T" using assms(1) by (auto simp: the_table_def)
  from database_get [OF x(2,3) assms(2), of k] x(1,4)
  show "\<exists>x'. with_table P name (table_get P k) x = (Done (b k), x') \<and> holding P root T {} x'"
    by (auto simp: holding_def T)
qed

lemma holding_use:
  assumes "name \<in> F"
    and "\<And>d w. yields (session P d w (\<lambda>k. None) 0 1) m r (\<lambda>(s', w'). \<exists>c n. session P d w b c n (s', w'))"
  shows "yields (holding P root T F) (with_table P name m) r (holding P root (T(name \<mapsto> b)) {})"
proof (rule yieldsI)
  fix x assume "holding P root T F x"
  with assms(1) obtain db w s where x: "x = (db, w)" "quiet w" "db_holds P w db T" "db_root db = root"
      "map_of (db_open db) name = Some s" "sized P w s (\<lambda>k. None) 0 0 1"
    by (cases x) (auto simp: holding_def)
  from with_table_session [OF x(3,5,2), of "\<lambda>k. None" 0 1 m r b] x(6) assms(2) x(1,4)
  show "\<exists>x'. with_table P name m x = (Done r, x') \<and> holding P root (T(name \<mapsto> b)) {} x'"
    by (auto simp: holding_def)
qed

end

section \<open>Sessions on a new table\<close>

context compact_codec
begin

lemma new_table_session:
  assumes "quiet w" and "fs_wf w" and "empty_tree w d" and "\<forall>q \<in> set (ancestors d). file_of w q = None"
    and "\<forall>op \<in> set ops. \<not> inverted_scan op" and "sum_list (map op_load ops) < 2 ^ 29" and "length ops < 2 ^ 62"
  shows "\<exists>s w1. open_path P d w = (Ok s, w1) \<and> (\<exists>tr sw'. map fst tr = ops \<and> store_run P (s, w1) tr sw')
    \<and> (\<forall>tr s' w'. map fst tr = ops \<and> store_run P (s, w1) tr (s', w')
         \<longrightarrow> (\<exists>m. map_run (\<lambda>k. None) tr m \<and> quiet w' \<and> models P w' s' m))"
proof -
  have D: "on_disk P w d [] [] []" "d @ [''LOCK''] \<notin> set (w_locks w)"
    using assms(2-4) fresh_on_disk [of w d P] by (auto simp: empty_tree_def)
  from open_fresh [OF assms(1) D] obtain s w1 where
    s: "open_path P d w = (Ok s, w1)" "quiet w1" "sized P w1 s (\<lambda>k. None) 0 0 1" by blast
  have "capacity (0 + sum_list (map op_load ops)) (0 + sum_list (map op_load ops)) (1 + 2 * length ops)"
    using assms(6,7) by (simp add: capacity_def)
  from session_exists [OF s(2,3) _ this assms(5)] have "\<exists>tr sw'. map fst tr = ops \<and> store_run P (s, w1) tr sw'" by simp
  moreover have "\<exists>m. map_run (\<lambda>k. None) tr m \<and> quiet w' \<and> models P w' s' m"
    if "map fst tr = ops" "store_run P (s, w1) tr (s', w')" for tr s' w'
  proof -
    have "sum_list (map (op_load \<circ> fst) tr) < 2 ^ 29" "length tr < 2 ^ 62" "\<forall>(op, a) \<in> set tr. \<not> inverted_scan op"
      using assms(5-7) unfolding that(1) [symmetric] by auto
    with fresh_session [OF assms(1) D s(1) that(2)] show ?thesis by blast
  qed
  ultimately show ?thesis using s(1) by blast
qed

end

end
