(* ===== verification/Ferrum_Demo.thy ===== *)
theory Ferrum_Demo
  imports Ferrum_Session
begin

text \<open>
  The example program \<open>ferrumdb/examples/demo.rs\<close>: a tour of the public crate. A call of
  \<open>println\<close> is modelled by the value it prints and the text in front of it and behind it; how Rust
  renders the value is left out. The program is proved to succeed, and to print what its comments promise,
  with any compact codec and whatever an earlier run left in its directory.
\<close>

section \<open>The program\<close>

datatype printed = NoArg | Names "string list" | Shown "bytes option" | ShownAll "bytes option list" | Flag bool | Raw "bytes option"

type_synonym line = "string \<times> printed \<times> string"

definition newline :: string where
  "newline = [CHR 0x0A]"

definition absent :: string where
  "absent = ''  (absent)'' @ newline"

definition printing :: "('s, 'a) call \<Rightarrow> ('s \<times> line list, 'a) call" where
  "printing m = (\<lambda>(s, out). case m s of (r, s') \<Rightarrow> (r, (s', out)))"

definition println :: "line \<Rightarrow> ('s \<times> line list, unit) call" where
  "println l = (\<lambda>(s, out). (Done (), (s, out @ [l])))"

text \<open>A block of calls on a borrowed table, with what it printed up to where it ended.\<close>

definition capture :: "('s \<times> line list, unit) call \<Rightarrow> ('s, unit reply \<times> line list) call" where
  "capture m s = (case m (s, []) of (r, (s', out)) \<Rightarrow> (Done (r, out), s'))"

definition with_table_printing :: "prost \<Rightarrow> string \<Rightarrow> ((store \<times> world) \<times> line list, unit) call
    \<Rightarrow> ((database \<times> world) \<times> line list, unit) call" where
  "with_table_printing P name m = bindC (printing (with_table P name (capture m))) (\<lambda>(r, ls) (s, out). (r, (s, out @ ls)))"

definition ascii :: "string \<Rightarrow> bytes" where
  "ascii s = map of_char s"

definition demo_root :: path where
  "demo_root = path_of_str ''./data/demo''"

definition demo_users :: "prost \<Rightarrow> ((store \<times> world) \<times> line list, unit) call" where
  "demo_users P =
     bindC (printing (table_put P (ascii ''user:42'') (ascii ''alice''))) (\<lambda>_.
     bindC (printing (table_put P (ascii ''user:7'') (ascii ''bob''))) (\<lambda>_.
     bindC (printing (table_get P (ascii ''user:42''))) (\<lambda>v.
     bindC (println (''get user:42 -> '', Shown v, '''')) (\<lambda>_.
     bindC (printing (table_get P (ascii ''user:99''))) (\<lambda>v.
     bindC (println (''get user:99 -> '', Shown v, absent)) (\<lambda>_.
     bindC (printing (table_put P (ascii ''user:42'') (ascii ''alice smith''))) (\<lambda>_.
     bindC (printing (table_get P (ascii ''user:42''))) (\<lambda>v.
     bindC (println (''after overwrite, user:42 -> '', Shown v, newline)) (\<lambda>_.
     bindC (printing (table_put_batch P [(ascii ''user:1'', ascii ''carol''),
        (ascii ''user:2'', ascii ''dave''), (ascii ''user:3'', ascii ''erin'')])) (\<lambda>_.
     bindC (printing (table_get_batch P [ascii ''user:1'', ascii ''user:2'', ascii ''nope''])) (\<lambda>batch.
     bindC (println (''get_batch [user:1, user:2, nope] -> '', ShownAll batch, newline)) (\<lambda>_.
     bindC (printing (table_contains P (ascii ''user:7''))) (\<lambda>c.
     bindC (println (''contains user:7 -> '', Flag c, '''')) (\<lambda>_.
     bindC (printing (table_delete P (ascii ''user:7''))) (\<lambda>_.
     bindC (printing (table_contains P (ascii ''user:7''))) (\<lambda>c.
     bindC (println (''after delete, contains user:7 -> '', Flag c, newline)) (\<lambda>_.
     bindC (printing (table_put P (ascii ''raw'') [0, 255, 1, 254, 42])) (\<lambda>_.
     bindC (printing (table_get P (ascii ''raw''))) (\<lambda>v.
     println (''raw bytes round-trip -> '', Raw v, newline))))))))))))))))))))"

definition demo_first :: "prost \<Rightarrow> ((database \<times> world) \<times> line list, unit) call" where
  "demo_first P =
     bindC (println (''opened database at ./data/demo'', NoArg, '''')) (\<lambda>_.
     bindC (printing (create_table P ''users'')) (\<lambda>_.
     bindC (printing (create_table P ''config'')) (\<lambda>_.
     bindC (printing list_tables) (\<lambda>names.
     bindC (println (''tables: '', Names names, newline)) (\<lambda>_.
     with_table_printing P ''users'' (demo_users P))))))"

definition demo_second :: "prost \<Rightarrow> ((database \<times> world) \<times> line list, unit) call" where
  "demo_second P =
     bindC (printing (with_table P ''users'' (table_get P (ascii ''user:42'')))) (\<lambda>v.
     bindC (println (''after reopen, user:42 -> '', Shown v, '''')) (\<lambda>_.
     bindC (printing list_tables) (\<lambda>names.
     bindC (println (''tables still there: '', Names names, '''')) (\<lambda>_.
     println (newline @ ''done. inspect the files with:  ls -la ./data/demo/users'', NoArg, '''')))))"

text \<open>Opening the database, using it, and dropping it on every way out.\<close>

definition with_database ::
    "path \<Rightarrow> ((database \<times> world) \<times> line list, unit) call \<Rightarrow> (world \<times> line list, unit) call" where
  "with_database root body = (\<lambda>(w, out).
     case database_open root w of
       (Done db, w1) \<Rightarrow>
         (case body ((db, w1), out) of (r, ((db', w2), out')) \<Rightarrow> (r, (drop_database db' w2, out')))
     | (Fail e, w1) \<Rightarrow> (Fail e, (w1, out))
     | (Abort, w1) \<Rightarrow> (Abort, (w1, out)))"

definition demo_main :: "prost \<Rightarrow> world \<Rightarrow> unit reply \<times> (world \<times> line list)" where
  "demo_main P w =
     (let w1 = snd (fs_remove_dir_all demo_root w) in
      bindC (with_database demo_root (demo_first P)) (\<lambda>_. with_database demo_root (demo_second P)) (w1, []))"

section \<open>Calls that print\<close>

abbreviation (input) noting :: "('s \<Rightarrow> bool) \<Rightarrow> line list \<Rightarrow> 's \<times> line list \<Rightarrow> bool" where
  "noting I out \<equiv> (\<lambda>(s, ls). I s \<and> ls = out)"

lemma yields_printing: "yields I m r J \<Longrightarrow> yields (noting I out) (printing m) r (noting J out)"
  unfolding yields_def by (fastforce simp: printing_def)

lemma yields_println: "yields (noting I out) (println l) () (noting I (out @ [l]))"
  by (auto simp: yields_def println_def)

lemma yields_capture: "yields (noting I []) m () (noting J out) \<Longrightarrow> yields I (capture m) (Done (), out) J"
  unfolding yields_def by (fastforce simp: capture_def)

lemma ascii_eq [simp]: "ascii a = ascii b \<longleftrightarrow> a = b"
proof -
  have "inj (of_char :: char \<Rightarrow> u8)"
  proof (rule injI)
    fix x y assume eq: "(of_char x :: u8) = of_char y"
    have of: "(of_char c :: u8) = word_of_nat (of_char c)" for c by (simp add: of_nat_of_char)
    have "unat (word_of_nat (of_char c) :: u8) = of_char c" for c
      by (simp add: unat_of_nat take_bit_eq_mod)
    then have "(of_char x :: nat) = of_char y" using eq unfolding of by metis
    then show "x = y" by simp
  qed
  then show ?thesis by (simp add: ascii_def inj_map_eq_map)
qed

lemma length_ascii [simp]: "length (ascii s) = length s"
  by (simp add: ascii_def)

definition demo_lines :: "line list" where
  "demo_lines =
     [(''get user:42 -> '', Shown (Some (ascii ''alice'')), ''''), (''get user:99 -> '', Shown None, absent),
      (''after overwrite, user:42 -> '', Shown (Some (ascii ''alice smith'')), newline),
      (''get_batch [user:1, user:2, nope] -> '', ShownAll [Some (ascii ''carol''), Some (ascii ''dave''), None], newline),
      (''contains user:7 -> '', Flag True, ''''), (''after delete, contains user:7 -> '', Flag False, newline),
      (''raw bytes round-trip -> '', Raw (Some [0, 255, 1, 254, 42]), newline)]"

definition users_map :: "bytes \<Rightarrow> bytes option" where
  "users_map = [ascii ''user:42'' \<mapsto> ascii ''alice smith'', ascii ''user:1'' \<mapsto> ascii ''carol'',
     ascii ''user:2'' \<mapsto> ascii ''dave'', ascii ''user:3'' \<mapsto> ascii ''erin'', ascii ''raw'' \<mapsto> [0, 255, 1, 254, 42]]"

definition demo_tables :: tables where
  "demo_tables = [''users'' \<mapsto> users_map, ''config'' \<mapsto> (\<lambda>k. None)]"

lemma demo_names:
  "set [''config'', ''users''] = dom demo_tables" "sorted [''config'', ''users'']" "distinct [''config'', ''users'']"
  by (auto simp: demo_tables_def dom_def split: if_splits)

context compact_codec
begin

lemma demo_users_session:
  "yields (noting (session P d w0 (\<lambda>k. None) 0 1) []) (demo_users P) ()
     (\<lambda>((s, w), ls). (\<exists>c n. session P d w0 users_map c n (s, w)) \<and> ls = demo_lines)"
  unfolding demo_users_def
  by (rule yields_weaken,
      (rule yields_bind, (rule yields_println | rule yields_printing, (rule session_get session_contains session_get_batch
        | rule session_put session_delete session_put_batch, simp add: spacious_def write_load_def)))+,
      rule yields_println, auto simp: users_map_def demo_lines_def)

text \<open>A block of calls on a table that was just created.\<close>

lemma holding_block:
  assumes "name \<in> F"
    and "\<And>d w. yields (noting (session P d w (\<lambda>k. None) 0 1) []) m () (\<lambda>((s', w'), ls). (\<exists>c n. session P d w b c n (s', w')) \<and> ls = new)"
  shows "yields (noting (holding P root T F) out) (with_table_printing P name m) ()
    (noting (holding P root (T(name \<mapsto> b)) {}) (out @ new))"
proof -
  have "yields (session P d w (\<lambda>k. None) 0 1) (capture m) (Done (), new) (\<lambda>(s', w'). \<exists>c n. session P d w b c n (s', w'))" for d w
    using assms(2) [of d w] unfolding yields_def by (fastforce simp: capture_def)
  from yields_printing [OF holding_use [OF assms(1) this]]
  show ?thesis
    unfolding with_table_printing_def
    by (rule yields_bind) (auto simp: yields_def)
qed

text \<open>What the two halves of the program print.\<close>

lemma demo_first_holds:
  "yields (noting (holding P demo_root (\<lambda>name. None) {}) []) (demo_first P) () (noting (holding P demo_root demo_tables {})
     ((''opened database at ./data/demo'', NoArg, '''') # (''tables: '', Names [''config'', ''users''], newline) # demo_lines))"
proof (rule yields_weaken)
  let ?T = "(\<lambda>name. None)(''users'' \<mapsto> (\<lambda>k. None), ''config'' \<mapsto> (\<lambda>k. None))"
  have names: "set [''config'', ''users''] = dom ?T" by auto
  have valid: "validate_name ''users'' = Done ()" "validate_name ''config'' = Done ()" by (simp_all add: validate_name_def)
  show "yields (noting (holding P demo_root (\<lambda>name. None) {}) []) (demo_first P) () (noting
      (holding P demo_root (?T(''users'' \<mapsto> users_map)) {}) (([] @ [(''opened database at ./data/demo'', NoArg, '''')])
        @ [(''tables: '', Names [''config'', ''users''], newline)] @ demo_lines))"
    unfolding demo_first_def append_assoc [symmetric]
    by (rule yields_bind [OF yields_println] yields_bind [OF yields_printing [OF holding_create]] valid
        yields_bind [OF yields_printing [OF holding_list [OF names demo_names(2,3)]]] holding_block insertI1 insertI2
        demo_users_session | simp)+
qed (auto simp: demo_tables_def fun_upd_twist)

lemma demo_second_holds:
  "yields (noting (holding P demo_root demo_tables {}) out) (demo_second P) () (noting (holding P demo_root demo_tables {})
     (out @ [(''after reopen, user:42 -> '', Shown (Some (ascii ''alice smith'')), ''''), (''tables still there: '', Names [''config'', ''users''], ''''),
       (newline @ ''done. inspect the files with:  ls -la ./data/demo/users'', NoArg, '''')]))"
proof (rule yields_weaken)
  have users: "demo_tables ''users'' = Some users_map" "validate_name ''users'' = Done ()"
    by (simp_all add: demo_tables_def validate_name_def)
  show "yields (noting (holding P demo_root demo_tables {}) out) (demo_second P) () (noting (holding P demo_root demo_tables {})
     (((out @ [(''after reopen, user:42 -> '', Shown (users_map (ascii ''user:42'')), '''')])
       @ [(''tables still there: '', Names [''config'', ''users''], '''')])
       @ [(newline @ ''done. inspect the files with:  ls -la ./data/demo/users'', NoArg, '''')]))"
    unfolding demo_second_def
    by (rule yields_bind [OF yields_printing [OF holding_get [where T = demo_tables and name = "''users''", OF users]]] yields_bind [OF yields_println]
        yields_bind [OF yields_printing [OF holding_list [OF demo_names]]] yields_println)+
qed (auto simp: users_map_def)

end

section \<open>The whole program\<close>

text \<open>
  What the program finds: no file in the way of its directory, no process that holds a lock in it, and
  nothing below it unless it exists.
\<close>

definition demo_ready :: "world \<Rightarrow> bool" where
  "demo_ready w \<longleftrightarrow> quiet w \<and> fs_wf w \<and> (\<forall>q \<in> set (ancestors demo_root). file_of w q = None)
     \<and> (\<forall>p. in_tree demo_root p \<longrightarrow> p \<notin> set (w_locks w))
     \<and> (demo_root \<notin> set (w_dirs w) \<longrightarrow> (\<forall>p. in_tree demo_root p \<longrightarrow> file_of w p = None \<and> p \<notin> set (w_dirs w)))"

lemma demo_root_ok: "path_ok demo_root" "demo_root \<noteq> []"
  by (simp_all add: demo_root_def path_of_str_def path_ok_def normal_components_def normal_component_def)

lemma demo_start:
  assumes "demo_ready w"
  shows "\<exists>w'. database_open demo_root (snd (fs_remove_dir_all demo_root w)) = (Done \<lparr>db_root = demo_root, db_open = []\<rparr>, w')
    \<and> holding P demo_root (\<lambda>name. None) {} (\<lparr>db_root = demo_root, db_open = []\<rparr>, w')"
proof -
  note R = removed_tree [of w demo_root]
  have "\<exists>w'. database_open demo_root (snd (fs_remove_dir_all demo_root w)) = (Done \<lparr>db_root = demo_root, db_open = []\<rparr>, w')
    \<and> quiet w' \<and> db_holds P w' \<lparr>db_root = demo_root, db_open = []\<rparr> (\<lambda>name. None)"
    using assms R by (intro fresh_database demo_root_ok) (auto simp: demo_ready_def)
  then show ?thesis by (auto simp: holding_def)
qed

lemma with_database_holds:
  assumes "database_open root w = (Done db, w1)" and "holding P root T F (db, w1)"
    and "yields (noting (holding P root T F) out) body () (noting (holding P root T' {}) out')"
  shows "\<exists>w'. with_database root body (w, out) = (Done (), (w', out'))
    \<and> (\<exists>w1. database_open root w' = (Done \<lparr>db_root = root, db_open = []\<rparr>, w1)
      \<and> holding P root T' {} (\<lparr>db_root = root, db_open = []\<rparr>, w1))"
proof -
  from yieldsD [OF assms(3), of "((db, w1), out)"] assms(2) obtain x where
    x: "body ((db, w1), out) = (Done (), x)" "case x of (s, ls) \<Rightarrow> holding P root T' {} s \<and> ls = out'" by blast
  obtain db' w2 ls where "x = ((db', w2), ls)" by (cases x) auto
  with x have b: "body ((db, w1), out) = (Done (), ((db', w2), out'))" "holding P root T' {} (db', w2)" by simp_all
  then have "quiet w2" "db_holds P w2 db' T'" "db_root db' = root" by (simp_all add: holding_def)
  from reopen_database [OF this(1,2)] this(3) b(1) assms(1) show ?thesis
    by (auto simp: with_database_def holding_def)
qed

definition demo_output :: "line list" where
  "demo_output = (''opened database at ./data/demo'', NoArg, '''') # (''tables: '', Names [''config'', ''users''], newline) # demo_lines
     @ [(''after reopen, user:42 -> '', Shown (Some (ascii ''alice smith'')), ''''), (''tables still there: '', Names [''config'', ''users''], ''''),
        (newline @ ''done. inspect the files with:  ls -la ./data/demo/users'', NoArg, '''')]"

context compact_codec
begin

lemma demo_main_prints:
  assumes "demo_ready w"
  shows "\<exists>w'. demo_main P w = (Done (), (w', demo_output))
    \<and> (\<exists>w1. database_open demo_root w' = (Done \<lparr>db_root = demo_root, db_open = []\<rparr>, w1)
      \<and> db_holds P w1 \<lparr>db_root = demo_root, db_open = []\<rparr> demo_tables)"
proof -
  let ?w = "snd (fs_remove_dir_all demo_root w)"
  from demo_start [OF assms] obtain w1 where
    "database_open demo_root ?w = (Done \<lparr>db_root = demo_root, db_open = []\<rparr>, w1)"
    "holding P demo_root (\<lambda>name. None) {} (\<lparr>db_root = demo_root, db_open = []\<rparr>, w1)" by blast
  from with_database_holds [OF this demo_first_holds] obtain w2 w3 where
    first: "with_database demo_root (demo_first P) (?w, []) = (Done (), (w2,
        (''opened database at ./data/demo'', NoArg, '''') # (''tables: '', Names [''config'', ''users''], newline) # demo_lines))"
    and w3: "database_open demo_root w2 = (Done \<lparr>db_root = demo_root, db_open = []\<rparr>, w3)"
      "holding P demo_root demo_tables {} (\<lparr>db_root = demo_root, db_open = []\<rparr>, w3)" by blast
  from with_database_holds [OF w3 demo_second_holds] obtain w4 where
    "with_database demo_root (demo_second P) (w2,
        (''opened database at ./data/demo'', NoArg, '''') # (''tables: '', Names [''config'', ''users''], newline) # demo_lines)
      = (Done (), (w4, demo_output))"
    "\<exists>w1. database_open demo_root w4 = (Done \<lparr>db_root = demo_root, db_open = []\<rparr>, w1)
      \<and> holding P demo_root demo_tables {} (\<lparr>db_root = demo_root, db_open = []\<rparr>, w1)"
    unfolding demo_output_def append_Cons [symmetric] by blast
  with first show ?thesis
    by (intro exI [of _ w4]) (auto simp: demo_main_def Let_def bindC_def holding_def)
qed

end

end
