(* ===== verification/Ferrum_Isolation.thy ===== *)
theory Ferrum_Isolation
  imports Ferrum_Database
begin

text \<open>
  Tables of a database under faults. Whatever is done with one table, and whatever fails while it is
  done, the other tables keep what they hold: a call of the database that names a table changes the
  files, the directories and the locks of that table only, and leaves the stores of the others open.
\<close>

section \<open>Calls that keep to a table\<close>

text \<open>What a client does with a borrowed handle keeps to the directory of the table.\<close>

definition confined :: "'a table_call \<Rightarrow> bool" where
  "confined m \<longleftrightarrow> (\<forall>d s w r s' w'. tidy d s \<longrightarrow> m (s, w) = (r, (s', w')) \<longrightarrow> tidy d s' \<and> isolates d w w')"

named_theorems confined_intros

lemma confinedI:
  "(\<And>d s w r s' w'. tidy d s \<Longrightarrow> m (s, w) = (r, (s', w')) \<Longrightarrow> tidy d s' \<and> isolates d w w') \<Longrightarrow> confined m"
  unfolding confined_def by blast

lemma confinedD: "confined m \<Longrightarrow> tidy d s \<Longrightarrow> m (s, w) = (r, (s', w')) \<Longrightarrow> tidy d s' \<and> isolates d w w'"
  unfolding confined_def by blast

lemma confined_calls [confined_intros]:
  "confined (table_put P k v)" "confined (table_delete P k)" "confined (table_get P k)"
  "confined (range_bounds P lo hi)" "confined (table_put_batch P es)"
  by (rule confinedI, erule table_calls_isolate, assumption)+

lemma confined_return [confined_intros]: "confined (\<lambda>s. (x, s))"
  by (simp add: confined_def)

lemma confined_bind [confined_intros]:
  assumes "confined m" and "\<And>x. confined (f x)"
  shows "confined (bindC m f)"
  unfolding confined_def
proof (intro allI impI)
  fix d s w r s' w' assume s: "tidy d s" and run: "bindC m f (s, w) = (r, (s', w'))"
  obtain r1 s1 w1 where m: "m (s, w) = (r1, (s1, w1))" using prod_cases3 by blast
  note 1 = confinedD [OF assms(1) s m]
  show "tidy d s' \<and> isolates d w w'"
  proof (cases r1)
    case (Done x)
    then have "f x (s1, w1) = (r, (s', w'))" using run m by (simp add: bindC_def)
    from confinedD [OF assms(2) _ this] 1 isolates_trans show ?thesis by blast
  qed (use 1 run m in \<open>auto simp: bindC_def\<close>)
qed

lemma confined_map [confined_intros]: "confined m \<Longrightarrow> confined (mapC f m)"
  unfolding confined_def mapC_def by (fastforce split: prod.splits)

lemma confined_derived [confined_intros]:
  "confined (table_contains P k)" "confined (table_get_batch P ks)" "confined (table_scan P)"
  "confined (table_range P a b)" "confined (scan_prefix P pre)"
proof -
  show "confined (table_get_batch P ks)" by (induction ks) (auto intro!: confined_intros)
qed (simp_all add: table_contains_def table_scan_def table_range_def scan_prefix_def confined_calls confined_map)

text \<open>A transaction of the public crate, from its begin to its commit.\<close>

definition txn_block :: "prost \<Rightarrow> (transaction \<Rightarrow> transaction) \<Rightarrow> unit table_call" where
  "txn_block P f = (\<lambda>(s, w). txn_commit P (f (table_transaction s)) w)"

lemma confined_txn [confined_intros]:
  assumes "\<And>t. tx_store (f t) = tx_store t"
  shows "confined (txn_block P f)"
  unfolding confined_def
proof (intro allI impI)
  fix d s w r s' w' assume s: "tidy d s" and run: "txn_block P f (s, w) = (r, (s', w'))"
  have "tidy d (tx_store (f (table_transaction s)))"
    using s by (simp add: assms table_transaction_def begin_transaction_def)
  from confine.tx_commit [OF this within_refl, of w P] run show "tidy d s' \<and> isolates d w w'"
    by (auto simp: txn_block_def txn_commit_def within_isolates split: prod.splits)
qed

section \<open>Calls of the database\<close>

inductive db_call :: "prost \<Rightarrow> string \<Rightarrow> database \<times> world \<Rightarrow> database \<times> world \<Rightarrow> bool"
  for P :: prost and name :: string where
  call_create: "create_table P name x = (r, x') \<Longrightarrow> db_call P name x x'"
| call_delete: "delete_table P name x = (r, x') \<Longrightarrow> db_call P name x x'"
| call_use: "confined m \<Longrightarrow> with_table P name (m :: unit table_call) x = (r, x') \<Longrightarrow> db_call P name x x'"
| call_list: "list_tables x = (names, x') \<Longrightarrow> db_call P name x x'"

definition db_tidy :: "database \<Rightarrow> bool" where
  "db_tidy db \<longleftrightarrow> path_ok (db_root db) \<and> distinct (map fst (db_open db))
     \<and> (\<forall>name s. map_of (db_open db) name = Some s \<longrightarrow> tidy (db_root db @ [name]) s)"

text \<open>Only the named table is affected.\<close>

definition affects :: "string \<Rightarrow> database \<times> world \<Rightarrow> database \<times> world \<Rightarrow> bool" where
  "affects name = (\<lambda>(db, w) (db', w').
     db_tidy db' \<and> db_root db' = db_root db \<and> others_same (db_root db) name w w'
     \<and> (\<forall>n. n \<noteq> name \<longrightarrow> map_of (db_open db') n = map_of (db_open db) n))"

lemma agree_trans: "agree d w w' \<Longrightarrow> agree d w' w'' \<Longrightarrow> agree d w w''"
  by (auto simp: agree_def)

lemma others_same_trans: "others_same root name w w' \<Longrightarrow> others_same root name w' w'' \<Longrightarrow> others_same root name w w''"
  by (simp add: others_same_def) (blast intro: agree_trans)

lemma affects_refl: "db_tidy db \<Longrightarrow> affects name (db, w) (db, w)"
  by (simp add: affects_def isolates_others)

lemma affects_trans: "affects name x y \<Longrightarrow> affects name y z \<Longrightarrow> affects name x z"
  using others_same_trans by (fastforce simp: affects_def)

lemma affects_world: "db_tidy db \<Longrightarrow> isolates (db_root db @ [name]) w w' \<Longrightarrow> affects name (db, w) (db, w')"
  by (simp add: affects_def isolates_others)

lemma affects_update:
  assumes "db_tidy db" and "isolates (db_root db @ [name]) w w'" and "tidy (db_root db @ [name]) s"
  shows "affects name (db, w) (db\<lparr>db_open := AList.update name s (db_open db)\<rparr>, w')"
  using assms by (auto simp: affects_def isolates_others db_tidy_def update_conv distinct_update)

lemma open_store_affects:
  assumes "db_tidy db" and "validate_name name = Done ()" and "open_store P name (db, w) = (r, x')"
  shows "affects name (db, w) x'"
proof -
  let ?d = "db_root db @ [name]"
  have path: "open_with_dir P (path_display (path_join (db_root db) name)) = open_path P ?d"
    using assms(1,2) by (intro open_store_path) (simp_all add: db_tidy_def)
  obtain r1 w1 where o: "open_path P ?d w = (r1, w1)" by fastforce
  show ?thesis
  proof (cases r1)
    case (Ok s)
    from open_path_isolates [OF o [unfolded Ok]] affects_update [OF assms(1)] assms(3)
    show ?thesis by (auto simp: open_store_def liftA_def path o Ok)
  next
    case (Err e)
    then have "within ?d w w1" using open_path_any [OF o] by blast
    with affects_world [OF assms(1) within_isolates] assms(3) show ?thesis by (auto simp: open_store_def liftA_def path o Err)
  next
    case Panic
    then have "within ?d w w1" using open_path_any [OF o] by blast
    with affects_world [OF assms(1) within_isolates] assms(3) show ?thesis by (auto simp: open_store_def liftA_def path o Panic)
  qed
qed

lemma later_isolates: "isolates d w (later n w)"
  by (rule within_isolates) simp

lemma fs_exists_any: "fs_exists p w = (r, w') \<Longrightarrow> w' = later 1 w"
  by (auto simp: fs_exists_def split: fault.splits)

lemma use_affects:
  assumes "db_tidy db" and "confined m" and "with_table P name m (db, w) = (r, x')"
  shows "affects name (db, w) x'"
proof (cases "validate_name name")
  case (Done u)
  then have v: "validate_name name = Done ()" by simp
  obtain r1 db1 w1 where t: "database_table P name (db, w) = (r1, (db1, w1))" using prod_cases3 by blast
  have A: "affects name (db, w) (db1, w1)"
    using t open_store_affects [OF assms(1) v] affects_refl [OF assms(1)]
    by (auto simp: database_table_def bindC_def valid_name_def v split: if_splits)
  show ?thesis
  proof (cases "r1 = Done () \<and> map_of (db_open db1) name \<noteq> None")
    case True
    then obtain s where s: "r1 = Done ()" "map_of (db_open db1) name = Some s" by blast
    have tidy: "db_tidy db1" "tidy (db_root db1 @ [name]) s" using A s(2) by (auto simp: affects_def db_tidy_def)
    obtain r2 s2 w2 where m: "m (s, w1) = (r2, (s2, w2))" using prod_cases3 by blast
    from confinedD [OF assms(2) tidy(2) m] have "affects name (db1, w1) (db1\<lparr>db_open := AList.update name s2 (db_open db1)\<rparr>, w2)"
      using affects_update [OF tidy(1)] by blast
    with affects_trans [OF A] assms(3) t s m show ?thesis by (auto simp: with_table_def bindC_def)
  next
    case False
    with assms(3) t A show ?thesis by (cases r1) (auto simp: with_table_def bindC_def)
  qed
qed (use assms affects_refl in \<open>auto simp: with_table_def database_table_def bindC_def valid_name_def\<close>)

lemma create_affects:
  assumes "db_tidy db" and "create_table P name (db, w) = (r, x')"
  shows "affects name (db, w) x'"
proof (cases "validate_name name")
  case (Done u)
  then have v: "validate_name name = Done ()" by simp
  obtain r1 where ex: "fs_exists (path_join (db_root db) name) w = (r1, later 1 w)" using fs_exists_any by (metis surj_pair)
  note L = affects_world [OF assms(1) later_isolates, of name w 1]
  from assms(2) show ?thesis
    using L affects_trans [OF L open_store_affects [OF assms(1) v]]
    by (auto simp: create_table_def bindC_def valid_name_def v onWC_def liftA_def ex failC_def
        split: outcome.splits if_splits reply.splits prod.splits)
qed (use assms affects_refl in \<open>auto simp: create_table_def bindC_def valid_name_def\<close>)

lemma del_file_dirs: "w_dirs (del_file p w) = w_dirs w"
  by (simp add: del_file_def)

lemma remove_tree_only:
  assumes "fs_remove_dir_all d w = (r, w')"
  shows "(\<forall>q. \<not> in_tree d q \<longrightarrow> file_of w' q = file_of w q \<and> (q \<in> set (w_dirs w') \<longleftrightarrow> q \<in> set (w_dirs w)))
    \<and> w_locks w' = w_locks w \<and> (fs_wf w \<longrightarrow> fs_wf w')"
proof (cases "fault_now w = NoFault \<and> d \<in> set (w_dirs w)")
  case True
  then have f: "file_of w' q = (if in_tree d q then None else file_of w q)" for q
    using assms map_of_filter_keys [of "\<lambda>p. \<not> in_tree d p" "w_files w" q] by (auto simp: fs_remove_dir_all_def file_of_def)
  have w': "w_dirs w' = filter (\<lambda>p. \<not> in_tree d p) (w_dirs w)" "w_locks w' = w_locks w"
    "w_files w' = filter (\<lambda>(p, c). \<not> in_tree d p) (w_files w)" using assms True by (auto simp: fs_remove_dir_all_def)
  have "fs_wf w \<Longrightarrow> fs_wf w'" by (auto simp: fs_wf_def f w' distinct_map_filter)
  then show ?thesis by (simp add: f w'(1,2))
next
  case False
  have del: "within d w w0 \<Longrightarrow> list_all (in_tree d) ps \<Longrightarrow> within d w (fold del_file ps w0) \<and> w_dirs (fold del_file ps w0) = w_dirs w0"
    for w0 ps
    by (induction ps arbitrary: w0) (auto simp: within_del_file del_file_dirs)
  have "list_all (in_tree d) (take n (filter (in_tree d) ps))" for n ps by (auto simp: list_all_iff dest: in_set_takeD)
  from del [OF _ this, of "later 1 w"] False have "within d w w' \<and> w_dirs w' = w_dirs w"
    using assms by (auto simp: fs_remove_dir_all_def split: fault.splits if_splits)
  then show ?thesis by (simp add: within_def)
qed

lemma remove_tree_same:
  assumes "fs_remove_dir_all (root @ [name]) w = (r, w')"
  shows "others_same root name w w'"
proof -
  let ?d = "root @ [name]"
  have anc: "\<not> in_tree ?d q" if "q \<in> set (ancestors root)" for q
    using prefix_length_le [OF ancestor_prefix [OF that]] prefix_length_le [of ?d q] by (auto simp: in_tree_prefix)
  have away: "\<not> in_tree ?d q" if "n \<noteq> name" "in_tree (root @ [n]) q \<or> q \<in> set (ancestors (root @ [n]))" for n q
    using that apart_tree [OF apart_siblings [OF that(1)]] apart_ancestor [OF apart_siblings [OF that(1)]] by blast
  show ?thesis using anc away remove_tree_only [OF assms] by (auto simp: others_same_def dir_ready_def agree_def)
qed

lemma unlock_same: "others_same root name w (fs_unlock (root @ [name, ''LOCK'']) w)"
proof -
  have "p \<noteq> root @ [name, ''LOCK'']" if "n \<noteq> name" "in_tree (root @ [n]) p" for n p
    using apart_tree [OF apart_siblings [OF that(1)] that(2)] by (auto simp: in_tree_def)
  then show ?thesis
    by (auto simp: others_same_def agree_def dir_ready_def) (auto simp: fs_unlock_def)
qed

lemma delete_affects:
  assumes "db_tidy db" and "delete_table P name (db, w) = (r, x')"
  shows "affects name (db, w) x'"
proof (cases "validate_name name")
  case (Done u)
  then have v: "validate_name name = Done ()" by simp
  let ?d = "db_root db @ [name]"
  obtain r1 where ex: "fs_exists ?d w = (r1, later 1 w)" using fs_exists_any by (metis surj_pair)
  note L = affects_world [OF assms(1) later_isolates, of name w 1]
  define w1 where "w1 = (case map_of (db_open db) name of None \<Rightarrow> later 1 w | Some s \<Rightarrow> drop_store s (later 1 w))"
  have "st_lock s = Some (db_root db @ [name, ''LOCK''])" if "map_of (db_open db) name = Some s" for s
    using assms(1) that by (auto simp: db_tidy_def tidy_def)
  then have w1: "others_same (db_root db) name w w1"
    using L others_same_trans [OF _ unlock_same, of "db_root db" name w "later 1 w"]
    by (cases "map_of (db_open db) name") (simp_all add: w1_def affects_def drop_store_def)
  obtain r2 w2 where rm: "fs_remove_dir_all ?d w1 = (r2, w2)" by fastforce
  note w2 = others_same_trans [OF w1 remove_tree_same [OF rm]]
  have "affects name (db, w) (db\<lparr>db_open := AList.delete name (db_open db)\<rparr>, w2)"
    using assms(1) w2 by (auto simp: affects_def db_tidy_def delete_conv distinct_delete)
  with assms(2) L rm [unfolded w1_def One_nat_def] show ?thesis
    by (auto simp: delete_table_def bindC_def valid_name_def v validate_name_join(1) [OF v] onWC_def liftA_def ex failC_def
        Let_def split: outcome.splits if_splits reply.splits prod.splits)
qed (use assms affects_refl in \<open>auto simp: delete_table_def bindC_def valid_name_def\<close>)

lemma keeps_list_names [keeps_intros]: "keeps (within d w0) (list_names qs)"
proof (induction qs)
  case (Cons q qs)
  have "keeps (within d w0) (fs_is_dir p)" for p by (auto simp: keeps_def fs_is_dir_def split: fault.split)
  then show ?case using Cons by (auto intro!: keeps_intros)
qed (simp add: keeps_pure)

lemma list_affects:
  assumes "db_tidy db" and "list_tables (db, w) = (r, x')"
  shows "affects name (db, w) x'"
proof -
  let ?m = "bindA (fs_read_dir (db_root db)) (\<lambda>es. bindA (list_names es) (\<lambda>names. returnA (sort names)))"
  have "keeps (within (db_root db @ [name]) w) ?m" by (intro keeps_intros)
  from keepsD [OF this, of w] affects_world [OF assms(1) within_isolates] assms(2) show ?thesis
    by (auto simp: list_tables_def onWC_def liftA_def split: prod.splits)
qed

lemma call_affects: "db_call P name x x' \<Longrightarrow> db_tidy (fst x) \<Longrightarrow> affects name x x'"
  by (induction rule: db_call.induct)
    (auto dest: create_affects delete_affects use_affects list_affects simp del: affects_def)

section \<open>Names\<close>

text \<open>The characters and names that \<open>validate_name\<close> refuses.\<close>

definition bad_name :: "string \<Rightarrow> bool" where
  "bad_name name \<longleftrightarrow> name \<in> {[], ''.'', ''..''} \<or> CHR ''/'' \<in> set name \<or> CHR 0x5C \<in> set name"

lemma validate_name_bad: "validate_name name = (if bad_name name then Fail (InvalidTableName name) else Done ())"
  by (auto simp: validate_name_def bad_name_def)

text \<open>A call writes no file outside the directory of the table it names, whatever fails in it.\<close>

definition stays_in :: "path \<Rightarrow> world \<Rightarrow> world \<Rightarrow> bool" where
  "stays_in d w w' \<longleftrightarrow> (\<forall>q. \<not> in_tree d q \<longrightarrow> file_of w' q = file_of w q)"

lemma stays_in_simps [simp]: "stays_in d w w" "stays_in d w (later n w)"
  by (simp_all add: stays_in_def)

lemma isolates_stays_in: "isolates d w w' \<Longrightarrow> stays_in d w w'"
  by (simp add: isolates_def within_def stays_in_def)

lemma open_store_stays_in:
  assumes "path_ok (db_root db)" and "validate_name name = Done ()" and "open_store P name (db, w) = (r, (db', w'))"
  shows "stays_in (db_root db @ [name]) w w'"
proof -
  obtain r1 w1 where o: "open_path P (db_root db @ [name]) w = (r1, w1)" by fastforce
  have "stays_in (db_root db @ [name]) w w1"
    using open_path_any [OF o] by (auto simp: stays_in_def within_def)
  with assms(3) show ?thesis
    by (cases r1) (auto simp: open_store_def liftA_def open_store_path [OF assms(1,2)] o)
qed

lemma create_stays_in:
  assumes "path_ok (db_root db)" and "create_table P name (db, w) = (r, (db', w'))"
  shows "stays_in (db_root db @ [name]) w w'"
proof (cases "validate_name name")
  case (Done u)
  then have v: "validate_name name = Done ()" by simp
  obtain r1 where ex: "fs_exists (path_join (db_root db) name) w = (r1, later 1 w)" using fs_exists_any by (metis surj_pair)
  have "stays_in (db_root db @ [name]) (later 1 w) w'" if "open_store P name (db, later 1 w) = (r, (db', w'))"
    using open_store_stays_in [OF assms(1) v that] .
  with assms(2) show ?thesis
    by (auto simp: create_table_def bindC_def valid_name_def v onWC_def liftA_def ex failC_def stays_in_def
        split: outcome.splits if_splits reply.splits prod.splits)
qed (use assms(2) in \<open>auto simp: create_table_def bindC_def valid_name_def\<close>)

lemma table_stays_in:
  assumes "path_ok (db_root db)" and "database_table P name (db, w) = (r, (db', w'))"
  shows "stays_in (db_root db @ [name]) w w'"
proof (cases "validate_name name")
  case (Done u)
  then have v: "validate_name name = Done ()" by simp
  show ?thesis
    using assms(2) open_store_stays_in [OF assms(1) v]
    by (auto simp: database_table_def bindC_def valid_name_def v split: if_splits)
qed (use assms(2) in \<open>auto simp: database_table_def bindC_def valid_name_def\<close>)

lemma delete_stays_in:
  assumes "delete_table P name (db, w) = (r, (db', w'))"
  shows "stays_in (db_root db @ [name]) w w'"
proof (cases "validate_name name")
  case (Done u)
  then have v: "validate_name name = Done ()" by simp
  let ?d = "db_root db @ [name]"
  obtain r1 where ex: "fs_exists ?d w = (r1, later 1 w)" using fs_exists_any by (metis surj_pair)
  define w1 where "w1 = (case map_of (db_open db) name of None \<Rightarrow> later 1 w | Some s \<Rightarrow> drop_store s (later 1 w))"
  have w1: "file_of w1 = file_of w"
    by (auto simp: w1_def drop_store_def fun_eq_iff split: option.split)
  obtain r2 w2 where rm: "fs_remove_dir_all ?d w1 = (r2, w2)" by fastforce
  have "stays_in ?d w w2" using remove_tree_only [OF rm] by (simp add: stays_in_def w1)
  with assms rm [unfolded w1_def One_nat_def] show ?thesis
    by (auto simp: delete_table_def bindC_def valid_name_def v validate_name_join(1) [OF v] onWC_def liftA_def ex failC_def
        Let_def split: outcome.splits if_splits reply.splits prod.splits)
qed (use assms in \<open>auto simp: delete_table_def bindC_def valid_name_def\<close>)

section \<open>What the other tables keep\<close>

definition table_holds :: "prost \<Rightarrow> string \<Rightarrow> (bytes \<Rightarrow> bytes option) \<Rightarrow> database \<times> world \<Rightarrow> bool" where
  "table_holds P name b = (\<lambda>(db, w). case map_of (db_open db) name of
       Some s \<Rightarrow> st_dir s = db_root db @ [name] \<and> table_models P w s b
     | None \<Rightarrow> closed_table P w (db_root db @ [name]) b)"

inductive db_calls :: "prost \<Rightarrow> string set \<Rightarrow> database \<times> world \<Rightarrow> database \<times> world \<Rightarrow> bool"
  for P :: prost and N :: "string set" where
  calls_nil: "db_calls P N x x"
| calls_cons: "name \<in> N \<Longrightarrow> db_call P name x y \<Longrightarrow> db_calls P N y z \<Longrightarrow> db_calls P N x z"

lemma affects_holds:
  assumes "affects name x y" and "table_holds P n b x" and "n \<noteq> name"
  shows "table_holds P n b y"
proof -
  obtain db w db' w' where x: "x = (db, w)" "y = (db', w')" by (metis surj_pair)
  let ?d = "db_root db @ [n]"
  have A: "agree ?d w w'" "?d @ [''LOCK''] \<in> set (w_locks w') \<longleftrightarrow> ?d @ [''LOCK''] \<in> set (w_locks w)"
    "map_of (db_open db') n = map_of (db_open db) n" "db_root db' = db_root db"
    using assms(1,3) x in_tree_append(1) [of ?d "[''LOCK'']"] by (auto simp: affects_def others_same_def)
  show ?thesis
    using assms(2) A models_agree survives_agree
    by (auto simp: table_holds_def x table_models_def closed_table_def split: option.splits)
qed

lemma calls_hold: "db_calls P N x y \<Longrightarrow> db_tidy (fst x) \<Longrightarrow> table_holds P n b x \<Longrightarrow> n \<notin> N \<Longrightarrow> table_holds P n b y \<and> db_tidy (fst y)
    \<and> db_root (fst y) = db_root (fst x)"
proof (induction rule: db_calls.induct)
  case (calls_cons name x y z)
  have A: "affects name x y" using call_affects calls_cons.hyps(2) calls_cons.prems(1) .
  then have "db_tidy (fst y)" "db_root (fst y) = db_root (fst x)" by (auto simp: affects_def)
  moreover have "table_holds P n b y" using affects_holds [OF A calls_cons.prems(2)] calls_cons.prems(3) calls_cons.hyps(1) by blast
  ultimately show ?case using calls_cons.IH calls_cons.prems(3) by simp
qed simp

lemma db_holds_tidy: "db_holds P w db T \<Longrightarrow> db_tidy db"
  unfolding db_holds_def db_tidy_def table_models_def by (metis models_tidy)

lemma db_holds_table: "db_holds P w db T \<Longrightarrow> T name = Some b \<Longrightarrow> table_holds P name b (db, w)"
  unfolding db_holds_def table_holds_def by (cases "map_of (db_open db) name") fastforce+

text \<open>Once the faults are over, the table can be read.\<close>

lemma table_holds_calm: "table_holds P name b (db, w) \<Longrightarrow> table_holds P name b (db, calm w)"
proof -
  have "agree d w (calm w)" for d by (rule agree_same) (simp_all add: calm_def)
  moreover have "w_locks (calm w) = w_locks w" by (simp add: calm_def)
  ultimately show "table_holds P name b (db, w) \<Longrightarrow> table_holds P name b (db, calm w)"
    using models_agree survives_agree
    by (auto simp: table_holds_def table_models_def closed_table_def split: option.splits) 
qed

context prost_codec
begin

lemma table_holds_read:
  assumes "quiet w" and "table_holds P name b (db, w)" and "validate_name name = Done ()" and "path_ok (db_root db)"
  shows "\<exists>x. with_table P name (table_get P k) (db, w) = (Done (b k), x)"
proof (cases "map_of (db_open db) name")
  case None
  then obtain ids ess log where od: "on_disk P w (db_root db @ [name]) ids ess log"
      "(\<lambda>k. map_option Bytes (b k)) = view (log_data P log) ess" "(db_root db @ [name]) @ [''LOCK''] \<notin> set (w_locks w)"
    using assms(2) by (auto simp: table_holds_def closed_table_def survives_def)
  from open_models [OF assms(1) od(1,3)] obtain s w' where
    s: "open_path P (db_root db @ [name]) w = (Ok s, w')" "quiet w'" "table_models P w' s b"
    by (auto simp: table_models_def od(2))
  from table_get_models [OF s(2,3), of k] s(1) show ?thesis
    by (auto simp: with_table_def database_table_def bindC_def valid_name_def assms(3) None open_store_def
        open_store_path [OF assms(4,3)] liftA_def update_conv)
next
  case (Some s)
  then have "table_models P w s b" using assms(2) by (simp add: table_holds_def)
  from table_get_models [OF assms(1) this, of k] show ?thesis
    by (auto simp: with_table_def database_table_def bindC_def valid_name_def assms(3) Some)
qed

lemma calls_unharmed:
  assumes "db_holds P w db T" and "T name = Some b" and "name \<notin> others" and "db_calls P others (db, w) (db', w')"
  shows "table_holds P name b (db', w') \<and> (\<exists>x. with_table P name (table_get P k) (db', calm w') = (Done (b k), x))"
proof -
  have H: "table_holds P name b (db', w')" "db_tidy db'"
    using calls_hold [OF assms(4) _ _ assms(3)] db_holds_tidy [OF assms(1)] db_holds_table [OF assms(1,2)] by auto
  have "validate_name name = Done ()" using assms(1,2) by (simp add: db_holds_def)
  with table_holds_read [OF _ table_holds_calm [OF H(1)]] H show ?thesis by (simp add: db_tidy_def)
qed

end

end
