(* ===== verification/Ferrum_Typing.thy ===== *)
theory Ferrum_Typing
  imports Ferrum_Machine
begin

text \<open>
  The type of a store: what its fields satisfy however it came about. The memtable is strictly sorted
  and \<open>memtable_bytes\<close> is the sum of the footprints of its entries; every table has its file below the
  directory and a block cache that is consistent and holds at most \<open>BLOCK_CACHE_CAP\<close> blocks. Opening
  gives a store of this type, and every call keeps it, under every schedule of faults and from every state of
  the files, damaged ones included: the second interpretation of the locale \<open>store_invariant\<close>.
\<close>

definition table_typed :: "sstable \<Rightarrow> bool" where
  "table_typed t \<longleftrightarrow> cache_inv (sst_cache t) \<and> bc_cap (sst_cache t) = BLOCK_CACHE_CAP"

definition typed :: "store \<Rightarrow> bool" where
  "typed s \<longleftrightarrow> mem_inv s \<and> list_all table_typed (st_sstables s)"

abbreviation typing :: "store \<times> world \<Rightarrow> bool" where
  "typing \<equiv> beside typed (\<lambda>w. True)"

lemma keeps_any [simp]: "keeps (\<lambda>w. True) m"
  by (simp add: keeps_def)

lemma typed_simps [simp]:
  "typed (s\<lparr>st_wal := l\<rparr>) = typed s" "typed (s\<lparr>st_sequence := n\<rparr>) = typed s"
  "typed (s\<lparr>memtable_max_bytes := n\<rparr>) = typed s" "typed (s\<lparr>next_sstable_id := n\<rparr>) = typed s"
  by (simp_all add: typed_def mem_inv_def)

lemma typed_insert [simp]: "typed s \<Longrightarrow> typed (memtable_insert k e s)"
  by (simp add: typed_def mem_inv_insert)

section \<open>Tables\<close>

lemma table_typed_new [simp]:
  "table_typed \<lparr>sst_path = p, sst_index = ix, sst_min_key = mn, sst_max_key = mx, sst_bloom = b,
     sst_cache = cache_new BLOCK_CACHE_CAP\<rparr>"
  by (simp add: table_typed_def) (simp add: cache_new_def)

lemma sst_flush_typed: "sst_flush P p es w = (Ok t, w') \<Longrightarrow> table_typed t"
  by (auto simp: sst_flush_def flush_build_def bindA_def liftO_def returnA_def Let_def bindO_def
      split: prod.splits outcome.splits option.splits)

lemma sst_open_typed: "sst_open p w = (Ok t, w') \<Longrightarrow> table_typed t"
  by (auto simp: sst_open_def bindA_def liftO_def returnA_def failA_def panicA_def Let_def
      split: prod.splits outcome.splits if_splits)

lemma keeps_cached_block_typed: "keeps (beside table_typed (\<lambda>w. True)) (cached_block ie)"
  unfolding cached_block_def
proof (rule keeps_split, goal_cases)
  case (1 t w)
  let ?fill = "\<lambda>records (t :: sstable, w). (Ok records, (t\<lparr>sst_cache := cache_put (ie_block_offset ie) records (sst_cache t)\<rparr>, w))"
  obtain found c where g: "cache_get (ie_block_offset ie) (sst_cache t) = (found, c)" by fastforce
  have c: "table_typed (t\<lparr>sst_cache := c\<rparr>)"
    using 1(1) cache_inv_get [of "sst_cache t" "ie_block_offset ie"] cache_cap(2) [of "ie_block_offset ie" "sst_cache t"]
    by (simp add: table_typed_def g)
  have "keeps (beside table_typed (\<lambda>w. True))
      (bindA (onW (fs_open False False (sst_path t))) (\<lambda>_. bindA (onW (read_block_from_disk (sst_path t) ie)) ?fill))"
    by (intro keeps_bindA keeps_onW keeps_any keeps_split) (simp add: table_typed_def cache_inv_put)
  from keepsD [OF this, of "(t\<lparr>sst_cache := c\<rparr>, w)"] c show ?case by (simp add: g split: option.split)
qed

lemma keeps_sst_get_typed: "keeps (beside table_typed (\<lambda>w. True)) (sst_get P key)"
  unfolding sst_get_def
proof (rule keeps_split, goal_cases)
  case (1 t w)
  note if_rule = snd_if [where I = "beside table_typed (\<lambda>w. True)"]
  show ?case
    using 1 by - (rule if_rule, simp, rule if_rule, simp, rule keepsD, intro keeps_cached_block_typed keeps_intros, simp)
qed

lemma lookup_layers_typed:
  "list_all table_typed ts \<Longrightarrow> lookup_layers (sst_get P key) ts w = (r, (ts', w')) \<Longrightarrow> list_all table_typed ts'"
proof (induction ts arbitrary: w r ts' w')
  case (Cons t ts)
  obtain r1 t1 w1 where g: "sst_get P key (t, w) = (r1, (t1, w1))" using prod_cases3 by blast
  have t1: "table_typed t1" using keepsD [OF keeps_sst_get_typed, of "(t, w)" P key] Cons.prems(1) by (simp add: g)
  obtain r2 ts2 w2 where l: "lookup_layers (sst_get P key) ts w1 = (r2, (ts2, w2))" using prod_cases3 by blast
  from Cons.IH [OF _ l] t1 Cons.prems show ?case
    by (auto simp: g l split: outcome.splits option.splits)
qed simp

section \<open>Opening and calls\<close>

lemma bindA_OkE:
  assumes "bindA m f s = (Ok x, s')"
  obtains y s1 where "m s = (Ok y, s1)" and "f y s1 = (Ok x, s')"
  using assms by (auto simp: bindA_def split: prod.splits outcome.splits)

lemma open_found_typed: "open_found qs w = (Ok found, w') \<Longrightarrow> list_all table_typed (map snd found)"
proof (induction qs arbitrary: w w' found)
  case (Cons q qs)
  from Cons.prems Cons.IH show ?case
    by (fastforce simp: bindA_def returnA_def sst_open_typed split: prod.splits outcome.splits option.splits)
qed (simp add: returnA_def)

lemma keeps_on_wal_typed: "keeps typing (on_wal m)"
  by (auto simp: keeps_def on_wal_def split: prod.split)

lemma keeps_load_typed: "keeps typing load_sstables"
  unfolding load_sstables_def
proof (rule keeps_split, goal_cases)
  case (1 s w)
  obtain r w1 where rd: "fs_read_dir (st_dir s) w = (r, w1)" by fastforce
  show ?case
  proof (cases r)
    case (Ok qs)
    obtain r2 w2 where f: "open_found qs w1 = (r2, w2)" by fastforce
    have "r2 = Ok found \<Longrightarrow> list_all table_typed (map snd found)" for found using open_found_typed f by simp
    then show ?thesis
      using 1(1) by (cases r2) (auto simp: rd Ok bindA_def onW_def f updS_def typed_def mem_inv_def list_all_iff)
  qed (use 1 in \<open>simp_all add: rd\<close>)
qed

text \<open>Every operation of the store keeps its type.\<close>

interpretation typing: store_invariant P typed "\<lambda>w. True" for P
proof (unfold_locales, goal_cases)
  case (8 s w es r w')
  have "r = Ok t \<Longrightarrow> table_typed t" for t using 8 sst_flush_typed by blast
  with 8(1) show ?case by (auto simp: typed_def mem_inv_def)
next
  case (12 s w key found ts w')
  with lookup_layers_typed [OF _ 12(3)] show ?case by (simp add: typed_def mem_inv_def)
qed (simp_all add: keeps_on_wal_typed keeps_load_typed, simp_all add: typed_def mem_inv_def)

lemma load_and_replay_typed:
  assumes "bindA load_sstables (\<lambda>_. replay_wal P) (fresh_store d l p, w) = (r, (s, w'))"
  shows "typed s"
proof -
  have "typed (fresh_store d l p)" by (simp add: typed_def mem_inv_def fresh_store_def)
  then show ?thesis using keepsD [OF typing.load_and_replay, of "(fresh_store d l p, w)" P] assms by simp
qed

lemma open_path_typed:
  assumes "open_path P d w = (Ok s, w')"
  shows "typed s"
proof -
  obtain l w1 where "(case bindA load_sstables (\<lambda>_. replay_wal P) (fresh_store d l (path_join d ''LOCK''), w1) of
           (Ok _, (s, w')) \<Rightarrow> (Ok s, w')
         | (Err e, (s, w')) \<Rightarrow> (Err e, drop_store s w')
         | (Panic, (s, w')) \<Rightarrow> (Panic, drop_store s w')) = (Ok s, w')"
    using assms unfolding open_path_def Let_def
    by (auto elim!: bindA_OkE simp: failA_def split: if_splits)
  then show ?thesis by (auto split: prod.splits outcome.splits dest: load_and_replay_typed)
qed

section \<open>Runs\<close>

lemma call_typed: "m sw = (r, sw') \<Longrightarrow> keeps typing m \<Longrightarrow> typed (fst sw) \<longrightarrow> typed (fst sw')"
  using keepsD [of typing m sw] by (cases sw; cases sw') simp

lemma step_typed: "store_step P sw op a sw' \<Longrightarrow> typed (fst sw) \<Longrightarrow> typed (fst sw')"
proof (induction rule: store_step.induct)
  case (step_commit ops s w r sw')
  then have "typed (tx_store (fold tx_step ops (begin_transaction s)))" by (simp add: tx_steps)
  from typing.tx_commit [OF this, of P w] step_commit show ?case by (cases sw') simp
next
  case (step_reopen s w s' w')
  then show ?case by (auto dest: open_path_typed)
qed (auto simp: set_memtable_budget_def dest!: call_typed intro: typing.set_value typing.delete_value typing.get_value typing.scan_range typing.flush typing.compact)

lemma run_typed: "store_run P sw tr sw' \<Longrightarrow> typed (fst sw) \<Longrightarrow> typed (fst sw')"
  by (induction rule: store_run.induct) (auto dest: step_typed)

lemma run_tidy: "store_run P sw tr sw' \<Longrightarrow> tidy d (fst sw) \<Longrightarrow> tidy d (fst sw')"
  using run_isolates by blast

lemma open_run_typed:
  assumes "open_path P d w = (Ok s, w1)" and "store_run P (s, w1) tr (s', w')"
  shows "typed s' \<and> tidy d s'"
  using open_path_any [OF assms(1)] run_typed [OF assms(2)] run_tidy [OF assms(2), of d] open_path_typed [OF assms(1)] by auto

end
