(* ===== verification/Ferrum_Loop.thy ===== *)
theory Ferrum_Loop
  imports Ferrum_Wal "HOL-Library.While_Combinator"
begin

text \<open>
  The loop of \<open>parse_buffer\<close> in \<open>ferrumdb-core/src/wal.rs\<close> as a loop: its local variables, one
  pass of its body, and the condition under which it goes on. On every input, damaged ones
  included, the loop ends after at most an eighth of the length of the input, and one pass more, and its
  result is that of the recursive \<open>parse_buffer\<close> of \<open>Ferrum_Wal\<close>.
\<close>

datatype parse_status = Going | Broken | Crashed

record parse_state =
  ps_entries :: "wal_entry list"
  ps_committed_count :: nat
  ps_committed_end :: nat
  ps_offset :: nat
  ps_status :: parse_status

definition parse_init :: parse_state where
  "parse_init = \<lparr>ps_entries = [], ps_committed_count = 0, ps_committed_end = 0, ps_offset = 0, ps_status = Going\<rparr>"

definition parse_goes_on :: "bytes \<Rightarrow> parse_state \<Rightarrow> bool" where
  "parse_goes_on buffer st \<longleftrightarrow> ps_status st = Going \<and> ps_offset st < length buffer"

definition parse_pass :: "prost \<Rightarrow> bytes \<Rightarrow> parse_state \<Rightarrow> parse_state" where
  "parse_pass P buffer st =
     (let offset = ps_offset st
      in if length buffer < offset + 8 then st\<lparr>ps_status := Broken\<rparr>
         else let len = unat (from_be_bytes (take 8 (drop offset buffer)) :: u64);
                  offset = offset + 8;
                  st = st\<lparr>ps_offset := offset\<rparr>
              in if 2 ^ 64 \<le> offset + len then st\<lparr>ps_status := Crashed\<rparr>
                 else if length buffer < offset + len then st\<lparr>ps_status := Broken\<rparr>
                 else case decode_entry P (take len (drop offset buffer)) of
                        Inr e \<Rightarrow>
                          (let st = st\<lparr>ps_entries := ps_entries st @ [e], ps_offset := offset + len\<rparr>
                           in if entry_operation P e = Commit
                              then st\<lparr>ps_committed_count := length (ps_entries st), ps_committed_end := ps_offset st\<rparr>
                              else st)
                      | Inl err \<Rightarrow> st\<lparr>ps_offset := offset + len\<rparr>)"

definition parse_result :: "parse_state \<Rightarrow> (wal_entry list \<times> nat \<times> nat) outcome" where
  "parse_result st =
     (if ps_status st = Crashed then Panic
      else Ok (ps_entries st, ps_committed_count st, ps_committed_end st))"

section \<open>Every pass makes progress\<close>

lemma parse_pass_progress:
  assumes "parse_goes_on buffer st" and "ps_status (parse_pass P buffer st) = Going"
  shows "ps_offset st + 8 \<le> ps_offset (parse_pass P buffer st) \<and> ps_offset (parse_pass P buffer st) \<le> length buffer"
  using assms unfolding parse_goes_on_def parse_pass_def Let_def by (auto split: sum.splits if_splits)

lemma parse_pass_loop:
  assumes "parse_goes_on buffer st" and "st' = parse_pass P buffer st"
  shows "parse_loop P buffer (ps_offset st) (ps_entries st) (ps_committed_count st) (ps_committed_end st) =
    (if ps_status st' = Going
     then parse_loop P buffer (ps_offset st') (ps_entries st') (ps_committed_count st') (ps_committed_end st')
     else parse_result st')"
  using assms(1) unfolding assms(2)
  by (subst parse_loop.simps) (auto simp: parse_goes_on_def parse_pass_def parse_result_def Let_def split: sum.splits)

lemma parse_loop_end:
  assumes "\<not> parse_goes_on buffer st" and "ps_status st = Going"
  shows "parse_loop P buffer (ps_offset st) (ps_entries st) (ps_committed_count st) (ps_committed_end st) = parse_result st"
  using assms by (subst parse_loop.simps) (simp add: parse_goes_on_def parse_result_def)

lemma parse_passes:
  "ps_status st = Going \<Longrightarrow> \<exists>n st'. 8 * n \<le> (length buffer - ps_offset st) + 8 \<and> st' = (parse_pass P buffer ^^ n) st
     \<and> while_option (parse_goes_on buffer) (parse_pass P buffer) st = Some st'
     \<and> parse_loop P buffer (ps_offset st) (ps_entries st) (ps_committed_count st) (ps_committed_end st) = parse_result st'"
proof (induction "length buffer - ps_offset st" arbitrary: st rule: less_induct)
  case less
  let ?w = "while_option (parse_goes_on buffer) (parse_pass P buffer)" and ?st = "parse_pass P buffer st"
  show ?case
  proof (cases "parse_goes_on buffer st")
    case False
    then have "?w st = Some st" by (simp add: while_option_unfold)
    with parse_loop_end [OF False less.prems] show ?thesis by (intro exI [of _ 0] exI [of _ st]) simp
  next
    case going: True
    then have unfold: "?w st = ?w ?st" by (simp add: while_option_unfold [of _ _ st])
    show ?thesis
    proof (cases "ps_status ?st = Going")
      case False
      then have "?w ?st = Some ?st" by (simp add: while_option_unfold parse_goes_on_def)
      with parse_pass_loop [OF going refl, of P] False unfold show ?thesis by (intro exI [of _ 1] exI [of _ ?st]) simp
    next
      case True
      note step = parse_pass_progress [OF going True]
      from step going have "length buffer - ps_offset ?st < length buffer - ps_offset st" by (elim conjE) linarith
      from less.hyps [OF this True] obtain n st' where
        n: "8 * n \<le> (length buffer - ps_offset ?st) + 8" "st' = (parse_pass P buffer ^^ n) ?st" "?w ?st = Some st'"
          "parse_loop P buffer (ps_offset ?st) (ps_entries ?st) (ps_committed_count ?st) (ps_committed_end ?st) = parse_result st'" by blast
      have "(length buffer - ps_offset ?st) + 8 \<le> length buffer - ps_offset st" using step by (elim conjE) linarith
      with n(1) have "8 * Suc n \<le> (length buffer - ps_offset st) + 8" by simp
      with n(2-4) parse_pass_loop [OF going refl, of P] True unfold show ?thesis
        by (intro exI [of _ "Suc n"] exI [of _ st']) (simp add: funpow_swap1)
    qed
  qed
qed

lemma parse_buffer_loop:
  "\<exists>n st. 8 * n \<le> length buffer + 8 \<and> st = (parse_pass P buffer ^^ n) parse_init
     \<and> while_option (parse_goes_on buffer) (parse_pass P buffer) parse_init = Some st
     \<and> parse_buffer P buffer = parse_result st"
  using parse_passes [of parse_init buffer P] by (simp add: parse_init_def parse_buffer_def)

end
