(* ===== verification/Ferrum_Life.thy ===== *)
theory Ferrum_Life
  imports Ferrum_Honest
begin

text \<open>
  The lives of a table: processes that use it one after the other, each until it is stopped. A
  process opens the directory under a schedule of faults of its own, makes calls as long as they are
  acknowledged, and ends between two calls or in the middle of one. \<open>lives\<close> composes such processes
  on the files they leave to each other; the abstract machine \<open>map_lives\<close> says what a client may
  find: every acknowledged call took effect, and the call a process died in took effect as a whole
  or not at all.
\<close>

section \<open>Acknowledged calls\<close>

lemma answer_of_Ok: "Ok x = answer_of f r \<longleftrightarrow> (\<exists>y. r = Ok y \<and> x = f y)"
  by (cases r) simp_all

text \<open>A call that writes to the log only, or does not write.\<close>

fun below_budget :: "store \<Rightarrow> store_op \<Rightarrow> bool" where
  "below_budget s (DoSet k v) = (memtable_bytes (memtable_insert k (Value v) s) < memtable_max_bytes s)"
| "below_budget s (DoDelete k) = (memtable_bytes (memtable_insert k Tombstone s) < memtable_max_bytes s)"
| "below_budget s (DoCommit ops) =
     (memtable_bytes (fold pending_apply (tx_pending (fold tx_step ops (begin_transaction s))) s) < memtable_max_bytes s)"
| "below_budget s (DoGet k) = True"
| "below_budget s (DoScan lo hi) = True"
| "below_budget s (DoBudget n) = True"
| "below_budget s op = False"

text \<open>A call that reports every error it meets: all but those that compact, and reopening.\<close>

fun candid :: "store \<Rightarrow> store_op \<Rightarrow> bool" where
  "candid s DoReopen = False"
| "candid s DoCompact = (length (st_sstables s) < 2)"
| "candid s op = (below_budget s op \<or> length (st_sstables s) < MAX_SSTABLES)"

fun is_read :: "store_op \<Rightarrow> bool" where
  "is_read (DoGet k) = True"
| "is_read (DoScan lo hi) = True"
| "is_read op = False"

inductive acked_run :: "prost \<Rightarrow> store \<times> world \<Rightarrow> (store_op \<times> answer outcome) list \<Rightarrow> store \<times> world \<Rightarrow> bool"
  for P :: prost where
  acked_nil: "acked_run P sw [] sw"
| acked_cons: "op_room P sw op \<Longrightarrow> store_step P sw op (Ok x) sw' \<Longrightarrow> candid (fst sw) op \<or> \<not> struck (snd sw) (snd sw') \<Longrightarrow>
     acked_run P sw' tr sw'' \<Longrightarrow> acked_run P sw ((op, Ok x) # tr) sw''"
| acked_read: "is_read op \<Longrightarrow> store_step P sw op (Err e) sw' \<Longrightarrow> acked_run P sw' tr sw'' \<Longrightarrow> acked_run P sw tr sw''"

section \<open>A call during which no fault struck\<close>

lemma contents_calm [simp]: "contents (calm w) = contents w"
  by (simp add: contents_def fun_eq_iff)

lemma calm_world [simp]: "w_dirs (calm w) = w_dirs w" "w_files (calm w) = w_files w" "w_locks (calm w) = w_locks w"
  by (simp_all add: calm_def)

lemma engine_calm [simp]: "engine P (calm w) s ids ess log = engine P w s ids ess log"
  by (simp add: engine_def dir_holds_def wal_holds_def writable_at_def dir_ready_def fs_wf_def)

lemma models_calm [simp]: "models P (calm w) s m = models P w s m"
  by (simp add: models_def)

lemma op_room_calm [simp]: "op_room P (s, calm w) op = op_room P (s, w) op"
  by (cases op) (simp_all add: room_def stored_bytes_def)

lemma honest_tx_commit:
  assumes "tx_commit P t w = (r, (s', w'))" and "\<not> struck w w'"
  shows "tx_commit P t (calm w) = (r, (s', calm w'))"
proof -
  have "honestP False (bindA (append_pending P ps) (\<lambda>_.
        bindA (\<lambda>(s, w). on_wal (wal_write_commit P (st_sequence s)) (s, w)) (\<lambda>_.
        bindA (updS (fold pending_apply ps)) (\<lambda>_. maybe_flush P))))" for ps
    by (intro honest_splits honest_intros)
  from honest_calm(2) [OF this] assms show ?thesis by (auto simp: tx_commit_def split: if_splits)
qed

lemma step_calm:
  assumes "store_step P (s, w) op a (s', w')" and "\<not> struck w w'"
  shows "store_step P (s, calm w) op a (s', calm w')"
proof -
  have pair: "m (s, calm w) = (r, (s', calm w'))" if "honestP False m" "m (s, w) = (r, (s', w'))" for m :: "'x store_act" and r
    using honest_calm(2) [OF that assms(2)] .
  from assms(1) show ?thesis
  proof cases
    case step_reopen
    then have "\<not> struck (drop_store s w) w'" using assms(2) by (simp add: struck_def)
    from honest_calm(1) [OF honest_open_path step_reopen(3) this] step_reopen show ?thesis
      by (auto intro: store_step.step_reopen simp: calm_drop_store)
  qed (auto intro!: store_step.intros pair honest_set_value honest_delete_value honest_get_value honest_scan_range
      honest_intros honest_tx_commit [OF _ assms(2)])
qed

context prost_codec
begin

lemma batch_candid:
  assumes "models P w s m" and "write_batch P ps (s, w) = (Ok (), (s', w'))"
    and "memtable_bytes (insert_all (pending_ops ps) s) < memtable_max_bytes s \<or> length (st_sstables s) < MAX_SSTABLES"
  shows "\<not> struck w w'"
  using assms(3)
proof
  assume "memtable_bytes (insert_all (pending_ops ps) s) < memtable_max_bytes s"
  from write_batch_below_budget [OF assms(1) this assms(2)] show ?thesis
    using honestD(4) [OF honest_log_batch [of True]] by fastforce
next
  assume "length (st_sstables s) < MAX_SSTABLES"
  moreover obtain ids ess log where "engine P w s ids ess log" using assms(1) by (rule modelsE)
  then have "wal_holds (st_wal s) w (frames P log)" by (simp add: engine_def)
  ultimately show ?thesis using write_batch_candid [OF assms(2)] by blast
qed

lemma step_candid:
  assumes "store_step P (s, w) op (Ok x) (s', w')" and "candid s op" and "models P w s m"
  shows "\<not> struck w w'"
proof (cases op)
  case (DoSet k v)
  with assms(1) obtain y where "set_value P k v (s, w) = (Ok y, (s', w'))" by (auto simp: answer_of_Ok)
  then have "write_batch P [(k, Some v)] (s, w) = (Ok (), (s', w'))"
    by (auto simp: set_value_batch bindA_def returnA_def split: prod.splits outcome.splits)
  from batch_candid [OF assms(3) this] assms(2) DoSet show ?thesis by (simp add: pending_ops_def)
next
  case (DoDelete k)
  with assms(1) obtain y where "delete_value P k (s, w) = (Ok y, (s', w'))" by (auto simp: answer_of_Ok)
  then have "write_batch P [(k, None)] (s, w) = (Ok (), (s', w'))"
    by (auto simp: delete_value_batch bindA_def returnA_def split: prod.splits outcome.splits)
  from batch_candid [OF assms(3) this] assms(2) DoDelete show ?thesis by (simp add: pending_ops_def)
next
  case (DoGet k)
  with assms(1) obtain y where "get_value P k (s, w) = (Ok y, (s', w'))" by (auto simp: answer_of_Ok)
  with honestD(4) [OF honest_get_value [of True]] show ?thesis by fastforce
next
  case (DoScan lo hi)
  with assms(1) obtain y where "scan_range P lo hi (s, w) = (Ok y, (s', w'))" by (auto simp: answer_of_Ok)
  with honestD(4) [OF honest_scan_range [of True]] show ?thesis by fastforce
next
  case DoFlush
  with assms(1) have "flush P (s, w) = (Ok (), (s', w'))" by (auto simp: answer_of_Ok)
  with flush_candid assms(2) DoFlush show ?thesis by simp
next
  case DoCompact
  with assms(1,2) show ?thesis by (auto simp: compact_def)
next
  case (DoBudget n)
  with assms(1) show ?thesis by auto
next
  case (DoCommit ops)
  let ?t = "fold tx_step ops (begin_transaction s)"
  have st: "tx_store ?t = s" by (simp add: tx_steps)
  have run: "tx_commit P ?t w = (Ok (), (s', w'))" using assms(1) DoCommit by (auto simp: answer_of_Ok)
  show ?thesis
  proof (cases "tx_pending ?t = []")
    case False
    then have "write_batch P (tx_pending ?t) (s, w) = (Ok (), (s', w'))" using run st by (simp add: tx_commit_batch)
    from batch_candid [OF assms(3) this] assms(2) DoCommit show ?thesis by (simp add: fold_pending_apply)
  qed (use run in \<open>simp add: tx_commit_def\<close>)
qed (use assms(2) in simp)

lemma acked_step:
  assumes "store_step P (s, w) op (Ok x) (s', w')" and "op_room P (s, w) op" and "candid s op \<or> \<not> struck w w'"
    and "models P w s m"
  shows "\<exists>m'. map_step m op x m' \<and> models P w' s' m'"
proof -
  have "\<not> struck w w'" using assms(3) step_candid [OF assms(1) _ assms(4)] by blast
  from step_calm [OF assms(1) this] show ?thesis using step_simulation [of s "calm w"] assms(2,4) by fastforce
qed

end

section \<open>Reads that fail\<close>

lemma models_later [simp]: "models P (later n w) s m = models P w s m"
  by (simp add: models_def)

lemma cached_block_failed:
  assumes "cached_block ie (t, w) = (r, (t', w'))" and "\<forall>x. r \<noteq> Ok x"
  shows "t' = t"
  using assms
  by (auto simp: cached_block_def cache_get_def bindA_def onW_def split: option.splits prod.splits outcome.splits)

lemma sst_get_struck:
  assumes "sst_get P key (t, w) = (r, (t', w'))" and "struck w w'"
  shows "t' = t \<and> (\<forall>x. r \<noteq> Ok x)"
proof -
  have r: "\<forall>x. r \<noteq> Ok x" using honestD(4) [OF honest_sst_get [of True] assms(1)] assms(2) by auto
  have "t' = t" if "\<not> (sst_index t = [] \<or> out_of_range t key)" "find_block t key = Some pos" "bloom_rejects t key = Ok False" for pos
  proof -
    obtain r1 t1 w1 where c: "cached_block (sst_index t ! pos) (t, w) = (r1, (t1, w1))" using prod_cases3 by blast
    then have "t' = t1" "w' = w1" using assms(1) that by (auto simp: sst_get_def bindA_def liftO_def split: outcome.splits)
    with honestD(4) [OF honest_cached_block [of True] c] assms(2) cached_block_failed [OF c] show ?thesis by fastforce
  qed
  with assms(1) r show ?thesis
    by (auto simp: sst_get_def bindA_def liftO_def returnA_def split: if_splits outcome.splits option.splits)
qed

lemma cached_block_later: "\<exists>n. snd (snd (cached_block ie (t, w))) = later n w"
proof (cases "cache_get (ie_block_offset ie) (sst_cache t)")
  case (Pair found c)
  have "reads (bindA (fs_open False False (sst_path t)) (\<lambda>_. read_block_from_disk (sst_path t) ie))"
    by (intro reads_bindA reads_calls reads_block)
  from readsD(1) [OF this, of w] show ?thesis
    by (cases found) (auto simp: cached_block_def Pair bindA_def onW_def split: prod.splits outcome.splits intro: exI [of _ 0])
qed

lemma sst_get_later: "\<exists>n. snd (snd (sst_get P key (t, w))) = later n w"
  using cached_block_later
  by (auto simp: sst_get_def bindA_def liftO_def returnA_def split: outcome.splits option.splits prod.splits intro: exI [of _ 0])
    (metis snd_conv)+

lemma lookup_later: "lookup_layers (sst_get P key) ts w = (r, (ts', w')) \<Longrightarrow> \<exists>n. w' = later n w"
proof (induction ts arbitrary: w r ts' w')
  case (Cons t ts)
  obtain r1 t1 w1 where g: "sst_get P key (t, w) = (r1, (t1, w1))" using prod_cases3 by blast
  obtain n where "w1 = later n w" using sst_get_later [of P key t w] g by auto
  moreover obtain r2 ts2 w2 where l: "lookup_layers (sst_get P key) ts w1 = (r2, (ts2, w2))" using prod_cases3 by blast
  moreover from Cons.IH [OF this] obtain k where "w2 = later k w1" ..
  ultimately show ?case using Cons.prems by (auto simp: g split: outcome.splits option.splits)
qed (auto intro: exI [of _ 0])

context prost_codec
begin

lemma sst_get_any:
  assumes "represents P w t es" and "sst_get P key (t, w) = (r, (t', w'))"
  shows "represents P w t' es \<and> sst_path t' = sst_path t \<and> (\<forall>x. r = Ok x \<longrightarrow> x = map_of es key)"
proof (cases "struck w w'")
  case True
  with sst_get_struck [OF assms(2)] assms(1) show ?thesis by blast
next
  case False
  from honest_calm(2) [OF honest_sst_get assms(2) False] have "sst_get P key (t, calm w) = (r, (t', calm w'))" .
  with sst_get_ok [of "calm w" t es key] assms(1) show ?thesis by auto
qed

lemma lookup_any:
  assumes "list_all2 (represents P w) ts ess" and "lookup_layers (sst_get P key) ts w = (r, (ts', w'))"
  shows "list_all2 (represents P w) ts' ess \<and> map sst_path ts' = map sst_path ts \<and> (\<forall>x. r = Ok x \<longrightarrow> x = map_of (concat ess) key)"
  using assms
proof (induction ts arbitrary: w ess r ts' w')
  case (Cons t ts)
  obtain es ess1 where ess: "ess = es # ess1" "represents P w t es" "list_all2 (represents P w) ts ess1"
    using Cons.prems(1) by (cases ess) auto
  obtain r1 t1 w1 where g: "sst_get P key (t, w) = (r1, (t1, w1))" using prod_cases3 by blast
  note G = sst_get_any [OF ess(2) g]
  obtain n where n: "w1 = later n w" using sst_get_later [of P key t w] g by auto
  show ?case
  proof (cases "r1 = Ok None")
    case True
    obtain r2 ts2 w2 where l: "lookup_layers (sst_get P key) ts w1 = (r2, (ts2, w2))" using prod_cases3 by blast
    have "list_all2 (represents P w1) ts ess1" using ess(3) by (simp add: n represents_later_fun)
    note IH = Cons.IH [OF this l]
    have "r = r2" "ts' = t1 # ts2" using Cons.prems(2) True by (simp_all add: g l)
    with IH G True show ?thesis by (auto simp: ess(1) n represents_later_fun map_add_def)
  next
    case False
    with Cons.prems(2) have "r = r1" "ts' = t1 # ts" by (auto simp: g split: outcome.splits option.splits)
    with G ess(3) False show ?thesis by (auto simp: ess(1) map_add_def split: option.splits)
  qed
qed auto

text \<open>
  A read under any schedule leaves the store as it was. When a fault strikes in it, it reports an error;
  otherwise it answers as it does in a world without faults.
\<close>

lemma get_value_any:
  assumes "models P w s m" and "get_value P key (s, w) = (r, (s', w'))"
  shows "models P w' s' m"
proof -
  obtain ids ess log where e: "engine P w s ids ess log" "m = view (st_data s) ess" using assms(1) by (rule modelsE)
  obtain r1 ts w1 where l: "lookup_layers (sst_get P key) (st_sstables s) w = (r1, (ts, w1))" using prod_cases3 by blast
  have "list_all2 (represents P w) (st_sstables s) ess" using e(1) by (simp add: engine_def)
  note L = lookup_any [OF this l]
  obtain n where n: "w1 = later n w" using lookup_later [OF l] ..
  have "engine P w (s\<lparr>st_sstables := ts\<rparr>) ids ess log" using engine_cache [OF e(1)] L by blast
  from modelsI [OF this] have "models P w (s\<lparr>st_sstables := ts\<rparr>) m" using e(2) by simp
  then show ?thesis
    using assms l n by (auto simp: get_value_def split: option.splits entry.splits)
qed

lemma scan_range_any:
  assumes "models P w s m" and "scan_range P lo hi (s, w) = (r, (s', w'))"
  shows "s' = s" and "models P w' s m"
proof -
  show "s' = s"
    using assms(2) by (auto simp: scan_range_def bindA_def onW_def liftO_def returnA_def split: outcome.splits prod.splits)
  have "\<exists>n. w' = later n w"
    using assms(2) readsD(1) [OF reads_merge]
    by (auto simp: scan_range_def bindA_def onW_def liftO_def returnA_def split: outcome.splits prod.splits) (metis snd_conv)+
  with assms(1) show "models P w' s m" by auto
qed

lemma read_struck:
  assumes "store_step P (s, w) op a (s', w')" and "is_read op" and "struck w w'"
  shows "\<exists>e. a = Err e"
proof (cases op)
  case (DoGet k)
  with assms(1) obtain r where "get_value P k (s, w) = (r, (s', w'))" "a = answer_of Got r" by auto
  with honestD(5) [OF honest_get_value [of True]] assms(3) show ?thesis by fastforce
next
  case (DoScan lo hi)
  with assms(1) obtain r where "scan_range P lo hi (s, w) = (r, (s', w'))" "a = answer_of Pairs r" by auto
  with honestD(5) [OF honest_scan_range [of True]] assms(3) show ?thesis by fastforce
qed (use assms(2) in simp_all)

lemma read_keeps:
  assumes "store_step P (s, w) op a (s', w')" and "is_read op" and "models P w s m"
  shows "models P w' s' m"
proof (cases op)
  case (DoGet k)
  with assms(1) get_value_any [OF assms(3)] show ?thesis by auto
next
  case (DoScan lo hi)
  with assms(1) obtain r where "scan_range P lo hi (s, w) = (r, (s', w'))" by auto
  from scan_range_any [OF assms(3) this] show ?thesis by simp
qed (use assms(2) in simp_all)

lemma read_panics:
  assumes "store_step P (s, w) op a (s', w')" and "is_read op" and "models P w s m" and "quiet w" and "\<not> op_room P (s, w) op"
  shows "a = Panic"
proof (cases op)
  case (DoScan lo hi)
  with assms(5) have i: "st_data s \<noteq> []" "range_panics lo hi" by simp_all
  obtain ids ess log where "engine P w s ids ess log" using assms(3) by (rule modelsE)
  from scan_range_panics [OF assms(4) this i] DoScan assms(1) show ?thesis by auto
qed (use assms(2,5) in simp_all)

lemma read_any:
  assumes "store_step P (s, w) op a (s', w')" and "is_read op" and "models P w s m"
  shows "models P w' s' m
    \<and> (case a of Ok x \<Rightarrow> map_step m op x m | Err e \<Rightarrow> struck w w' | Panic \<Rightarrow> \<not> op_room P (s, w) op)"
proof (cases "struck w w'")
  case True
  with read_struck [OF assms(1,2)] read_keeps [OF assms] show ?thesis by auto
next
  case False
  note C = step_calm [OF assms(1) False]
  show ?thesis
  proof (cases "op_room P (s, w) op")
    case True
    then obtain b m' where "a = Ok b" "map_step m op b m'"
      using step_simulation [OF C, of m] assms(3) by auto
    moreover from this(2) assms(2) have "m' = m" by (auto elim: map_step.cases)
    ultimately show ?thesis using read_keeps [OF assms] by simp
  next
    case False
    with read_panics [OF C assms(2)] read_keeps [OF assms] assms(3) show ?thesis by simp
  qed
qed

lemma acked_simulation:
  "acked_run P sw tr sw' \<Longrightarrow> models P (snd sw) (fst sw) m \<Longrightarrow> \<exists>m'. map_run m tr m' \<and> models P (snd sw') (fst sw') m'"
proof (induction arbitrary: m rule: acked_run.induct)
  case (acked_cons sw op x sw' tr sw'')
  from acked_step [of "fst sw" "snd sw" op x "fst sw'" "snd sw'" m] acked_cons
  obtain m1 where "map_step m op x m1" "models P (snd sw') (fst sw') m1" by auto
  with acked_cons.IH show ?case by (blast intro: map_cons)
next
  case (acked_read op sw e sw' tr sw'')
  from read_any [of "fst sw" "snd sw" op "Err e" "fst sw'" "snd sw'" m] acked_read show ?case by simp
qed (auto intro: map_nil)

end

section \<open>The call a process dies in\<close>

lemma survives_later: "survives P w d m \<Longrightarrow> survives P (later n w) d m"
  by (rule survives_files) simp_all

context prost_codec
begin

lemma batch_dies:
  assumes "models P w s m" and "bt_sorted ps" and "room P w s (batch_cost P s ps)"
    and "memtable_bytes (insert_all (pending_ops ps) s) < memtable_max_bytes s"
  shows "survives P (snd (snd (write_batch P ps (s, w)))) (st_dir s) (apply_batch ps m)
    \<or> survives P (snd (snd (write_batch P ps (s, w)))) (st_dir s) m"
  using write_batch_crash [OF assms] by (metis prod.collapse)

text \<open>Whatever the last call returns, it took effect as a whole or not at all.\<close>

lemma step_dies:
  assumes "store_step P (s, w) op a (s', w')" and "op_room P (s, w) op" and "below_budget s op" and "models P w s m"
  shows "survives P w' (st_dir s) m \<or> (\<exists>b m'. map_step m op b m' \<and> survives P w' (st_dir s) m')"
proof (cases op)
  case (DoSet k v)
  have "w' = snd (snd (write_batch P [(k, Some v)] (s, w)))"
    using assms(1) DoSet by (auto simp: set_value_batch bindA_def returnA_def split: prod.splits outcome.splits)
  moreover have "apply_batch [(k, Some v)] m = m(k \<mapsto> v)" by (auto simp: apply_batch_def)
  ultimately show ?thesis using batch_dies [OF assms(4), of "[(k, Some v)]"] assms(2,3) DoSet
    by (auto simp: pending_ops_def intro: map_set)
next
  case (DoDelete k)
  have "w' = snd (snd (write_batch P [(k, None)] (s, w)))"
    using assms(1) DoDelete by (auto simp: delete_value_batch bindA_def returnA_def split: prod.splits outcome.splits)
  moreover have "apply_batch [(k, None)] m = m(k := None)" by (auto simp: apply_batch_def)
  ultimately show ?thesis using batch_dies [OF assms(4), of "[(k, None)]"] assms(2,3) DoDelete
    by (auto simp: pending_ops_def intro: map_delete)
next
  case (DoCommit ops)
  let ?t = "fold tx_step ops (begin_transaction s)"
  have st: "tx_store ?t = s" by (simp add: tx_steps)
  have run: "w' = snd (snd (tx_commit P ?t w))" using assms(1) DoCommit by auto
  show ?thesis
  proof (cases "tx_pending ?t = []")
    case True
    then show ?thesis using run models_survives [OF assms(4)] by (simp add: tx_commit_def st)
  next
    case False
    then have "w' = snd (snd (write_batch P (tx_pending ?t) (s, w)))" using run st by (simp add: tx_commit_batch)
    moreover have "bt_sorted (tx_pending ?t)" "apply_batch (tx_pending ?t) m = fold op_effect ops m"
      by (simp_all add: tx_steps tx_steps_batch)
    ultimately show ?thesis using batch_dies [OF assms(4), of "tx_pending ?t"] assms(2,3) DoCommit
      by (auto simp: fold_pending_apply intro: map_commit)
  qed
next
  case (DoGet k)
  have "\<exists>n. w' = later n w"
    using assms(1) DoGet by (auto simp: get_value_def split: option.splits entry.splits prod.splits)
      (metis lookup_later later_simps(1))+
  with models_survives [OF assms(4)] show ?thesis by (auto intro: survives_later)
next
  case (DoScan lo hi)
  have "\<exists>n. w' = later n w"
    using assms(1) DoScan readsD(1) [OF reads_merge]
    by (auto simp: scan_range_def bindA_def onW_def liftO_def returnA_def split: outcome.splits prod.splits) (metis snd_conv)+
  with models_survives [OF assms(4)] show ?thesis by (auto intro: survives_later)
next
  case (DoBudget n)
  with assms(1) models_survives [OF assms(4)] show ?thesis by auto
qed (use assms(3) in simp_all)

end

section \<open>Processes\<close>

definition boot :: "(nat \<Rightarrow> fault) \<Rightarrow> world \<Rightarrow> world" where
  "boot f w = w\<lparr>w_locks := [], w_faults := f\<rparr>"

type_synonym history = "(store_op \<times> answer outcome) list \<times> store_op option"

inductive life :: "prost \<Rightarrow> path \<Rightarrow> world \<Rightarrow> history \<Rightarrow> world \<Rightarrow> bool" for P :: prost and d :: path where
  life_open: "open_path P d (boot f w) = (r, w') \<Longrightarrow> life P d w ([], None) w'"
| life_run: "open_path P d (boot f w) = (Ok s, w1) \<Longrightarrow> \<not> struck (boot f w) w1 \<Longrightarrow> acked_run P (s, w1) tr (s', w') \<Longrightarrow>
     life P d w (tr, None) w'"
| life_call: "open_path P d (boot f w) = (Ok s, w1) \<Longrightarrow> \<not> struck (boot f w) w1 \<Longrightarrow> acked_run P (s, w1) tr (s2, w2) \<Longrightarrow>
     op_room P (s2, w2) op \<Longrightarrow> below_budget s2 op \<Longrightarrow> store_step P (s2, w2) op a (s', w') \<Longrightarrow>
     life P d w (tr, Some op) w'"

inductive lives :: "prost \<Rightarrow> path \<Rightarrow> world \<Rightarrow> history list \<Rightarrow> world \<Rightarrow> bool" for P :: prost and d :: path where
  lives_nil: "lives P d w [] w"
| lives_cons: "life P d w h w' \<Longrightarrow> lives P d w' hs w'' \<Longrightarrow> lives P d w (h # hs) w''"

inductive map_life :: "(bytes \<Rightarrow> db_value option) \<Rightarrow> history \<Rightarrow> (bytes \<Rightarrow> db_value option) \<Rightarrow> bool" where
  map_life_ends: "map_run m tr m' \<Longrightarrow> map_life m (tr, op) m'"
| map_life_effect: "map_run m tr m1 \<Longrightarrow> map_step m1 op b m' \<Longrightarrow> map_life m (tr, Some op) m'"

inductive map_lives :: "(bytes \<Rightarrow> db_value option) \<Rightarrow> history list \<Rightarrow> (bytes \<Rightarrow> db_value option) \<Rightarrow> bool" where
  map_lives_nil: "map_lives m [] m"
| map_lives_cons: "map_life m h m1 \<Longrightarrow> map_lives m1 hs m' \<Longrightarrow> map_lives m (h # hs) m'"

lemma boot_simps [simp]:
  "w_locks (boot f w) = []" "w_files (boot f w) = w_files w" "w_dirs (boot f w) = w_dirs w"
  by (simp_all add: boot_def)

lemma acked_dir: "acked_run P sw tr sw' \<Longrightarrow> tidy d (fst sw) \<Longrightarrow> st_dir (fst sw') = d"
proof (induction rule: acked_run.induct)
  case (acked_cons sw op x sw' tr sw'')
  with step_isolates [of P "fst sw" "snd sw" op _ "fst sw'" "snd sw'" d] show ?case by simp
next
  case (acked_read op sw e sw' tr sw'')
  with step_isolates [of P "fst sw" "snd sw" op _ "fst sw'" "snd sw'" d] show ?case by simp
qed (simp add: tidy_dir)

context prost_codec
begin

lemma open_life:
  assumes "open_path P d (boot f w) = (Ok s, w1)" and "\<not> struck (boot f w) w1" and "survives P w d m"
  shows "models P w1 s m" and "tidy d s"
proof -
  have "open_path P d (calm (boot f w)) = (Ok s, calm w1)" using honest_calm(1) [OF honest_open_path assms(1,2)] .
  moreover obtain ids ess log where D: "on_disk P w d ids ess log" "m = view (log_data P log) ess"
    using assms(3) by (auto simp: survives_def)
  have "on_disk P (calm (boot f w)) d ids ess log" using on_disk_files [OF D(1)] by simp
  from open_models [OF _ this] D(2) obtain s' w' where
    "open_path P d (calm (boot f w)) = (Ok s', w')" "models P w' s' m" "st_dir s' = d" by auto
  ultimately show "models P w1 s m" and "tidy d s" using models_tidy by fastforce+
qed

lemma life_safe:
  assumes "life P d w h w'" and "survives P w d m"
  shows "\<exists>m'. map_life m h m' \<and> survives P w' d m'"
  using assms(1)
proof cases
  case (life_open f r)
  have "survives P (boot f w) d m" by (rule survives_files [OF assms(2)]) simp_all
  from open_survives [OF life_open(2) this] life_open(1) show ?thesis by (blast intro: map_life_ends map_nil)
next
  case (life_run f s w1 tr s')
  note O = open_life [OF life_run(2,3) assms(2)]
  from acked_simulation [OF life_run(4)] O(1) obtain m' where "map_run m tr m'" "models P w' s' m'" by auto
  moreover have "st_dir s' = d" using acked_dir [OF life_run(4)] O(2) by simp
  ultimately show ?thesis using models_survives life_run(1) by (blast intro: map_life_ends)
next
  case (life_call f s w1 tr s2 w2 op a s')
  note O = open_life [OF life_call(2,3) assms(2)]
  from acked_simulation [OF life_call(4)] O(1) obtain m1 where m1: "map_run m tr m1" "models P w2 s2 m1" by auto
  have "st_dir s2 = d" using acked_dir [OF life_call(4)] O(2) by simp
  with step_dies [OF life_call(7,5,6) m1(2)] m1(1) life_call(1) show ?thesis
    by (blast intro: map_life_ends map_life_effect)
qed

lemma lives_safe: "lives P d w hs w' \<Longrightarrow> survives P w d m \<Longrightarrow> \<exists>m'. map_lives m hs m' \<and> survives P w' d m'"
proof (induction arbitrary: m rule: lives.induct)
  case (lives_cons w h w' hs w'')
  with life_safe [OF lives_cons(1)] show ?case by (meson map_lives_cons)
qed (blast intro: map_lives_nil)

end

end
