(* ===== verification/Ferrum_Scenes.thy ===== *)
theory Ferrum_Scenes
  imports Ferrum_Sample Ferrum_Anomalies Ferrum_Retry Ferrum_Torn Ferrum_Demo Ferrum_Isolation Ferrum_Typing Ferrum_Loop Ferrum_Life
begin

text \<open>
  More concrete states: the sample table as the one table of a database, the same directory
  after its process stopped, the sample store after a flush (two tables, of which the newer hides
  a key of the older), and a directory with an incomplete table file.
\<close>

section \<open>A database with one open table\<close>

definition sample_db :: database where
  "sample_db = \<lparr>db_root = [''db''], db_open = [(''t'', sample_store)]\<rparr>"

definition sample_tables :: tables where
  "sample_tables = [''t'' \<mapsto> sample_map]"

lemma sample_paths_below: "file_of (sample_world f) p \<noteq> None \<Longrightarrow> in_tree [''db'', ''t''] p \<and> p \<noteq> sample_dir"
  using sample_file_cases [of f p]
  by (auto simp: sample_wal_path_def sample_table_path_def sample_dir_def in_tree_def)

lemma sample_empty: "name \<noteq> ''t'' \<Longrightarrow> empty_tree (sample_world f) [''db'', name]"
proof -
  assume name: "name \<noteq> ''t''"
  have "\<not> in_tree [''db'', ''t''] p" if "in_tree [''db'', name] p" for p
    using that name by (auto simp: in_tree_def)
  moreover have "p \<notin> set (w_dirs (sample_world f))" "p \<notin> set (w_locks (sample_world f))" if "in_tree [''db'', name] p" for p
    using that name by (auto simp: in_tree_def sample_dir_def)
  ultimately show ?thesis unfolding empty_tree_def using sample_paths_below [of f] by blast
qed

lemma sample_db_holds: "db_holds wire_codec (sample_world f) sample_db sample_tables"
proof -
  have "only_lock (sample_world f) [''db'', name]" for name
    by (auto simp: only_lock_def in_tree_def sample_dir_def)
  moreover have "dir_ready (sample_world f) [''db'']"
    using sample_dir_ready [of f] by (simp add: dir_ready_def ancestors_def sample_dir_def upt_rec)
  moreover have "fs_wf (sample_world f)" using sample_dir_holds [of f] by (simp add: dir_holds_def)
  moreover have "validate_name ''t'' = Done ()" "path_ok [''db'']" by (simp_all add: validate_name_def path_ok_def normal_component_def)
  ultimately show ?thesis
    using sample_table_models [of f] sample_empty [of _ f]
    by (auto simp: db_holds_def sample_db_def sample_tables_def sample_store_dir) (simp_all add: sample_dir_def)
qed

lemma sample_survives: "survives wire_codec (sample_world f) sample_dir (\<lambda>k. map_option Bytes (sample_map k))"
  using engine_survives [OF sample_engine, of f] by (simp add: sample_view sample_store_dir)

lemma sample_db_open: "map_of (db_open sample_db) ''t'' = Some sample_store"
  by (simp add: sample_db_def)

lemma sample_name: "validate_name ''t'' = Done ()"
  by (simp add: validate_name_def)

lemma sample_bytes_cost: "batch_cost wire_codec sample_store [([4], Some (Bytes [6]))] \<le> 1000"
  by (simp add: sample_cost_simps)

text \<open>A second table, opened next to the first.\<close>

lemma second_table:
  obtains s w where "models wire_codec w s (\<lambda>k. None)" and "st_dir s = [''db'', ''u'']"
    and "table_models wire_codec w sample_store sample_map"
proof -
  have "map_of (db_open sample_db) ''u'' = None" by (simp add: sample_db_def)
  from wire.open_store_models [OF calm_quiet sample_db_holds bare_world_simps(6) this] obtain s w where
    s: "db_holds wire_codec w (sample_db\<lparr>db_open := AList.update ''u'' s (db_open sample_db)\<rparr>)
        (sample_tables(''u'' \<mapsto> the_table sample_tables ''u''))" by blast
  have u: "the_table sample_tables ''u'' = (\<lambda>k. None)" by (simp add: the_table_def sample_tables_def)
  note s = s [unfolded u]
  from open_table_models [OF s, of "''u''" s] have "table_models wire_codec w s (\<lambda>k. None)" "st_dir s = [''db'', ''u'']"
    by (auto simp: sample_db_def)
  moreover from open_table_models [OF s, of "''t''" sample_store] have "table_models wire_codec w sample_store sample_map"
    by (auto simp: sample_db_def sample_tables_def)
  ultimately show thesis using that [of w s] by (simp add: table_models_def)
qed

section \<open>A memtable without budget\<close>

definition small_budget_tx :: transaction where
  "small_budget_tx = sample_tx\<lparr>tx_store := set_memtable_budget 0 sample_store\<rparr>"

lemma small_budget_scene:
  "models wire_codec (sample_world f) (tx_store small_budget_tx) (\<lambda>k. map_option Bytes (sample_map k))"
  "bt_sorted (tx_pending small_budget_tx)"
  "room wire_codec (sample_world f) (tx_store small_budget_tx)
     (batch_cost wire_codec (tx_store small_budget_tx) (tx_pending small_budget_tx))"
  "st_dir (tx_store small_budget_tx) = sample_dir" "length (st_sstables (tx_store small_budget_tx)) = 1"
  "tx_pending small_budget_tx = tx_pending sample_tx"
proof -
  show "models wire_codec (sample_world f) (tx_store small_budget_tx) (\<lambda>k. map_option Bytes (sample_map k))"
    using wire.budget_models [OF sample_models] by (simp add: small_budget_tx_def)
  show "bt_sorted (tx_pending small_budget_tx)" using sample_tx_sorted by (simp add: small_budget_tx_def)
  have "batch_cost wire_codec (set_memtable_budget 0 sample_store) ps = batch_cost wire_codec sample_store ps" for ps
    by (simp add: batch_cost_def set_memtable_budget_def)
  then show "room wire_codec (sample_world f) (tx_store small_budget_tx)
     (batch_cost wire_codec (tx_store small_budget_tx) (tx_pending small_budget_tx))"
    using sample_tx_room [of f]
    by (simp add: small_budget_tx_def sample_tx_store room_def stored_bytes_def set_memtable_budget_def)
  show "st_dir (tx_store small_budget_tx) = sample_dir" "length (st_sstables (tx_store small_budget_tx)) = 1"
    "tx_pending small_budget_tx = tx_pending sample_tx"
    by (simp_all add: small_budget_tx_def set_memtable_budget_def) (simp_all add: sample_store_def)
qed

section \<open>After the process stopped\<close>

definition left_world :: "(nat \<Rightarrow> fault) \<Rightarrow> world" where
  "left_world f = (sample_world f)\<lparr>w_locks := []\<rparr>"

lemma left_survives: "survives wire_codec (left_world f) sample_dir (\<lambda>k. map_option Bytes (sample_map k))"
  using survives_files [OF sample_survives] by (simp add: left_world_def)

lemma left_free: "sample_dir @ [''LOCK''] \<notin> set (w_locks (left_world f))"
  by (simp add: left_world_def)

lemma left_on_disk: "on_disk wire_codec (left_world f) sample_dir [1] [sample_entries] sample_log"
  using engine_on_disk [OF sample_engine, of f] on_disk_files [of wire_codec "sample_world f" sample_dir _ _ _ "left_world f"]
  by (simp add: left_world_def sample_store_dir)

lemma left_ready: "dir_ready (left_world f) sample_dir"
  using sample_dir_ready [of f] by (simp add: left_world_def dir_ready_def file_of_def)

lemma left_lock_file: "file_of (left_world f) (sample_dir @ [''LOCK'']) = Some []"
  by (simp add: left_world_def sample_world_def file_of_def sample_wal_path_def sample_dir_def)

lemma left_faults: "w_faults (left_world ((\<lambda>_. NoFault)(4 := Fault e n)))
    = (\<lambda>_. NoFault)(w_clock (left_world ((\<lambda>_. NoFault)(4 := Fault e n))) + 4 := Fault e n)"
  by (simp add: left_world_def sample_world_def)

lemma left_opens:
  obtains s w where "open_path wire_codec sample_dir (left_world (\<lambda>_. NoFault)) = (Ok s, w)"
proof -
  have "quiet (left_world (\<lambda>_. NoFault))" by (simp add: left_world_def sample_world_def quiet_def)
  from wire.open_models [OF this left_on_disk left_free] show thesis using that by blast
qed

section \<open>Two tables\<close>

definition two_tables :: "store \<times> world" where
  "two_tables = snd (flush_table wire_codec (sample_store, calm_world))"

lemma two_tables_engine:
  obtains s w where "two_tables = (s, w)" and "quiet w" and "st_data s = []" and "next_sstable_id s = 3"
    and "engine wire_codec w s [2, 1] [st_data sample_store, sample_entries] []"
proof -
  have "length (block_bytes wire_codec (st_data sample_store)) = 22"
    by (simp add: sample_store_def length_record_bytes value_bytes_def wire_codec_def wire_enc_value_def)
  then have "table_fits wire_codec (st_data sample_store)" by (intro table_fits_size) simp
  moreover have id: "next_sstable_id sample_store = 2" by (simp add: sample_store_def)
  ultimately obtain s w where "flush_table wire_codec (sample_store, calm_world) = (Ok (), (s, w))" "quiet w"
      "engine wire_codec w s [2, 1] [st_data sample_store, sample_entries] []" "st_data s = []" "next_sstable_id s = 3"
    using flush_table_ok [OF calm_quiet sample_engine] by auto
  then show thesis by (intro that [of s w]) (simp_all add: two_tables_def)
qed

lemma two_tables_scene:
  obtains s w t_new t_old where "two_tables = (s, w)" and "quiet w" and "st_data s = []"
    and "models wire_codec w s (\<lambda>k. map_option Bytes (sample_map k))" and "room wire_codec w s 0"
    and "st_sstables s = [t_new, t_old]" and "represents wire_codec w t_new (st_data sample_store)"
    and "represents wire_codec w t_old sample_entries"
proof -
  obtain s w where s: "two_tables = (s, w)" "quiet w" "st_data s = []" "next_sstable_id s = 3"
      "engine wire_codec w s [2, 1] [st_data sample_store, sample_entries] []"
    by (rule two_tables_engine)
  then have "list_all2 (represents wire_codec w) (st_sstables s) [st_data sample_store, sample_entries]"
    by (simp add: engine_def)
  then obtain t_new t_old where t: "st_sstables s = [t_new, t_old]" "represents wire_codec w t_new (st_data sample_store)"
      "represents wire_codec w t_old sample_entries"
    by (auto simp: list_all2_Cons2)
  have m: "models wire_codec w s (\<lambda>k. map_option Bytes (sample_map k))"
  proof -
    have "view [] [st_data sample_store, sample_entries] = view (st_data sample_store) [sample_entries]"
      by (simp add: view_def fun_eq_iff)
    then show ?thesis using modelsI [OF s(5)] s(3) by (simp add: sample_view)
  qed
  have "length (block_bytes wire_codec (st_data sample_store)) = 22"
    by (simp add: sample_store_def length_record_bytes value_bytes_def wire_codec_def wire_enc_value_def)
  then have "length (sst_image wire_codec (st_data sample_store)) \<le> 188"
    using length_sst_image_le [of "st_data sample_store" wire_codec] by simp (simp add: sample_store_def)
  moreover have "length (sst_image wire_codec sample_entries) \<le> 236"
    using length_sst_image_le [of sample_entries wire_codec] by (simp add: sample_bytes) (simp add: sample_entries_def)
  ultimately have "stored_bytes wire_codec w s \<le> 424"
    using t s(3) by (simp add: stored_bytes_def contents_def represents_def)
  moreover have "contents w (wal_path (st_wal s)) = []" using s(5) by (auto simp: engine_def wal_holds_def)
  ultimately have "room wire_codec w s 0" using s(4) by (simp add: room_def)
  with s m t show thesis by (intro that)
qed

section \<open>An incomplete table file\<close>

definition partial_world :: world where
  "partial_world = bare_world\<lparr>w_dirs := [[''db''], [''db'', ''u'']], w_files := [([''db'', ''u'', sst_file_name 1], replicate 40 0)]\<rparr>"

lemma partial_file: "quiet partial_world" "file_of partial_world ([''db'', ''u''] @ [sst_file_name 1]) = Some (replicate 40 0)"
  "\<not> ends_as_table (replicate 40 0)"
proof -
  show "quiet partial_world" "file_of partial_world ([''db'', ''u''] @ [sst_file_name 1]) = Some (replicate 40 0)"
    by (simp_all add: partial_world_def bare_world_def quiet_def file_of_def)
  have "replicate 8 (0 :: u8) \<noteq> MAGIC @ to_be_bytes32 VERSION"
  proof
    assume "replicate 8 (0 :: u8) = MAGIC @ to_be_bytes32 VERSION"
    from arg_cong [OF this, of hd] show False by (simp add: MAGIC_def)
  qed
  then show "\<not> ends_as_table (replicate 40 0)" by (simp add: ends_as_table_def)
qed

section \<open>A disk that runs full\<close>

text \<open>The sample store with an open log, and a world whose one fault strikes at tick \<open>i\<close> after \<open>n\<close> bytes.\<close>

definition logging_store :: store where
  "logging_store = sample_store\<lparr>st_wal := \<lparr>wal_path = sample_wal_path, wal_file = Some sample_wal_path\<rparr>\<rparr>"

abbreviation full_world :: "nat \<Rightarrow> nat \<Rightarrow> world" where
  "full_world i n \<equiv> sample_world ((\<lambda>_. NoFault)(i := Fault ''No space left on device'' n))"

lemma logging_dir: "st_dir logging_store = sample_dir"
  by (simp add: logging_store_def sample_store_dir)

lemma logging_open: "wal_file (st_wal logging_store) = Some sample_wal_path"
  by (simp add: logging_store_def)

lemma logging_models: "models wire_codec (sample_world f) logging_store (\<lambda>k. map_option Bytes (sample_map k))"
proof -
  have E: "engine wire_codec (sample_world f) sample_store [1] [sample_entries] sample_log" by (rule sample_engine)
  have "st_wal sample_store = \<lparr>wal_path = sample_wal_path, wal_file = None\<rparr>" by (simp add: sample_store_def)
  with E have "engine wire_codec (sample_world f) logging_store [1] [sample_entries] sample_log"
    unfolding engine_def logging_store_def wal_holds_def by (simp add: sample_store_dir)
  from modelsI [OF this] show ?thesis using sample_view by (simp add: logging_store_def)
qed

lemma full_append: "append_fails ''No space left on device'' n (full_world 0 n)"
  by (simp add: append_fails_def sample_world_def)

lemma full_commit: "commit_fails ''No space left on device'' n (full_world 1 n)"
  by (simp add: commit_fails_def sample_world_def)

lemma logging_budget:
  "memtable_bytes (memtable_insert [4] (Value (Integer 6)) logging_store) < memtable_max_bytes logging_store"
  using sample_put_budget by (simp add: logging_store_def memtable_insert_wal)

lemma logging_cut:
  "8 + length (frames wire_codec (batch_log (st_sequence logging_store + 1) [([4], Some (Integer 6))]))
     < length (frame wire_codec (create_put_entry [3] (Bytes (replicate 200 0)) (st_sequence logging_store + 1)))"
  "length (frame wire_codec (create_put_entry [3] (Bytes (replicate 200 0)) (st_sequence logging_store + 1))) < 2 ^ 62"
  by (simp_all add: sample_cost_simps)

lemma logging_room:
  "room wire_codec (sample_world f) logging_store (batch_cost wire_codec logging_store [([3], Some (Integer 5)), ([4], Some (Integer 6))])"
proof -
  have "batch_cost wire_codec sample_store [([3], Some (Integer 5)), ([4], Some (Integer 6))] \<le> 1000"
    by (simp add: sample_cost_simps)
  from sample_room [OF this, of f] show ?thesis
    by (simp add: room_def stored_bytes_def batch_cost_def logging_store_def) (simp add: sample_store_def)
qed

section \<open>Empty worlds\<close>

lemma bare_empty: "empty_tree bare_world [''db'', ''u'']"
  using bare_world_simps by (auto simp: empty_tree_def)

lemma bare_ancestors: "\<forall>q \<in> set (ancestors [''db'', ''u'']). file_of bare_world q = None"
  by (simp add: bare_world_simps(3))

definition demo_world :: world where
  "demo_world = bare_world\<lparr>w_dirs := []\<rparr>"

lemma demo_world_ready: "demo_ready demo_world"
  by (simp add: demo_ready_def demo_world_def bare_world_def quiet_def fs_wf_def file_of_def)

section \<open>Lives\<close>

text \<open>A process on a new table whose second write meets a full disk.\<close>

definition full_later :: "nat \<Rightarrow> fault" where
  "full_later i = (if i = 11 then Fault ''No space left on device'' 5 else NoFault)"

definition life_dir :: path where
  "life_dir = [''db'', ''u'']"

definition life_store :: store where
  "life_store = fresh_store life_dir \<lparr>wal_path = life_dir @ [''wal.log''], wal_file = None\<rparr> (life_dir @ [''LOCK''])"

definition life_world :: world where
  "life_world = \<lparr>w_files = [(life_dir @ [''LOCK''], [])], w_dirs = [[''db''], life_dir], w_locks = [life_dir @ [''LOCK'']],
     w_faults = full_later, w_clock = 7\<rparr>"

lemma life_opens: "open_path wire_codec life_dir (boot full_later bare_world) = (Ok life_store, life_world)"
proof -
  have f: "full_later i = NoFault" if "i < 8" for i using that by (simp add: full_later_def)
  show ?thesis
    by (simp add: open_path_def life_dir_def boot_def bare_world_def bindA_def fs_create_dir_all_def fault_now_def ancestors_def
        file_of_def later_def make_dirs_def f upt_rec fs_open_def syscall_def dir_exists_def put_file_def fs_flock_def
        wal_with_path_def path_parent_def Let_def)
      (simp add: load_sstables_def fs_read_dir_def syscall_def f fault_now_def later_def fresh_store_def dir_exists_def
        dir_entries_def onW_def bindA_def fs_dir_entry_def returnA_def updS_def next_id_after_def sstable_id_from_path_def
        path_file_name_def strip_prefix_def replay_wal_def on_wal_def wal_read_for_recovery_def wal_read_file_def fs_exists_def
        onS_def file_of_def life_store_def life_world_def life_dir_def)
qed

lemma life_unstruck: "\<not> struck (boot full_later bare_world) life_world"
  by (simp add: struck_def life_world_def boot_def full_later_def bare_world_def)

abbreviation life_frames :: bytes where
  "life_frames \<equiv> frame wire_codec (create_put_entry [1] (Bytes [7]) 1) @ frame wire_codec (commit_entry 1)"

definition life_store1 :: store where
  "life_store1 = life_store\<lparr>st_data := [([1], Value (Bytes [7]))], memtable_bytes := 2, st_sequence := 1,
     st_wal := \<lparr>wal_path = life_dir @ [''wal.log''], wal_file = Some (life_dir @ [''wal.log''])\<rparr>\<rparr>"

definition life_world1 :: world where
  "life_world1 = life_world\<lparr>w_files := [(life_dir @ [''LOCK''], []), (life_dir @ [''wal.log''], life_frames)], w_clock := 11\<rparr>"

lemma life_set: "set_value wire_codec [1] (Bytes [7]) (life_store, life_world) = (Ok ''Inserted value'', (life_store1, life_world1))"
  by (simp add: set_value_def Let_def bindA_def updS_def on_wal_def wal_append_def wal_write_commit_def wal_writer_def onW_def
      life_store_def fresh_store_def life_world_def life_dir_def fs_open_def fs_write_all_def fs_sync_all_def syscall_def fault_now_def
      full_later_def file_of_def dir_exists_def put_file_def append_file_def later_def returnA_def)
    (simp add: maybe_flush_def memtable_insert_def entry_footprint_def DEFAULT_MEMTABLE_MAX_BYTES_def returnA_def life_store1_def life_world1_def
      life_store_def fresh_store_def life_world_def life_dir_def)

lemma life_room: "op_room wire_codec (life_store, life_world) (DoSet [1] (Bytes [7]))"
  "op_room wire_codec (life_store1, life_world1) (DoSet [2] (Bytes [8]))"
  by (simp_all add: room_def stored_bytes_def contents_def file_of_def sample_cost_simps life_store_def fresh_store_def life_world_def
      life_dir_def life_store1_def life_world1_def)

lemma life_acked:
  "acked_run wire_codec (life_store, life_world) [(DoSet [1] (Bytes [7]), Ok Quiet)] (life_store1, life_world1)"
proof (rule acked_cons [OF life_room(1) _ _ acked_nil])
  show "store_step wire_codec (life_store, life_world) (DoSet [1] (Bytes [7])) (Ok Quiet) (life_store1, life_world1)"
    using step_set [OF life_set] by simp
  show "candid (fst (life_store, life_world)) (DoSet [1] (Bytes [7])) \<or> \<not> struck (snd (life_store, life_world)) (snd (life_store1, life_world1))"
    by (simp add: life_store_def fresh_store_def MAX_SSTABLES_def)
qed

lemma life_budget: "below_budget life_store1 (DoSet [2] (Bytes [8]))"
  by (simp add: memtable_insert_def entry_footprint_def life_store1_def life_store_def fresh_store_def DEFAULT_MEMTABLE_MAX_BYTES_def)

abbreviation life_history :: "history list" where
  "life_history \<equiv> [([(DoSet [1] (Bytes [7]), Ok Quiet)], Some (DoSet [2] (Bytes [8]))), ([], None)]"

lemma life_history: "\<exists>w'. lives wire_codec life_dir bare_world life_history w'"
proof -
  obtain r s w where call: "set_value wire_codec [2] (Bytes [8]) (life_store1, life_world1) = (r, (s, w))" using prod_cases3 by blast
  obtain r' w' where "open_path wire_codec life_dir (boot (\<lambda>_. Fault ''No space left on device'' 0) w) = (r', w')" by fastforce
  from life_open [OF this] have "life wire_codec life_dir w ([], None) w'" .
  with life_call [OF life_opens life_unstruck life_acked life_room(2) life_budget step_set [OF call]]
  show ?thesis by (blast intro: lives.intros)
qed

lemma life_begins: "survives wire_codec bare_world life_dir (\<lambda>k. None)"
  using survivesI [OF fresh_on_disk [of bare_world life_dir wire_codec], of "\<lambda>k. None"]
  by (auto simp: life_dir_def bare_world_simps view_def fun_eq_iff log_data_def)

end
