(* ===== verification/Spec2Isabelle.thy ===== *)
theory Spec2Isabelle
  imports Ferrum_Scenes
begin

text \<open>
  FerrumDB, an embedded key-value store: a verification of the storage engine
  (\<open>src/ferrumdb-core/src\<close>) and of the public crate on top of it (\<open>src/ferrumdb/src\<close>).

  \<^bold>\<open>The program.\<close> A table is a directory. Writes go to a write-ahead log (\<open>wal.rs\<close>) closed by a
  commit marker and an fsync, then into a sorted memtable (\<open>store.rs\<close>). A full memtable is
  flushed to an immutable sorted file (\<open>sstable.rs\<close>) with a sparse index, a key range, a bloom
  filter and a checksum per block; more than eight such files are merged into one. Reads consult
  the memtable, then the files from the newest to the oldest. Opening a directory takes a lock,
  loads the files and replays the committed part of the log. The public crate wraps this in named
  tables and byte values (\<open>database.rs\<close>, \<open>table.rs\<close>, \<open>txn.rs\<close>, \<open>error.rs\<close>), and
  \<open>examples/demo.rs\<close> is a tour of it.

  \<^bold>\<open>The theories.\<close>
  \<^item> \<open>Ferrum_Prelude\<close>: machine types, \<open>AppError\<close> (\<open>errors.rs\<close>), outcomes (value, error or panic),
    state-passing actions, \<open>BTreeMap\<close> as a sorted association list and \<open>HashMap\<close> as an
    association list (both instances of the locale \<open>kv_map\<close>), decimal printing and parsing.
  \<^item> \<open>Ferrum_Bytes\<close>: big-endian words, the primitive readers and writers of \<open>sstable.rs\<close>, CRC32 and
    FNV-1a as instances of the locale \<open>fold_checksum\<close>, which shows that one changed byte changes
    the checksum.
  \<^item> \<open>Ferrum_Fs\<close>: paths, files, directories, locks, and a schedule of I/O faults.
  \<^item> \<open>Ferrum_Value\<close>: \<open>Value\<close>, \<open>Entry\<close>, the protobuf messages, and the codec of the prost crate as a
    parameter with the laws of the locale \<open>prost_codec\<close>.
  \<^item> \<open>Ferrum_Bloom\<close>, \<open>Ferrum_Cache\<close>, \<open>Ferrum_Search\<close>, \<open>Ferrum_Block\<close>: the bloom filter, the block cache
    (a refinement of an LRU list), binary search, and the records and blocks of a table file.
  \<^item> \<open>Ferrum_Sstable\<close> defines \<open>SsTable\<close>; \<open>Ferrum_Table\<close> gives the layout of its file and proves the
    writer, the reader, lookups and bulk reads against it.
  \<^item> \<open>Ferrum_Wal\<close>: framing, parsing, appending and recovery, with the locale \<open>commit_log\<close> of what
    a client of the log relies on; \<open>Ferrum_Loop\<close>: the parser as the \<open>while\<close> loop it is, which ends on
    every input.
  \<^item> \<open>Ferrum_Store\<close> defines \<open>Store\<close> and \<open>Transaction\<close>. \<open>Ferrum_Layers\<close> states what the store needs of
    its tables (locale \<open>table_layer\<close>) and proves its loops over tables; \<open>Ferrum_Recovery\<close> proves
    replay, loading and opening; \<open>Ferrum_Engine\<close> the write path and point reads; \<open>Ferrum_Flush\<close>
    flush and compaction; \<open>Ferrum_Ops\<close> writes, scans and transactions.
  \<^item> \<open>Ferrum_Keeps\<close>: invariants that hold whatever fails, with the locale \<open>store_invariant\<close>, which
    gives an invariant of every operation of the store from the steps it is made of;
    \<open>Ferrum_Frame\<close> and \<open>Ferrum_Typing\<close> interpret it. \<open>Ferrum_Frame\<close> shows what every operation
    leaves alone, under every schedule of faults: it writes below its directory only, and an open
    takes one lock and gives it back when it fails.
    \<open>Ferrum_Crash\<close> says what is recovered after a batch that stays in the memtable,
    \<open>Ferrum_Faults\<close> what is recovered after a write of any size, with the flush and the compaction
    it triggers, \<open>Ferrum_Retry\<close> that an open that fails leaves the files as they were,
    \<open>Ferrum_Torn\<close> what becomes of the writes that follow one that failed half-way, and
    \<open>Ferrum_Anomalies\<close> gives the schedules after which data is lost, resurrected or unreachable,
    and the damaged files that a table cannot be opened with or that stop the process.
  \<^item> \<open>Ferrum_Machine\<close>: the engine as a step relation, one step per call, simulated by a machine whose
    state is a map; runs of one table leave other tables alone and keep the lock.
    \<open>Ferrum_Honest\<close>: what a call does depends on the schedule at its own ticks only, and a call
    that swallows no error reports one when a fault strikes in it. \<open>Ferrum_Life\<close> composes processes that
    are stopped by faults of their own, one after the other, and shows what the last one leaves.
    \<open>Ferrum_Typing\<close>: the type of a store, kept by every call whatever fails. \<open>Ferrum_Capacity\<close>
    bounds what a call adds to the files by the lengths of its arguments (locale \<open>compact_codec\<close>), so
    that a session on a new table needs no assumption about the files it meets on the way.
  \<^item> \<open>Ferrum_Api\<close> defines the public crate; \<open>Ferrum_Client\<close> proves table handles and name checks,
    \<open>Ferrum_Database\<close> the database as a map of maps, with open and closed tables,
    \<open>Ferrum_Isolation\<close> that calls on one table leave the others as they were, whatever fails.
    \<open>Ferrum_Session\<close> composes calls on a handle and on a database, and \<open>Ferrum_Demo\<close> is the
    example program.
  \<^item> \<open>Ferrum_Sample\<close> and \<open>Ferrum_Scenes\<close>: concrete stores, worlds and a database at which the
    theorems are applied.
  \<^item> This theory: the properties.

  \<^bold>\<open>State and specification.\<close> A Rust function that mutates is an action: it returns an outcome
  together with the state as it left it, on its error paths too. The invariant \<open>engine\<close> relates a
  \<open>Store\<close> in memory to the files of its directory; \<open>models P w s m\<close> hides its parameters and says
  that the store represents the map \<open>m\<close> from keys to values. The theorems about operations are
  refinements: reads return \<open>m key\<close>, writes lead to a store that models the updated map.
  \<open>recovers P w d m\<close> says that a process that starts on the files of \<open>w\<close> opens \<open>d\<close> to a store that
  models \<open>m\<close>. \<open>survives P w d m\<close> says the same of the files themselves. \<open>map_step\<close> and \<open>map_run\<close> are
  the abstract machine that every sequence of calls refines, \<open>map_lives\<close> extends it to processes
  that are cut off. \<open>db_holds P w db T\<close> relates a \<open>Database\<close> and the files below its root to a map \<open>T\<close>
  from names to tables. Rust's \<open>Value\<close> is the type \<open>db_value\<close>.

  \<^bold>\<open>Faults.\<close> Every system call consumes a tick of a clock, and the world's schedule says whether the
  call at that tick fails and, for a write, how many bytes were written. \<open>quiet w\<close> says that no
  fault is still to come, \<open>struck w w'\<close> that one struck between two worlds of a run. Theorems without
  \<open>quiet\<close> hold for every schedule; a process that stops is the schedule in which every later call fails
  without effect (\<open>stops_at\<close>). A power failure that loses the end of what was written to the log since its last
  fsync leaves the file of a write that stopped at that byte, which the schedules contain; lost
  directory entries, and blocks of a file lost out of order, are not modelled.

  \<^bold>\<open>Bounds.\<close> A table file stores lengths in 32 bits: the theorems about a table assume that its file
  is shorter than four gigabytes (\<open>table_fits\<close>), those about a store that everything on record
  stays below a gigabyte, so that a merge fits one file, that the log is shorter than \<open>2 ^ 62\<close>
  bytes, and that table ids do not reach \<open>2 ^ 64\<close> (\<open>room\<close>). \<open>sized P w s m b l n\<close> carries these
  sizes through a sequence of calls, and \<open>capacity\<close> is the same bound on them. \<open>op_load\<close> bounds what
  a call adds to them by its arguments alone: it counts 20 for each byte of a key and a value and at
  most 600 more for a write, and a table that starts empty has room for calls whose load stays below \<open>2 ^ 29\<close>, which is
  some 25 megabytes of keys and values. A scan whose bounds are inverted panics as soon as the
  memtable holds an entry; the theorems on sequences of calls leave such scans out (\<open>op_room\<close>,
  \<open>inverted_scan\<close>). Counters wrap as in a release build.
  All loops are total functions; none needs fuel.

  \<^bold>\<open>Not modelled.\<close> File names that are not UTF-8: a component of a path is a string, so that
  \<open>to_str\<close> always gives a name, where \<open>list_tables\<close> skips a directory whose name it cannot give, and
  \<open>to_string_lossy\<close> changes nothing, where \<open>open_store\<close> would open another directory than the one named when the
  root is not UTF-8. The protobuf wire format and the code prost generates (a parameter), the
  unspecified order of \<open>HashMap\<close> iteration (never used), file permissions, timing, the text that
  \<open>eprintln\<close> writes, how \<open>println\<close> renders the value it prints (the value is modelled, \<open>show\<close> in
  \<open>demo.rs\<close> is not), tests and benchmarks. Dropping a \<open>Database\<close>, which Rust generates, is
  \<open>drop_database\<close>: every open table releases its lock.
\<close>

section \<open>The store\<close>

text \<open>C1: reading a key returns what the map of the store says: the newest of memtable and
  tables wins, and a tombstone reads as absent. The read changes nothing but the block caches of
  the tables: memtable, budget, log, sequence number, table list and files are as before, only the
  clock of the world went on.\<close>

theorem get_value_returns:
  assumes "prost_codec P" and "quiet w" and "models P w s m"
  shows "\<exists>ts n. get_value P key (s, w) = (Ok (m key), (s\<lparr>st_sstables := ts\<rparr>, later n w))
    \<and> quiet (later n w) \<and> models P (later n w) (s\<lparr>st_sstables := ts\<rparr>) m
    \<and> map (\<lambda>t. t\<lparr>sst_cache := c\<rparr>) ts = map (\<lambda>t. t\<lparr>sst_cache := c\<rparr>) (st_sstables s)"
  using prost_codec.get_value_still [OF assms, of key c] assms(2) by auto

theorem get_value_returns_witness:
  "\<exists>s' w'. get_value wire_codec [5] (sample_store, calm_world) = (Ok (Some (Bytes [9])), (s', w'))"
  using get_value_returns [OF wire.prost_codec_axioms calm_quiet sample_models, of "[5]"]
  by (auto simp: sample_map_def) blast

text \<open>C2: writing a key updates the map at that key and nowhere else, also when the write
  fills the memtable and triggers a flush and a compaction.\<close>

theorem set_value_updates:
  assumes "prost_codec P" and "quiet w" and "models P w s m"
    and "room P w s (batch_cost P s [(k, Some v)])"
  shows "\<exists>s' w'. set_value P k v (s, w) = (Ok ''Inserted value'', (s', w')) \<and> quiet w'
    \<and> models P w' s' (m(k \<mapsto> v))"
  using prost_codec.set_value_models [OF assms] .

theorem set_value_updates_witness:
  "\<exists>s' w'. set_value wire_codec [4] (Integer 6) (sample_store, calm_world) = (Ok ''Inserted value'', (s', w'))
     \<and> models wire_codec w' s' ((\<lambda>k. map_option Bytes (sample_map k))([4] \<mapsto> Integer 6))"
  using set_value_updates [OF wire.prost_codec_axioms calm_quiet sample_models, of "[4]" "Integer 6"]
    sample_room [OF sample_put_cost] by auto

text \<open>C3: deleting a key removes it from the map, whether the key lives in the memtable, in a
  table, in both, or nowhere.\<close>

theorem delete_value_updates:
  assumes "prost_codec P" and "quiet w" and "models P w s m"
    and "room P w s (batch_cost P s [(k, None)])"
  shows "\<exists>s' w'. delete_value P k (s, w) = (Ok ''Deleted value'', (s', w')) \<and> quiet w'
    \<and> models P w' s' (m(k := None))"
  using prost_codec.delete_value_models [OF assms] .

theorem delete_value_updates_witness:
  "\<exists>s' w'. delete_value wire_codec [1] (sample_store, calm_world) = (Ok ''Deleted value'', (s', w'))
     \<and> models wire_codec w' s' ((\<lambda>k. map_option Bytes (sample_map k))([1] := None))"
  using delete_value_updates [OF wire.prost_codec_axioms calm_quiet sample_models, of "[1]"]
    sample_room [OF sample_delete_cost] by auto

text \<open>C4: a write that stays within the memtable budget is atomic and durable under every
  schedule of I/O faults. Whatever fails, and wherever the process stops, reopening the
  directory gives the map with the write or the map without it; and if the call returned
  success, it gives the map with the write.\<close>

theorem set_value_crash_atomic:
  assumes "prost_codec P" and "models P w s m" and "room P w s (batch_cost P s [(k, Some v)])"
    and "memtable_bytes (memtable_insert k (Value v) s) < memtable_max_bytes s"
    and "set_value P k v (s, w) = (r, (s', w'))"
  shows "recovers P w' (st_dir s) (m(k \<mapsto> v)) \<or> recovers P w' (st_dir s) m \<and> (\<exists>e. r = Err e)"
  using prost_codec.set_value_survives [OF assms] prost_codec.survives_recovers [OF assms(1)] by blast

theorem set_value_crash_atomic_witness:
  "\<exists>r s' w'. set_value wire_codec [4] (Integer 6) (sample_store, torn_world) = (r, (s', w'))
     \<and> (recovers wire_codec w' sample_dir ((\<lambda>k. map_option Bytes (sample_map k))([4] \<mapsto> Integer 6))
        \<or> recovers wire_codec w' sample_dir (\<lambda>k. map_option Bytes (sample_map k)) \<and> (\<exists>e. r = Err e))"
proof -
  obtain r s' w' where run: "set_value wire_codec [4] (Integer 6) (sample_store, torn_world) = (r, (s', w'))"
    using prod_cases3 by blast
  from set_value_crash_atomic [OF wire.prost_codec_axioms sample_models sample_room [OF sample_put_cost]
      sample_put_budget run]
  show ?thesis using run by (auto simp: sample_store_dir)
qed

text \<open>A transaction whose writes stay within the memtable budget is atomic under every
  schedule of I/O faults: after reopening, all of its writes are there or none is.\<close>

theorem commit_crash_atomic:
  assumes "prost_codec P" and "models P w (tx_store t) m" and "bt_sorted (tx_pending t)"
    and "room P w (tx_store t) (batch_cost P (tx_store t) (tx_pending t))"
    and "memtable_bytes (fold pending_apply (tx_pending t) (tx_store t)) < memtable_max_bytes (tx_store t)"
    and "tx_commit P t w = (r, (s', w'))"
  shows "recovers P w' (st_dir (tx_store t)) (apply_batch (tx_pending t) m)
    \<or> recovers P w' (st_dir (tx_store t)) m \<and> (\<exists>e. r = Err e)"
  using prost_codec.tx_commit_survives [OF assms] prost_codec.survives_recovers [OF assms(1)] by blast

theorem commit_crash_atomic_witness:
  "\<exists>r s' w'. tx_commit wire_codec sample_tx torn_world = (r, (s', w'))
     \<and> (recovers wire_codec w' sample_dir (apply_batch (tx_pending sample_tx) (\<lambda>k. map_option Bytes (sample_map k)))
        \<or> recovers wire_codec w' sample_dir (\<lambda>k. map_option Bytes (sample_map k)) \<and> (\<exists>e. r = Err e))"
proof -
  obtain r s' w' where run: "tx_commit wire_codec sample_tx torn_world = (r, (s', w'))"
    using prod_cases3 by blast
  have "models wire_codec torn_world (tx_store sample_tx) (\<lambda>k. map_option Bytes (sample_map k))"
    by (simp add: sample_tx_store sample_models)
  from commit_crash_atomic [OF wire.prost_codec_axioms this sample_tx_sorted sample_tx_room sample_tx_budget run]
  show ?thesis using run by (auto simp: sample_tx_store sample_store_dir)
qed

text \<open>C5: committing a transaction applies its operations in the order they were made, as if
  each had been a single write.\<close>

theorem commit_applies_operations:
  assumes "prost_codec P" and "quiet w" and "models P w s m"
    and "room P w s (batch_cost P s (tx_pending (fold tx_step ops (begin_transaction s))))"
  shows "\<exists>s' w'. tx_commit P (fold tx_step ops (begin_transaction s)) w = (Ok (), (s', w')) \<and> quiet w'
    \<and> models P w' s' (fold op_effect ops m)"
  using prost_codec.tx_commit_models [OF assms(1,2), of "fold tx_step ops (begin_transaction s)" m] assms(3,4)
  by (simp add: tx_steps tx_steps_batch)

theorem commit_applies_operations_witness:
  "\<exists>s' w'. tx_commit wire_codec (fold tx_step sample_ops (begin_transaction sample_store)) calm_world = (Ok (), (s', w'))
     \<and> models wire_codec w' s' (fold op_effect sample_ops (\<lambda>k. map_option Bytes (sample_map k)))"
  using commit_applies_operations [OF wire.prost_codec_axioms calm_quiet sample_models, of sample_ops]
    sample_tx_room [of "\<lambda>_. NoFault"] by (auto simp: sample_tx_def tx_steps)

text \<open>C6: a read inside a transaction sees the transaction's own operations on top of the
  committed map, and leaves both as they are.\<close>

theorem transaction_reads_own_writes:
  assumes "prost_codec P" and "quiet w" and "models P w s m"
  shows "\<exists>t' w'. tx_get_value P key (fold tx_step ops (begin_transaction s), w)
      = (Ok (fold op_effect ops m key), (t', w')) \<and> quiet w' \<and> models P w' (tx_store t') m
    \<and> tx_pending t' = tx_pending (fold tx_step ops (begin_transaction s))"
  using prost_codec.tx_get_value_models [OF assms(1,2), of "fold tx_step ops (begin_transaction s)" m key] assms(3)
  by (simp add: tx_steps tx_steps_batch)

theorem transaction_reads_own_writes_witness:
  "\<exists>t' w'. tx_get_value wire_codec [1] (fold tx_step sample_ops (begin_transaction sample_store), calm_world)
     = (Ok (Some (Integer 6)), (t', w'))"
  using transaction_reads_own_writes [OF wire.prost_codec_axioms calm_quiet sample_models, of "[1]" sample_ops]
  by (auto simp: sample_ops_def)

text \<open>C7: reopening. After any history, and whatever faults the world still holds, a store
  that represents a map leaves files from which a new process recovers that map.\<close>

theorem restart_recovers:
  assumes "prost_codec P" and "models P w s m"
  shows "recovers P w (st_dir s) m"
  using prost_codec.models_recovers [OF assms] .

theorem restart_recovers_witness:
  "recovers wire_codec torn_world sample_dir (\<lambda>k. map_option Bytes (sample_map k))"
  using restart_recovers [OF wire.prost_codec_axioms sample_models] by (simp add: sample_store_dir)

text \<open>C8: flush of a store whose memtable is not empty moves the memtable into a new table, empties it
  and the log, and leaves the map as it was. With less than \<open>MAX_SSTABLES\<close> tables before, the new table is
  put in front of the others, which stay; otherwise it leads to a compaction, after which there is
  at most one table. When the memtable is empty, flush does nothing.\<close>

theorem flush_preserves_map:
  assumes "prost_codec P" and "quiet w" and "models P w s m" and "room P w s 0"
  shows "\<exists>s' w'. flush P (s, w) = (Ok (), (s', w')) \<and> quiet w' \<and> models P w' s' m \<and> st_data s' = []
    \<and> (if st_data s = [] then s' = s \<and> w' = w
       else contents w' (wal_path (st_wal s')) = []
         \<and> (if length (st_sstables s) < MAX_SSTABLES
             then \<exists>t. st_sstables s' = t # st_sstables s \<and> represents P w' t (st_data s)
             else length (st_sstables s') \<le> 1))"
  using prost_codec.flush_models [OF assms] .

theorem flush_preserves_map_witness:
  "\<exists>s' w'. flush wire_codec (sample_store, calm_world) = (Ok (), (s', w'))
     \<and> models wire_codec w' s' (\<lambda>k. map_option Bytes (sample_map k)) \<and> st_data s' = []"
  using flush_preserves_map [OF wire.prost_codec_axioms calm_quiet sample_models sample_room [of 0]] by blast

text \<open>Compaction leaves at most one table and the map as it was: dropping tombstones in a
  full merge brings no deleted key back.\<close>

theorem compact_preserves_map:
  assumes "prost_codec P" and "quiet w" and "models P w s m" and "room P w s 0"
  shows "\<exists>s' w'. compact P (s, w) = (Ok (), (s', w')) \<and> quiet w' \<and> models P w' s' m
    \<and> st_data s' = st_data s \<and> length (st_sstables s') \<le> 1"
  using prost_codec.compact_models [OF assms] .

theorem compact_preserves_map_witness:
  "\<exists>s' w'. compact wire_codec (sample_store, calm_world) = (Ok (), (s', w'))
     \<and> models wire_codec w' s' (\<lambda>k. map_option Bytes (sample_map k))"
  using compact_preserves_map [OF wire.prost_codec_axioms calm_quiet sample_models sample_room [of 0]] by auto

text \<open>C9: a range scan. Unless its bounds are inverted and the memtable holds an entry, it returns, in
  ascending key order, exactly the live keys of the map within the bounds with their values,
  although tables out of range are skipped unread. With inverted bounds and an entry in the
  memtable it panics instead of returning no pairs. Either way the store is as before.\<close>

theorem scan_range_exact:
  assumes "prost_codec P" and "quiet w" and "models P w s m"
  shows "if st_data s \<noteq> [] \<and> range_panics lo hi then \<exists>w'. scan_range P lo hi (s, w) = (Panic, (s, w'))
    else \<exists>ps w'. scan_range P lo hi (s, w) = (Ok ps, (s, w')) \<and> quiet w' \<and> models P w' s m \<and> bt_sorted ps
      \<and> (\<forall>k. map_of ps k = (if in_bounds k lo hi then m k else None))"
proof (cases "st_data s \<noteq> [] \<and> range_panics lo hi")
  case True
  obtain r s' w' where run: "scan_range P lo hi (s, w) = (r, (s', w'))" using prod_cases3 by blast
  obtain ids ess log where "engine P w s ids ess log" using assms(3) by (rule modelsE)
  with prost_codec.scan_range_panics [OF assms(1,2)] True run have "r = Panic" by fastforce
  with prost_codec.scan_range_any(1) [OF assms(1,3) run] run True show ?thesis by auto
next
  case False
  then have "st_data s = [] \<or> \<not> range_panics lo hi" by blast
  from prost_codec.scan_range_models [OF assms this] show ?thesis unfolding if_not_P [OF False] .
qed

theorem scan_range_exact_witness:
  "\<exists>ps w'. scan_range wire_codec (Included [1]) (Excluded [5]) (sample_store, calm_world) = (Ok ps, (sample_store, w'))
     \<and> map_of ps [1] = Some (Bytes [7]) \<and> map_of ps [5] = None"
proof -
  have no: "\<not> (st_data sample_store \<noteq> [] \<and> range_panics (Included [1]) (Excluded [5]))" by (simp add: range_panics_def)
  obtain ps w' where
    run: "scan_range wire_codec (Included [1]) (Excluded [5]) (sample_store, calm_world) = (Ok ps, (sample_store, w'))"
    and ps: "\<forall>k. map_of ps k = (if in_bounds k (Included [1]) (Excluded [5]) then map_option Bytes (sample_map k) else None)"
    using scan_range_exact [OF wire.prost_codec_axioms calm_quiet sample_models, of "Included [1]" "Excluded [5]", unfolded if_not_P [OF no]]
    by blast
  have "map_of ps [1] = Some (Bytes [7])" "map_of ps [5] = None"
    using ps by (simp_all add: in_bounds_def sample_map_def)
  with run show ?thesis by blast
qed
section \<open>Sequences of calls\<close>

text \<open>C10: every sequence of calls of the engine, in any order and with transactions, flushes,
  compactions and reopenings among them, each made within its \<open>op_room\<close> (what is stored fits into one table
  file, ids are left, and a scan does not have inverted bounds while the memtable holds an entry), is a run
  of the abstract map machine with the same answers: none fails or panics. After such a sequence every
  operation within its \<open>op_room\<close> returns the answer of the map machine, and the store then represents
  the map of the machine.\<close>

theorem store_run_refines:
  assumes "prost_codec P" and "quiet w" and "models P w s m" and "bounded_run P (s, w) tr (s', w')"
  shows "\<exists>m'. map_run m tr m' \<and> quiet w' \<and> models P w' s' m'
    \<and> (\<forall>op. op_room P (s', w') op \<longrightarrow> (\<exists>x s'' w'' m''. store_step P (s', w') op (Ok x) (s'', w'')
         \<and> map_step m' op x m'' \<and> quiet w'' \<and> models P w'' s'' m''))"
proof -
  obtain m' where m': "map_run m tr m'" "quiet w'" "models P w' s' m'"
    using prost_codec.run_simulation [OF assms(1,4,2,3)] by blast
  have "\<exists>x s'' w'' m''. store_step P (s', w') op (Ok x) (s'', w'') \<and> map_step m' op x m'' \<and> quiet w'' \<and> models P w'' s'' m''"
    if room: "op_room P (s', w') op" for op
  proof -
    obtain a s'' w'' where st: "store_step P (s', w') op a (s'', w'')"
      using prost_codec.step_exists [OF assms(1) m'(2,3), of op] by (metis surj_pair)
    from prost_codec.step_simulation [OF assms(1) st room m'(2,3)] st show ?thesis by blast
  qed
  with m' show ?thesis by blast
qed

theorem store_run_refines_witness:
  "\<exists>a b sw'. bounded_run wire_codec (sample_store, calm_world) [(DoSet [4] (Integer 6), a), (DoGet [4], b)] sw'
     \<and> a = Ok Quiet \<and> b = Ok (Got (Some (Integer 6)))"
proof -
  obtain r s1 w1 where set: "set_value wire_codec [4] (Integer 6) (sample_store, calm_world) = (r, (s1, w1))"
    using prod_cases3 by blast
  obtain r2 s2 w2 where get: "get_value wire_codec [4] (s1, w1) = (r2, (s2, w2))" using prod_cases3 by blast
  have run: "bounded_run wire_codec (sample_store, calm_world)
      [(DoSet [4] (Integer 6), answer_of (\<lambda>_. Quiet) r), (DoGet [4], answer_of Got r2)] (s2, w2)"
    by (rule bounded_cons [OF _ step_set [OF set] bounded_cons [OF _ step_get [OF get] bounded_nil]])
      (simp_all add: sample_room [OF sample_put_cost])
  from store_run_refines [OF wire.prost_codec_axioms calm_quiet sample_models run]
  obtain a b m1 m2 where "answer_of (\<lambda>_. Quiet) r = Ok a" "answer_of Got r2 = Ok b"
    "map_step (\<lambda>k. map_option Bytes (sample_map k)) (DoSet [4] (Integer 6)) a m1" "map_step m1 (DoGet [4]) b m2"
    by (auto elim!: map_run.cases)
  moreover from this(3,4) have "a = Quiet \<and> b = Got (Some (Integer 6))"
    by (auto elim!: map_step.cases)
  ultimately have "bounded_run wire_codec (sample_store, calm_world)
      [(DoSet [4] (Integer 6), Ok Quiet), (DoGet [4], Ok (Got (Some (Integer 6))))] (s2, w2)"
    using run by (simp del: bounded_run_simps)
  then show ?thesis by blast
qed

text \<open>C11: a session on a new table, without faults. In a directory that does not exist yet, opening succeeds, and every
  sequence of calls without inverted scans whose load stays below \<open>2 ^ 29\<close> can be carried out, call by call,
  where the load of a write counts 20 for each byte of its key and its value and at most 600 more (some 25
  megabytes of keys and values in all, each write counting 30 bytes more than its own). Whatever the engine answers along such a sequence
  is what the map machine answers that starts empty: flushes, compactions, transactions and reopenings
  included, and no assumption about what is on disk on the way.\<close>

theorem fresh_table_session:
  assumes "compact_codec P" and "quiet w" and "fs_wf w" and "empty_tree w d" and "\<forall>q \<in> set (ancestors d). file_of w q = None"
    and "\<forall>op \<in> set ops. \<not> inverted_scan op" and "sum_list (map op_load ops) < 2 ^ 29" and "length ops < 2 ^ 62"
  shows "\<exists>s w1. open_path P d w = (Ok s, w1) \<and> (\<exists>tr sw'. map fst tr = ops \<and> store_run P (s, w1) tr sw')
    \<and> (\<forall>tr s' w'. map fst tr = ops \<and> store_run P (s, w1) tr (s', w')
         \<longrightarrow> (\<exists>m. map_run (\<lambda>k. None) tr m \<and> quiet w' \<and> models P w' s' m))"
  using compact_codec.new_table_session [OF assms] .

theorem fresh_table_session_witness:
  "\<exists>tr sw'. map fst tr = [DoSet [1] (Boolean True), DoFlush, DoDelete [1], DoReopen, DoGet [1]]
     \<and> (\<exists>sw. store_run wire_codec sw tr sw') \<and> (\<exists>m. map_run (\<lambda>k. None) tr m)"
proof -
  let ?ops = "[DoSet [1] (Boolean True), DoFlush, DoDelete [1], DoReopen, DoGet [1]]"
  have "\<forall>op \<in> set ?ops. \<not> inverted_scan op" "sum_list (map op_load ?ops) < 2 ^ 29" "length ?ops < 2 ^ 62"
    by (simp_all add: write_load_def)
  from fresh_table_session [OF compact.compact_codec_axioms bare_world_simps(1,2) bare_empty bare_ancestors this]
  show ?thesis by (metis surj_pair)
qed

text \<open>C12: acknowledged calls survive, and a call that was cut off happened as a whole or not at all,
  over any number of processes. Processes use a table one after the other, each under a schedule of faults of
  its own: it opens the directory, makes calls of any kind as long as they are acknowledged (failed reads may
  come in between), and ends, on its own accord or in the middle of a write to the log or of a read. After the last of them, the table
  holds what the map machine holds after all acknowledged calls, in order, each cut-off call with its effect or
  without. Excepted are what other properties show to go wrong: opening, compacting and reopening while a fault
  strikes that they do not report, and ending in the middle of a flush.\<close>

theorem lives_recover:
  assumes "prost_codec P" and "survives P w d m" and "lives P d w hs w'"
  shows "\<exists>m'. map_lives m hs m' \<and> recovers P w' d m'"
  using prost_codec.lives_safe [OF assms(1,3,2)] prost_codec.survives_recovers [OF assms(1)] by blast

theorem lives_recover_witness:
  "\<exists>w' m'. lives wire_codec life_dir bare_world life_history w' \<and> map_lives (\<lambda>k. None) life_history m'
     \<and> recovers wire_codec w' life_dir m'"
  using life_history lives_recover [OF wire.prost_codec_axioms life_begins] by blast

text \<open>C13: a read under faults. Whatever fails while a key is looked up or a range is scanned, the store
  represents the same map as before, and the answer is right, or it is an error, and then a fault struck during
  the call. The call panics only when a range with inverted bounds is scanned while the
  memtable holds an entry.\<close>

theorem read_right_or_fails:
  assumes "prost_codec P" and "models P w s m" and "store_step P (s, w) op a (s', w')" and "is_read op"
  shows "models P w' s' m
    \<and> (case a of Ok x \<Rightarrow> map_step m op x m
       | Err e \<Rightarrow> struck w w'
       | Panic \<Rightarrow> (\<exists>lo hi. op = DoScan lo hi \<and> range_panics lo hi \<and> st_data s \<noteq> []))"
  using prost_codec.read_any [OF assms(1,3,4,2)] assms(4) by (cases op; cases a) simp_all

theorem read_right_or_fails_witness:
  "\<exists>a s' w'. store_step wire_codec (sample_store, torn_world) (DoGet [1]) a (s', w')
     \<and> models wire_codec w' s' (\<lambda>k. map_option Bytes (sample_map k))
     \<and> (a = Ok (Got (Some (Bytes [7]))) \<or> (\<exists>e. a = Err e) \<and> struck torn_world w')"
proof -
  obtain r s' w' where "get_value wire_codec [1] (sample_store, torn_world) = (r, (s', w'))" using prod_cases3 by blast
  from step_get [OF this] have run: "store_step wire_codec (sample_store, torn_world) (DoGet [1]) (answer_of Got r) (s', w')" .
  have answer: "x = Got (Some (Bytes [7]))"
    if "map_step (\<lambda>k. map_option Bytes (sample_map k)) (DoGet [1]) x (\<lambda>k. map_option Bytes (sample_map k))" for x
    using that by cases (simp add: sample_map_def)
  from read_right_or_fails [OF wire.prost_codec_axioms sample_models run]
  have M: "models wire_codec w' s' (\<lambda>k. map_option Bytes (sample_map k))"
    and A: "answer_of Got r = Ok (Got (Some (Bytes [7]))) \<or> (\<exists>e. answer_of Got r = Err e) \<and> struck torn_world w'"
    using answer by (cases r; simp)+
  from run M A show ?thesis by (intro exI conjI)
qed

text \<open>C14: the type of a store. However a store came about, by an open of any files, damaged ones
  included, and by any calls under any schedule of faults, its memtable is strictly sorted, its byte count is the sum
  of the footprints of the entries, every table's block cache is consistent and holds at most 32
  blocks, and every path it keeps is below its directory.\<close>

theorem store_type_kept:
  assumes "open_path P d w = (Ok s, w1)" and "store_run P (s, w1) tr (s', w')"
  shows "typed s' \<and> tidy d s'"
  using open_run_typed [OF assms] .

theorem store_type_kept_witness:
  "\<exists>s w1 r s' w'. open_path wire_codec sample_dir (left_world (\<lambda>_. NoFault)) = (Ok s, w1)
     \<and> set_value wire_codec [4] (Boolean True) (s, w1) = (r, (s', w')) \<and> typed s'"
proof -
  obtain s w1 where o1: "open_path wire_codec sample_dir (left_world (\<lambda>_. NoFault)) = (Ok s, w1)"
    by (rule left_opens)
  obtain r s' w' where set: "set_value wire_codec [4] (Boolean True) (s, w1) = (r, (s', w'))" using prod_cases3 by blast
  from store_type_kept [OF o1 run_cons [OF step_set [OF set] run_nil]] show ?thesis using o1 set by blast
qed

text \<open>Tables do not disturb each other. Whatever calls are made on one table, and whatever
  fails in them, a table in another directory represents the same map as before.\<close>

theorem tables_isolated:
  assumes "models P w s m" and "models P w t n" and "apart (st_dir t) (st_dir s)"
    and "store_run P (s, w) tr (s', w')"
  shows "models P w' t n"
  using run_isolates [OF assms(4), of "st_dir s"] models_tidy [OF assms(1)] models_isolates [OF assms(2) _ assms(3)]
  by simp

theorem tables_isolated_witness:
  "\<exists>s w r s' w'. st_dir s = [''db'', ''u''] \<and> set_value wire_codec [5] (Boolean True) (s, w) = (r, (s', w'))
     \<and> table_models wire_codec w' sample_store sample_map"
proof -
  obtain s w where u: "models wire_codec w s (\<lambda>k. None)" "st_dir s = [''db'', ''u'']" "table_models wire_codec w sample_store sample_map"
    by (rule second_table)
  obtain r s' w' where set: "set_value wire_codec [5] (Boolean True) (s, w) = (r, (s', w'))" using prod_cases3 by blast
  have "apart (st_dir sample_store) (st_dir s)" by (simp add: u(2) sample_store_dir sample_dir_def apart_def in_tree_def)
  from tables_isolated [OF u(1) u(3) [unfolded table_models_def] this run_cons [OF step_set [OF set] run_nil]]
  have "table_models wire_codec w' sample_store sample_map" by (simp add: table_models_def)
  then show ?thesis using u(2) set by blast
qed

text \<open>C15: a directory has one user. After a successful open, and whatever was called on the
  store and whatever failed since, opening the directory again is refused while the store lives.\<close>

theorem open_excludes:
  assumes "open_path P d w = (Ok s, w1)" and "store_run P (s, w1) tr (s', w')"
  shows "fst (open_path P d w') \<noteq> Ok s2"
  using second_open [OF assms] .

theorem open_excludes_witness:
  "\<exists>s w1 r s' w'. open_path wire_codec sample_dir (left_world (\<lambda>_. NoFault)) = (Ok s, w1)
     \<and> set_value wire_codec [4] (Boolean True) (s, w1) = (r, (s', w')) \<and> fst (open_path wire_codec sample_dir w') \<noteq> Ok s"
proof -
  obtain s w1 where o1: "open_path wire_codec sample_dir (left_world (\<lambda>_. NoFault)) = (Ok s, w1)"
    by (rule left_opens)
  obtain r s' w' where set: "set_value wire_codec [4] (Boolean True) (s, w1) = (r, (s', w'))" using prod_cases3 by blast
  from open_excludes [OF o1 run_cons [OF step_set [OF set] run_nil], of s] show ?thesis using o1 set by blast
qed

section \<open>Faults\<close>

text \<open>C16: a failed open can be retried. Whatever strikes while a directory is opened, the files
  keep what they hold and the lock is not left behind: the next attempt that meets no fault
  succeeds and gives the same map.\<close>

theorem open_can_be_retried:
  assumes "prost_codec P" and "survives P w d m" and "d @ [''LOCK''] \<notin> set (w_locks w)"
    and "open_path P d w = (r, w')" and "\<forall>s. r \<noteq> Ok s"
  shows "\<exists>s w''. open_path P d (calm w') = (Ok s, w'') \<and> quiet w'' \<and> models P w'' s m \<and> st_dir s = d"
  using prost_codec.open_retry [OF assms(1,4,5,2,3)] .

theorem open_can_be_retried_witness:
  "\<exists>r w' s w''. open_path wire_codec sample_dir (left_world (\<lambda>n. Fault ''Input/output error'' 1)) = (r, w')
     \<and> open_path wire_codec sample_dir (calm w') = (Ok s, w'')
     \<and> models wire_codec w'' s (\<lambda>k. map_option Bytes (sample_map k))"
proof -
  let ?w = "left_world (\<lambda>n. Fault ''Input/output error'' 1)"
  obtain r w' where run: "open_path wire_codec sample_dir ?w = (r, w')" by fastforce
  then have "\<forall>s. r \<noteq> Ok s"
    by (auto simp: open_path_def bindA_def fs_create_dir_all_def left_world_def sample_world_def fault_now_def)
  from open_can_be_retried [OF wire.prost_codec_axioms left_survives left_free run this] show ?thesis using run by blast
qed

text \<open>C17: a transaction of any size, also one that fills the memtable and triggers a flush and a
  compaction, under every schedule of faults. After a restart either nothing of it is there and it
  did not report success; or the directory opens with every key that has a value after the transaction at that value, and
  with nothing else when the transaction cannot have led to a compaction, because it stays within the memtable budget
  or finds less than \<open>MAX_SSTABLES\<close> tables (after a compaction, keys that were deleted, by the transaction too, may
  have come back); or it failed while a table file was being written, and the incomplete file is in the directory.\<close>

theorem commit_crash_any_size:
  assumes "prost_codec P" and "models P w (tx_store t) m" and "bt_sorted (tx_pending t)"
    and "room P w (tx_store t) (batch_cost P (tx_store t) (tx_pending t))" and "tx_commit P t w = (r, (s', w'))"
  shows "recovers P w' (st_dir (tx_store t)) m \<and> r \<noteq> Ok ()
    \<or> (\<exists>m'. recovers P w' (st_dir (tx_store t)) m' \<and> apply_batch (tx_pending t) m \<subseteq>\<^sub>m m'
         \<and> (length (st_sstables (tx_store t)) < MAX_SSTABLES
            \<or> memtable_bytes (fold pending_apply (tx_pending t) (tx_store t)) < memtable_max_bytes (tx_store t)
              \<longrightarrow> m' = apply_batch (tx_pending t) m))
    \<or> r \<noteq> Ok () \<and> (\<exists>i es. torn_table P w' (st_dir (tx_store t) @ [sst_file_name i]) es)"
proof (cases "memtable_bytes (fold pending_apply (tx_pending t) (tx_store t)) < memtable_max_bytes (tx_store t)")
  case True
  from prost_codec.tx_commit_survives [OF assms(1-4) True assms(5)]
  have "recovers P w' (st_dir (tx_store t)) (apply_batch (tx_pending t) m)
      \<or> recovers P w' (st_dir (tx_store t)) m \<and> (\<exists>e. r = Err e)"
    using prost_codec.survives_recovers [OF assms(1)] by blast
  then show ?thesis by auto
next
  case False
  with prost_codec.tx_commit_any [OF assms] show ?thesis by blast
qed

theorem commit_crash_any_size_witness:
  "\<exists>r s' w'. tx_commit wire_codec (small_budget_tx) torn_world = (r, (s', w'))
     \<and> (recovers wire_codec w' sample_dir (\<lambda>k. map_option Bytes (sample_map k)) \<and> r \<noteq> Ok ()
        \<or> recovers wire_codec w' sample_dir (apply_batch (tx_pending sample_tx) (\<lambda>k. map_option Bytes (sample_map k)))
        \<or> r \<noteq> Ok () \<and> (\<exists>i es. torn_table wire_codec w' (sample_dir @ [sst_file_name i]) es))"
proof -
  obtain r s' w' where run: "tx_commit wire_codec small_budget_tx torn_world = (r, (s', w'))" using prod_cases3 by blast
  note S = small_budget_scene
  from commit_crash_any_size [OF wire.prost_codec_axioms S(1-3) run] show ?thesis
    using run S(4-6) by (auto simp: MAX_SSTABLES_def)
qed

text \<open>C18: an acknowledged write can be lost. When the disk runs full while an entry is appended to
  the log, the part of its frame that was written stays there; a smaller write that follows is
  acknowledged and can be read back, but at the next restart the parser takes its frames for the
  rest of the cut one, and the write is gone.\<close>

theorem failed_append_loses_write:
  assumes "prost_codec P" and "models P w s m" and "wal_file (st_wal s) = Some h" and "append_fails x n w"
    and "8 \<le> n" and "n + length (frames P (batch_log (st_sequence s + 1) [(k', Some v')])) < length (frame P (create_put_entry k v (st_sequence s + 1)))"
    and "length (frame P (create_put_entry k v (st_sequence s + 1))) < 2 ^ 62"
    and "memtable_bytes (memtable_insert k' (Value v') s) < memtable_max_bytes s"
  shows "\<exists>s1 w1 s2 w2. set_value P k v (s, w) = (Err (IoError x), (s1, w1))
    \<and> set_value P k' v' (s1, w1) = (Ok ''Inserted value'', (s2, w2))
    \<and> fst (get_value P k' (s2, w2)) = Ok (Some v') \<and> recovers P w2 (st_dir s) m"
  using prost_codec.failed_append_loses [OF assms] .

theorem failed_append_loses_write_witness:
  "\<exists>s1 w1 s2 w2. set_value wire_codec [3] (Bytes (replicate 200 0)) (logging_store, full_world 0 8) = (Err (IoError ''No space left on device''), (s1, w1))
     \<and> set_value wire_codec [4] (Integer 6) (s1, w1) = (Ok ''Inserted value'', (s2, w2))
     \<and> recovers wire_codec w2 sample_dir (\<lambda>k. map_option Bytes (sample_map k)) \<and> sample_map [4] = None"
  using failed_append_loses_write [OF wire.prost_codec_axioms logging_models logging_open full_append, where k = "[3]" and v = "Bytes (replicate 200 0)" and k' = "[4]" and v' = "Integer 6"]
    logging_cut logging_budget by (simp add: logging_dir sample_map_def) blast

text \<open>C19: a failed write can come back. When the commit marker of a write cannot be written, the
  call reports an error; the entry stays in the log, and the commit of the next write adopts it: after a
  restart both are there.\<close>

theorem failed_write_adopted:
  assumes "prost_codec P" and "models P w s m" and "wal_file (st_wal s) = Some h" and "commit_fails x 0 w"
    and "room P w s (batch_cost P s [(k, Some v), (k', Some v')])"
    and "memtable_bytes (memtable_insert k' (Value v') s) < memtable_max_bytes s"
  shows "\<exists>s1 w1 s2 w2. set_value P k v (s, w) = (Err (IoError x), (s1, w1))
    \<and> set_value P k' v' (s1, w1) = (Ok ''Inserted value'', (s2, w2))
    \<and> recovers P w2 (st_dir s) (m(k \<mapsto> v, k' \<mapsto> v'))"
  using prost_codec.failed_commit_adopted [OF assms] .

theorem failed_write_adopted_witness:
  "\<exists>s1 w1 s2 w2. set_value wire_codec [3] (Integer 5) (logging_store, full_world 1 0) = (Err (IoError ''No space left on device''), (s1, w1))
     \<and> set_value wire_codec [4] (Integer 6) (s1, w1) = (Ok ''Inserted value'', (s2, w2))
     \<and> recovers wire_codec w2 sample_dir ((\<lambda>k. map_option Bytes (sample_map k))([3] \<mapsto> Integer 5, [4] \<mapsto> Integer 6))"
  using failed_write_adopted [OF wire.prost_codec_axioms logging_models logging_open full_commit logging_room logging_budget]
  by (simp add: logging_dir)

text \<open>C20: an incomplete table file makes the directory unusable. When a file with the name of a table does not end as a
  table does, with the magic number and the version, then no open succeeds, now or later, as long as no fault strikes; every file, the
  log among them, keeps what it holds. The file that a process leaves when it stops while it writes a table is of
  this kind, unless its last eight bytes happen to be just these.\<close>

theorem partial_table_blocks_open:
  assumes "quiet w" and "file_of w (d @ [sst_file_name i]) = Some c" and "\<not> ends_as_table c"
  shows "let w' = ((\<lambda>w. snd (open_path P d w)) ^^ n) w
    in fst (open_path P d w') \<noteq> Ok s \<and> (\<forall>q bs. file_of w q = Some bs \<longrightarrow> file_of w' q = Some bs)"
  using incomplete_blocks [OF assms] by (simp add: kept_def)

theorem partial_table_blocks_open_witness:
  "fst (open_path wire_codec [''db'', ''u''] partial_world) \<noteq> Ok sample_store"
  using partial_table_blocks_open [OF partial_file, where P = wire_codec and s = sample_store and n = 0] by simp

text \<open>C21: compaction is not crash-safe for deletions. With two tables, the newer of which holds the
  tombstone of a key that the older one has a value for, there is a point at which a process that compacts
  can stop (every later call of it fails without effect) and leave files from which the deleted
  key is recovered: the inputs are removed newest first.\<close>

theorem compact_crash_resurrects:
  assumes "prost_codec P" and "quiet w" and "models P w s m" and "room P w s 0"
    and "st_sstables s = [t_new, t_old]" and "represents P w t_new es_new" and "represents P w t_old es_old"
    and "map_of (st_data s) k = None" and "map_of es_new k = Some Tombstone" and "map_of es_old k = Some (Value v)"
  shows "m k = None \<and> (\<exists>T s' w' m'. compact P (s, stops_at T w) = (Ok (), (s', w'))
    \<and> recovers P w' (st_dir s) m' \<and> m' k = Some v)"
  using prost_codec.compact_resurrects [OF assms] .

theorem compact_crash_resurrects_witness:
  "\<exists>s w T s' w' m'. two_tables = (s, w) \<and> sample_map [2] = None
     \<and> compact wire_codec (s, stops_at T w) = (Ok (), (s', w'))
     \<and> recovers wire_codec w' (st_dir s) m' \<and> m' [2] = Some (Bytes [8])"
proof -
  obtain s w t_new t_old where S: "two_tables = (s, w)" "quiet w" "st_data s = []"
    "models wire_codec w s (\<lambda>k. map_option Bytes (sample_map k))" "room wire_codec w s 0"
    "st_sstables s = [t_new, t_old]" "represents wire_codec w t_new (st_data sample_store)"
    "represents wire_codec w t_old sample_entries"
    by (rule two_tables_scene)
  have "map_of (st_data sample_store) [2] = Some Tombstone" "map_of sample_entries [2] = Some (Value (Bytes [8]))"
    "map_of (st_data s) [2] = None"
    by (simp_all add: sample_store_def sample_entries_def S(3))
  from compact_crash_resurrects [OF wire.prost_codec_axioms S(2,4-8) this(3,1,2)] obtain T s' w' m' where
    "map_option Bytes (sample_map [2]) = None" "compact wire_codec (s, stops_at T w) = (Ok (), (s', w'))"
    "recovers wire_codec w' (st_dir s) m'" "m' [2] = Some (Bytes [8])" by (elim conjE exE) (rule that)
  with S(1) show ?thesis by (intro exI [of _ s] exI [of _ w] exI [of _ T] exI [of _ s'] exI [of _ w'] exI [of _ m']) simp
qed

text \<open>C22: when reading the directory, and nothing else, fails while a table that was used before is opened, the open reports success on a store that
  has forgotten every table, although their files are all still there, and numbers its next table 1 again. When the log had entries, and they fit into a table file, a
  flush then writes them to \<open>sstable_1.sst\<close>, over the table of that name if there is one.\<close>

theorem unreadable_directory_forgets_tables:
  assumes "prost_codec P" and "on_disk P w d ids ess log" and "dir_ready w d" and "file_of w (d @ [''LOCK'']) = Some c"
    and "d @ [''LOCK''] \<notin> set (w_locks w)" and "w_faults w = (\<lambda>_. NoFault)(w_clock w + 4 := Fault e n)"
  shows "\<exists>s w'. open_path P d w = (Ok s, w') \<and> st_sstables s = [] \<and> next_sstable_id s = 1 \<and> st_data s = log_data P log
    \<and> (\<forall>i. file_of w' (d @ [sst_file_name i]) = file_of w (d @ [sst_file_name i]))
    \<and> (st_data s \<noteq> [] \<and> table_fits P (st_data s) \<longrightarrow>
         (\<exists>s2 w2. flush P (s, w') = (Ok (), (s2, w2)) \<and> file_of w2 (d @ [sst_file_name 1]) = Some (sst_image P (st_data s))))"
  using prost_codec.open_unreadable [OF assms] .

theorem unreadable_directory_forgets_tables_witness:
  "\<exists>s w'. open_path wire_codec sample_dir (left_world ((\<lambda>_. NoFault)(4 := Fault ''Input/output error'' 0))) = (Ok s, w')
     \<and> st_sstables s = [] \<and> next_sstable_id s = 1"
  using unreadable_directory_forgets_tables [OF wire.prost_codec_axioms left_on_disk left_ready left_lock_file left_free left_faults]
  by blast

section \<open>The database\<close>

text \<open>C23: a write to a table of a database changes that table at that key and nothing else: every
  later read, of any table, open or closed, returns what the map of maps says.\<close>

theorem database_put_get:
  assumes "prost_codec P" and "quiet w" and "db_holds P w db T" and "map_of (db_open db) name = Some s"
    and "room P w s (batch_cost P s [(k, Some (Bytes v))])" and "validate_name other = Done ()"
  shows "\<exists>db1 w1 db2 w2 b. with_table P name (table_put P k v) (db, w) = (Done (), (db1, w1))
    \<and> with_table P other (table_get P j) (db1, w1) = (Done b, (db2, w2)) \<and> quiet w2
    \<and> b = (if other = name \<and> j = k then Some v else the_table T other j)
    \<and> db_holds P w2 db2 (T(name \<mapsto> (the_table T name)(k \<mapsto> v), other \<mapsto> the_table (T(name \<mapsto> (the_table T name)(k \<mapsto> v))) other))"
proof -
  from prost_codec.database_put [OF assms(1-5)] obtain db1 w1 where
    p: "with_table P name (table_put P k v) (db, w) = (Done (), (db1, w1))" "quiet w1"
      "db_holds P w1 db1 (T(name \<mapsto> (the_table T name)(k \<mapsto> v)))" by blast
  from prost_codec.database_get [OF assms(1) p(2,3) assms(6), of j] p(1) show ?thesis
    by (auto simp: the_table_def)
qed

theorem database_put_get_witness:
  "\<exists>db1 w1 db2 w2. with_table wire_codec ''t'' (table_put wire_codec [4] [6]) (sample_db, calm_world) = (Done (), (db1, w1))
     \<and> with_table wire_codec ''t'' (table_get wire_codec [4]) (db1, w1) = (Done (Some [6]), (db2, w2))"
  using database_put_get [OF wire.prost_codec_axioms calm_quiet sample_db_holds sample_db_open
      sample_room [OF sample_bytes_cost] sample_name, of "[4]"] by auto

text \<open>C24: creating a table adds an empty table under a new name, and is refused, without any
  effect, under a name that is taken, whether that table is open or closed.\<close>

theorem create_table_adds:
  assumes "prost_codec P" and "quiet w" and "db_holds P w db T" and "validate_name name = Done ()"
  shows "\<exists>r db' w'. create_table P name (db, w) = (r, (db', w')) \<and> quiet w'
    \<and> (case T name of
         None \<Rightarrow> r = Done () \<and> db_holds P w' db' (T(name \<mapsto> (\<lambda>k. None)))
       | Some b \<Rightarrow> r = Fail (TableExists name) \<and> db' = db \<and> db_holds P w' db T)"
  using prost_codec.create_table_models [OF assms] create_table_taken [OF assms(2,3)]
  by (cases "T name") fastforce+

theorem create_table_adds_witness:
  "\<exists>db' w'. create_table wire_codec ''u'' (sample_db, calm_world) = (Done (), (db', w'))
     \<and> db_holds wire_codec w' db' (sample_tables(''u'' \<mapsto> (\<lambda>k. None)))"
  using create_table_adds [OF wire.prost_codec_axioms calm_quiet sample_db_holds bare_world_simps(6)]
  by (auto simp: sample_tables_def)

text \<open>C25: deleting a table removes it, its files and its lock, and leaves every other table as it
  is; deleting a table that does not exist is refused.\<close>

theorem delete_table_removes:
  assumes "quiet w" and "db_holds P w db T" and "validate_name name = Done ()"
  shows "\<exists>r db' w'. delete_table P name (db, w) = (r, (db', w')) \<and> quiet w'
    \<and> (case T name of
         Some b \<Rightarrow> r = Done () \<and> db_holds P w' db' (T(name := None))
       | None \<Rightarrow> r = Fail (TableNotFound name) \<and> db' = db \<and> db_holds P w' db T)"
  using delete_table_models [OF assms(1,2)] delete_table_unknown [OF assms]
  by (cases "T name") fastforce+

theorem delete_table_removes_witness:
  "\<exists>db' w'. delete_table wire_codec ''t'' (sample_db, calm_world) = (Done (), (db', w'))
     \<and> db_holds wire_codec w' db' (sample_tables(''t'' := None))"
  using delete_table_removes [OF calm_quiet sample_db_holds sample_name] by (auto simp: sample_tables_def)

text \<open>C26: no table suffers from what happens to another. Whatever calls of the database are made that
  name other tables (creating, deleting, and any block of calls on a borrowed handle), and
  whatever fails in them, a table keeps its contents, in memory and on disk: once the faults are over, it can be
  read with the values it had.\<close>

theorem other_tables_unharmed:
  assumes "prost_codec P" and "db_holds P w db T" and "T name = Some b" and "name \<notin> others"
    and "db_calls P others (db, w) (db', w')"
  shows "table_holds P name b (db', w') \<and> (\<exists>x. with_table P name (table_get P k) (db', calm w') = (Done (b k), x))"
  using prost_codec.calls_unharmed [OF assms] .

theorem other_tables_unharmed_witness:
  "\<exists>r db' w' x. delete_table wire_codec ''u'' (sample_db, sample_world (\<lambda>_. Fault ''Input/output error'' 1)) = (r, (db', w'))
     \<and> with_table wire_codec ''t'' (table_get wire_codec [5]) (db', calm w') = (Done (Some [9]), x)"
proof -
  let ?x = "(sample_db, sample_world (\<lambda>_. Fault ''Input/output error'' 1))"
  obtain r db' w' where run: "delete_table wire_codec ''u'' ?x = (r, (db', w'))" using prod_cases3 by blast
  have "sample_tables ''t'' = Some sample_map" "''t'' \<notin> {''u''}" by (simp_all add: sample_tables_def)
  from other_tables_unharmed [OF wire.prost_codec_axioms sample_db_holds this calls_cons [OF _ call_delete [OF run] calls_nil], of "[5]"]
  show ?thesis using run by (auto simp: sample_map_def)
qed

text \<open>C27: listing returns the names of all tables, open or closed, sorted and without repetition.\<close>

theorem list_tables_exact:
  assumes "quiet w" and "db_holds P w db T"
  shows "\<exists>names w'. list_tables (db, w) = (Done names, (db, w')) \<and> quiet w' \<and> db_holds P w' db T
    \<and> sorted names \<and> distinct names \<and> set names = dom T"
  using list_tables_models [OF assms] db_holds_later [OF assms(2)] assms(1) by fastforce

theorem list_tables_exact_witness:
  "\<exists>w'. list_tables (sample_db, calm_world) = (Done [''t''], (sample_db, w'))"
proof -
  obtain names w' where n: "list_tables (sample_db, calm_world) = (Done names, (sample_db, w'))"
      "distinct names" "set names = {''t''}"
    using list_tables_exact [OF calm_quiet sample_db_holds] by (auto simp: sample_tables_def)
  then have "names = [''t'']" by (cases names rule: remdups_adj.cases) auto
  with n(1) show ?thesis by blast
qed

text \<open>C28: a database that is dropped and opened again holds the same tables with the same contents.\<close>

theorem database_reopen:
  assumes "quiet w" and "db_holds P w db T"
  shows "\<exists>w'. database_open (db_root db) (drop_database db w) = (Done \<lparr>db_root = db_root db, db_open = []\<rparr>, w')
    \<and> quiet w' \<and> db_holds P w' \<lparr>db_root = db_root db, db_open = []\<rparr> T"
  using reopen_database [OF assms] .

theorem database_reopen_witness:
  "\<exists>db' w'. database_open [''db''] (drop_database sample_db calm_world) = (Done db', w')
     \<and> db_holds wire_codec w' db' sample_tables"
  using database_reopen [OF calm_quiet sample_db_holds] by (auto simp: sample_db_def)

section \<open>The example program\<close>

text \<open>C29: the example program \<open>demo.rs\<close> succeeds and prints what its comments promise, whatever an
  earlier run left behind, and leaves a database that opens with the contents it wrote.\<close>

theorem demo_prints:
  assumes "compact_codec P" and "demo_ready w"
  shows "\<exists>w'. demo_main P w = (Done (), (w', demo_output))
    \<and> (\<exists>w1. database_open demo_root w' = (Done \<lparr>db_root = demo_root, db_open = []\<rparr>, w1)
      \<and> db_holds P w1 \<lparr>db_root = demo_root, db_open = []\<rparr> demo_tables)"
  using compact_codec.demo_main_prints [OF assms] .

theorem demo_prints_witness:
  "\<exists>w'. demo_main wire_codec demo_world = (Done (), (w', demo_output))"
  using demo_prints [OF compact.compact_codec_axioms demo_world_ready] by blast

section \<open>The log\<close>

text \<open>C30: a log cut after any number of bytes, as a crash leaves it, is parsed without error into
  the committed part of the entries that are still whole.\<close>

theorem log_cut_recovery:
  assumes "prost_codec P" and "length (frames P es) < 2 ^ 62"
  shows "bindO (parse_buffer P (take n (frames P es))) (\<lambda>(entries, count, last_end). Ok (take count entries))
    = Ok (committed (is_commit P) (whole (frame P) n es))"
  using prost_codec.recovered_cut [OF assms] by (simp add: recovered_def)

theorem log_cut_recovery_witness:
  "bindO (parse_buffer wire_codec (take 93 (frames wire_codec sample_log))) (\<lambda>(entries, count, last_end). Ok (take count entries))
     = Ok (committed (is_commit wire_codec) (whole (frame wire_codec) 93 sample_log))"
  by (rule log_cut_recovery [OF wire.prost_codec_axioms]) (simp add: sample_log_bytes)

text \<open>C31: parsing a log ends on every input. Run as the loop it is, \<open>parse_buffer\<close> makes at most one
  pass for every eight bytes of the buffer, and one more, whatever the bytes are and whatever the
  decoder makes of them, and its result is that of the recursive definition.\<close>

theorem parse_buffer_terminates:
  "\<exists>n st. 8 * n \<le> length buffer + 8 \<and> st = (parse_pass P buffer ^^ n) parse_init
     \<and> while_option (parse_goes_on buffer) (parse_pass P buffer) parse_init = Some st
     \<and> parse_buffer P buffer = parse_result st"
  by (rule parse_buffer_loop)

text \<open>Recovery returns the committed entries and cuts the uncommitted or torn tail off the
  file, so that a later commit cannot adopt it.\<close>

theorem recovery_truncates_tail:
  assumes "prost_codec P" and "quiet w" and "wal_holds l w (frames P es @ rest)" and "torn rest"
    and "length (frames P es) < 2 ^ 62"
  shows "\<exists>l' w'. wal_read_for_recovery P (l, w) = (Ok (committed (is_commit P) es), (l', w'))
    \<and> wal_holds l' w' (frames P (committed (is_commit P) es))"
  using prost_codec.wal_recovery_ok [OF assms] by blast

theorem recovery_truncates_tail_witness:
  "\<exists>l' w'. wal_read_for_recovery wire_codec (st_wal sample_store, calm_world) = (Ok sample_log, (l', w'))
     \<and> wal_holds l' w' (frames wire_codec sample_log)"
proof -
  have "wal_holds (st_wal sample_store) calm_world (frames wire_codec sample_log @ [])"
    "committed (is_commit wire_codec) sample_log = sample_log"
    using sample_engine [of "\<lambda>_. NoFault"] by (simp_all add: engine_def)
  with recovery_truncates_tail [OF wire.prost_codec_axioms calm_quiet this(1)] sample_log_bytes show ?thesis by simp
qed

text \<open>Replaying committed entries applies their operations to the memtable in log order and
  raises the sequence number to the largest one seen; the memtable's byte estimate stays the sum
  of the footprints of its entries.\<close>

theorem replay_applies_log:
  assumes "list_all (log_ok P) log" and "committed (is_commit P) log = log"
    and "st_data s = []" and "memtable_bytes s = 0"
  shows "\<exists>s'. replay_loop P [] log s = (Ok (), s') \<and> st_data s' = log_data P log
    \<and> memtable_bytes s' = footprints (st_data s') \<and> st_sequence s' = fold max (map we_sequence log) (st_sequence s)"
  using replay_loop_committed [OF assms(1,2), of s] replayed_fresh [OF assms(3,4), of P log]
  by (simp add: replayed_def log_sequence_def)

theorem replay_applies_log_witness:
  "\<exists>s'. replay_loop wire_codec [] sample_log (fresh_store sample_dir (st_wal sample_store) []) = (Ok (), s')
     \<and> st_data s' = [([2], Tombstone), ([5], Value (Bytes [9]))]"
proof -
  have "list_all (log_ok wire_codec) sample_log" "committed (is_commit wire_codec) sample_log = sample_log"
    using sample_engine by (simp_all add: engine_def)
  from replay_applies_log [OF this, of "fresh_store sample_dir (st_wal sample_store) []"] show ?thesis
    by (auto simp: fresh_store_def sample_log_data)
qed

text \<open>C32: a length prefix that points behind the end of the log. After any number of whole entries it ends
  the parse, as a torn tail does, unless the end it gives to its entry does not fit into 64 bits: then the
  parser panics, and without faults a table with such a log cannot be opened, now or later, since every
  attempt leaves the file as it is.\<close>

theorem parse_overflow_panics:
  assumes "prost_codec P" and "length (frames P es) < 2 ^ 62" and "length rest < unat len"
    and "quiet w" and "file_of w (d @ [''wal.log'']) = Some (frames P es @ to_be_bytes64 len @ rest)"
  shows "if 2 ^ 64 \<le> length (frames P es) + 8 + unat len
    then parse_buffer P (frames P es @ to_be_bytes64 len @ rest) = Panic
      \<and> fst (open_path P d (((\<lambda>w. snd (open_path P d w)) ^^ n) w)) \<noteq> Ok s
    else parse_buffer P (frames P es @ to_be_bytes64 len @ rest)
      = Ok (es, length (committed (is_commit P) es), length (frames P (committed (is_commit P) es)))"
  using prost_codec.parse_overlong [OF assms(1-3)] panicking_log_blocks [OF assms(4,5)] by auto

theorem parse_overflow_panics_witness:
  "parse_buffer wire_codec (frames wire_codec sample_log @ to_be_bytes64 (- 1) @ []) = Panic
     \<and> fst (open_path wire_codec sample_dir (put_file (sample_dir @ [''wal.log''])
         (frames wire_codec sample_log @ to_be_bytes64 (- 1) @ []) calm_world)) \<noteq> Ok sample_store"
  using parse_overflow_panics [OF wire.prost_codec_axioms, where es = sample_log and rest = "[]" and len = "- 1" and n = 0
      and w = "put_file (sample_dir @ [''wal.log'']) (frames wire_codec sample_log @ to_be_bytes64 (- 1) @ []) calm_world"
      and d = sample_dir and s = sample_store] sample_log_bytes
  by (simp add: unsigned_minus_1_eq_mask mask_eq_exp_minus_1)

section \<open>Tables on disk\<close>

text \<open>C33: what \<open>SsTable::flush\<close> writes, \<open>SsTable::open\<close> reads back: the same path, sparse index,
  key range and bloom filter.\<close>

theorem sst_flush_open_roundtrip:
  assumes "quiet w" and "writable_at w p" and "table_fits P es"
  shows "\<exists>t w' w''. sst_flush P p es w = (Ok t, w') \<and> sst_open p w' = (Ok t, w'')"
  using sst_flush_ok [OF assms(1,2) table_fits_bounds(4) [OF assms(3)]]
    sst_open_ok [of "later 4 (put_file p (sst_image P es) w)" p P es] assms(1,3) by auto

theorem sst_flush_open_roundtrip_witness:
  "\<exists>t w' w''. sst_flush wire_codec sample_table_path sample_entries calm_world = (Ok t, w')
     \<and> sst_open sample_table_path w' = (Ok t, w'')"
  by (rule sst_flush_open_roundtrip [OF calm_quiet sample_table_writable sample_fits])

text \<open>C34: a lookup in a table returns exactly the entry that was written for the key, through
  range check, bloom filter, binary search, block cache, checksum and block scan.\<close>

theorem sst_get_exact:
  assumes "prost_codec P" and "quiet w" and "represents P w t es"
  shows "\<exists>t' n. sst_get P key (t, w) = (Ok (map_of es key), (t', later n w)) \<and> represents P w t' es"
  using prost_codec.sst_get_ok [OF assms] by blast

theorem sst_get_exact_witness:
  "\<exists>t' n. sst_get wire_codec [3] (table_of wire_codec sample_table_path sample_entries, calm_world)
     = (Ok (Some Tombstone), (t', later n calm_world))"
  using sst_get_exact [OF wire.prost_codec_axioms calm_quiet sample_represents, of "[3]"]
  by (auto simp: sample_entries_def)

text \<open>C35: a block of which one byte changed on disk, in the records or in the checksum, is
  rejected with a decode error.\<close>

theorem damaged_block_rejected:
  assumes "quiet w" and "i < length bs + 4" and "d \<noteq> (bs @ to_be_bytes32 (crc32 bs)) ! i"
    and "file_of w p = Some (xs @ (bs @ to_be_bytes32 (crc32 bs))[i := d] @ ys)"
    and "unat (ie_block_offset ie) = length xs" and "length xs < 2 ^ 63"
    and "unat (ie_block_len ie) = length bs + 4"
  shows "\<exists>m. read_block_from_disk p ie w = (Err (DecodeError m), later 2 w)"
  using read_block_damaged [OF assms] by blast

theorem damaged_block_rejected_witness:
  "\<exists>m. read_block_from_disk [''f''] \<lparr>ie_first_key = [], ie_block_offset = 0, ie_block_len = 5\<rparr>
     (put_file [''f''] ((([7] :: bytes) @ to_be_bytes32 (crc32 [7]))[0 := 6]) calm_world)
     = (Err (DecodeError m), later 2 (put_file [''f''] (([7] @ to_be_bytes32 (crc32 [7]))[0 := 6]) calm_world))"
  by (rule damaged_block_rejected [of _ 0 "[7]" 6 _ "[]" "[]"]) simp_all

text \<open>C36: the bloom filter has no false negatives: every key that went into a table's filter is
  reported as possibly present.\<close>

theorem bloom_filter_complete:
  assumes "length keys * 10 < 2 ^ 63" and "key \<in> set keys"
  shows "\<exists>b. build_bloom keys = Ok (Some b) \<and> maybe_contains b key = Ok True"
  using key_filter_contains [OF assms] build_bloom_ok [OF assms(1)] by (metis)

theorem bloom_filter_complete_witness:
  "\<exists>b. build_bloom [[1], [2, 3]] = Ok (Some b) \<and> maybe_contains b [2, 3] = Ok True"
  by (rule bloom_filter_complete) simp_all

text \<open>C37: the block cache refines a list of at most \<open>cap\<close> blocks kept in order of use: a hit moves
  the block to the back, an insertion into a full cache drops the front.\<close>

theorem cache_refines_lru:
  assumes "cache_inv c"
  shows "cache_inv (snd (cache_get off c)) \<and> cache_inv (cache_put off bs c)
    \<and> fst (cache_get off c) = fst (lru_get off (cache_abs c))
    \<and> cache_abs (snd (cache_get off c)) = snd (lru_get off (cache_abs c))
    \<and> cache_abs (cache_put off bs c) = lru_put (bc_cap c) off bs (cache_abs c)"
  using cache_inv_get [OF assms] cache_inv_put [OF assms] cache_get_refines [OF assms] cache_put_refines [OF assms]
  by (simp add: prod_eq_iff)

theorem cache_refines_lru_witness:
  "cache_abs (cache_put 8 [2] (cache_put 4 [1] (cache_new 1))) = [(8, [2])]"
  using cache_refines_lru [of "cache_put 4 [1] (cache_new 1)" 8 "[2]"] cache_refines_lru [of "cache_new 1" 4 "[1]"]
  by (simp add: lru_put_def) (simp add: cache_new_def cache_abs_def)

text \<open>The id in a table's file name is read back from its path, for every 64-bit id and
  directory.\<close>

theorem table_name_roundtrip:
  "sstable_id_from_path (path_join d (sst_file_name i)) = Some i"
  by simp

section \<open>The public crate\<close>

text \<open>A batch of puts writes all its pairs, the last one winning for a key that occurs
  twice.\<close>

theorem table_put_batch_effect:
  assumes "prost_codec P" and "quiet w" and "table_models P w s b"
    and "room P w s (batch_cost P s (batch_of es))"
  shows "\<exists>s' w'. table_put_batch P es (s, w) = (Done (), (s', w')) \<and> quiet w'
    \<and> table_models P w' s' (b ++ map_of (rev es))"
  using prost_codec.table_put_batch_models [OF assms] .

theorem table_put_batch_effect_witness:
  "\<exists>s' w'. table_put_batch wire_codec [([4], [1]), ([4], [2])] (sample_store, calm_world) = (Done (), (s', w'))
     \<and> table_models wire_codec w' s' (sample_map ++ map_of (rev [([4], [1]), ([4], [2])]))"
proof -
  have "batch_cost wire_codec sample_store (batch_of [([4], [1]), ([4], [2])]) \<le> 1000"
    by (simp add: sample_cost_simps batch_of_def)
  from table_put_batch_effect [OF wire.prost_codec_axioms calm_quiet sample_table_models sample_room [OF this]]
  show ?thesis by blast
qed

text \<open>Looking up many keys returns their values in the order of the keys.\<close>

theorem table_get_batch_exact:
  assumes "prost_codec P" and "quiet w" and "table_models P w s b"
  shows "\<exists>s' w'. table_get_batch P keys (s, w) = (Done (map b keys), (s', w')) \<and> table_models P w' s' b"
  using prost_codec.table_get_batch_models [OF assms] by blast

theorem table_get_batch_exact_witness:
  "\<exists>s' w'. table_get_batch wire_codec [[5], [2], [1]] (sample_store, calm_world)
     = (Done [Some [9], None, Some [7]], (s', w'))"
  using table_get_batch_exact [OF wire.prost_codec_axioms calm_quiet sample_table_models, of "[[5], [2], [1]]"]
  by (auto simp: sample_map_def)

text \<open>C38: the keys that begin with a prefix are exactly those from the prefix up to, and not
  including, \<open>prefix_upper_bound\<close>, or without upper limit when it has none.\<close>

theorem prefix_upper_bound_exact:
  "take (length pre) k = pre \<longleftrightarrow>
     pre \<le> k \<and> (case prefix_upper_bound pre of None \<Rightarrow> True | Some u \<Rightarrow> k < u)"
  using prefix_range [of pre k] by (simp add: below_def)

text \<open>C39: a prefix scan returns, sorted, exactly the pairs whose key begins with the prefix, and
  never panics.\<close>

theorem scan_prefix_exact:
  assumes "prost_codec P" and "quiet w" and "table_models P w s b"
  shows "\<exists>ps w'. scan_prefix P pre (s, w) = (Done ps, (s, w')) \<and> bt_sorted ps
    \<and> (\<forall>k. map_of ps k = (if take (length pre) k = pre then b k else None))"
  using prost_codec.scan_prefix_models [OF assms] by blast

theorem scan_prefix_exact_witness:
  "\<exists>ps w'. scan_prefix wire_codec [5] (sample_store, calm_world) = (Done ps, (sample_store, w'))
     \<and> map_of ps [5] = Some [9] \<and> map_of ps [1] = None"
proof -
  obtain ps w' where "scan_prefix wire_codec [5] (sample_store, calm_world) = (Done ps, (sample_store, w'))"
    and ps: "\<forall>k. map_of ps k = (if take (length [5 :: u8]) k = [5] then sample_map k else None)"
    using scan_prefix_exact [OF wire.prost_codec_axioms calm_quiet sample_table_models, of "[5]"] by blast
  moreover have "map_of ps [5] = Some [9]" "map_of ps [1] = None"
    using ps by (simp_all add: sample_map_def)
  ultimately show ?thesis by blast
qed

text \<open>C40: a name that is empty, contains a slash or a backslash, or is \<open>.\<close> or \<open>..\<close> is refused as invalid by
  every call of the database that takes a name, before anything is read or changed; every other name is
  accepted and is a single component below the root. Whatever the name is, and whatever fails, such
  a call changes no file outside of the directory of that name below the root.\<close>

theorem names_stay_below_root:
  assumes "path_ok (db_root db)"
  shows "(if name \<in> {[], ''.'', ''..''} \<or> CHR ''/'' \<in> set name \<or> CHR 0x5C \<in> set name
      then create_table P name (db, w) = (Fail (InvalidTableName name), (db, w))
        \<and> database_table P name (db, w) = (Fail (InvalidTableName name), (db, w))
        \<and> delete_table P name (db, w) = (Fail (InvalidTableName name), (db, w))
      else validate_name name = Done () \<and> path_join (db_root db) name = db_root db @ [name])
    \<and> stays_in (db_root db @ [name]) w (snd (snd (create_table P name (db, w))))
    \<and> stays_in (db_root db @ [name]) w (snd (snd (database_table P name (db, w))))
    \<and> stays_in (db_root db @ [name]) w (snd (snd (delete_table P name (db, w))))"
proof -
  have "if bad_name name
      then create_table P name (db, w) = (Fail (InvalidTableName name), (db, w))
        \<and> database_table P name (db, w) = (Fail (InvalidTableName name), (db, w))
        \<and> delete_table P name (db, w) = (Fail (InvalidTableName name), (db, w))
      else validate_name name = Done () \<and> path_join (db_root db) name = db_root db @ [name]"
    using invalid_name [of name _ P db w] validate_name_join(1) [of name "db_root db"] by (simp add: validate_name_bad)
  then show ?thesis
    using create_stays_in [OF assms] table_stays_in [OF assms] delete_stays_in
    unfolding bad_name_def by (metis prod.collapse)
qed

theorem names_stay_below_root_witness:
  "create_table wire_codec [CHR ''a'', CHR 0x5C] (sample_db, calm_world)
     = (Fail (InvalidTableName [CHR ''a'', CHR 0x5C]), (sample_db, calm_world))
   \<and> stays_in [''db'', ''u''] calm_world (snd (snd (create_table wire_codec ''u'' (sample_db, calm_world))))"
  using names_stay_below_root [of sample_db "[CHR ''a'', CHR 0x5C]" wire_codec calm_world]
    names_stay_below_root [of sample_db "''u''" wire_codec calm_world]
  by (simp add: sample_db_def path_ok_def normal_component_def)
end
